(* ===== verification/Prelude.thy ===== *)
theory Prelude
  imports Main "HOL-Library.Word" "HOL-Library.Monad_Syntax"
begin

text \<open>
  Prelude of the development: the allocation oracle every fallible operation of the
  library consumes, the byte and string types of the model, and the generic list lemmas
  the component theories share.

  \<^bold>\<open>Allocation.\<close> libdbus is written so that every allocation may fail; the caller sees
  a NULL or a FALSE and backs out. \<open>malloc\<close> itself is the C library's, so its outcomes
  are a parameter of the model: a script of booleans, one per allocation, consumed from
  the front (a script that has run out means that the remaining allocations succeed).
  A theorem that quantifies over the script covers every pattern of failures.
\<close>

type_synonym script = "bool list"

definition malloc :: "script \<Rightarrow> bool \<times> script" where
  "malloc r = (case r of [] \<Rightarrow> (True, []) | b # bs \<Rightarrow> (b, bs))"

lemma malloc_Nil [simp]: "malloc [] = (True, [])"
  by (simp add: malloc_def)

lemma malloc_Cons [simp]: "malloc (b # bs) = (b, bs)"
  by (simp add: malloc_def)

text \<open>A byte of a D-Bus string, and the error reply of a fallible operation.\<close>

type_synonym byte = "8 word"

text \<open>Facts about the models' invariants are collected here.\<close>

named_theorems invs

subsection \<open>Lists\<close>

lemma split_at_mem:
  assumes "x \<in> set xs" and "distinct xs"
  obtains as bs where "xs = as @ x # bs" "x \<notin> set as" "x \<notin> set bs"
proof -
  from assms(1) obtain as bs where "xs = as @ x # bs" by (auto dest: split_list)
  with assms(2) that show thesis by auto
qed

lemma remove1_middle [simp]: "x \<notin> set as \<Longrightarrow> remove1 x (as @ x # bs) = as @ bs"
  by (induction as) auto

lemma takeWhile_split_first:
  assumes "x \<in> set xs" and "P x"
  obtains as y bs where "xs = as @ y # bs" "P y" "\<forall>a \<in> set as. \<not> P a"
  using assms split_list_first_prop [of xs P] by blast

lemma in_set_butlast_last: "x \<in> set xs \<Longrightarrow> x \<in> set (butlast xs) \<or> x = last xs"
  by (induction xs) auto

end
