(* ===== verification/Dbus_List.thy ===== *)
theory Dbus_List
  imports Prelude
begin

text \<open>
  Model of \<^verbatim>\<open>dbus/dbus-list.c\<close>: the circular, doubly linked lists every other part of
  the program keeps its queues in. Links live in an explicit store from addresses to
  cells, so the pointer surgery of the C code is translated assignment by assignment;
  a \<open>None\<close> result is a memory fault (a NULL or freed pointer dereferenced) or a loop that
  does not end, and the theorems show that neither happens on a well-formed list.

  The static \<open>list_pool\<close> is the field \<open>pool\<close>: \<open>None\<close> while the C pointer is NULL, and the
  number of elements the pool has handed out otherwise. Addresses come from a counter
  and are never reused, so a use after free is always a fault of the model.
\<close>

section \<open>Cells and the store\<close>

type_synonym addr = nat
type_synonym ptr = "addr option"

record 'a dlink =
  l_prev :: ptr
  l_next :: ptr
  l_data :: 'a

record 'a lstore =
  links :: "addr \<rightharpoonup> 'a dlink"
  brk :: addr
  pool :: "nat option"
  allocs :: script

definition load :: "'a lstore \<Rightarrow> ptr \<Rightarrow> 'a dlink option" where
  "load s p = (case p of None \<Rightarrow> None | Some a \<Rightarrow> links s a)"

definition set_prev :: "ptr \<Rightarrow> ptr \<Rightarrow> 'a lstore \<Rightarrow> 'a lstore option" where
  "set_prev p q s = (case p of None \<Rightarrow> None | Some a \<Rightarrow>
     (case links s a of None \<Rightarrow> None
      | Some n \<Rightarrow> Some (s\<lparr>links := (links s)(a \<mapsto> n\<lparr>l_prev := q\<rparr>)\<rparr>)))"

definition set_next :: "ptr \<Rightarrow> ptr \<Rightarrow> 'a lstore \<Rightarrow> 'a lstore option" where
  "set_next p q s = (case p of None \<Rightarrow> None | Some a \<Rightarrow>
     (case links s a of None \<Rightarrow> None
      | Some n \<Rightarrow> Some (s\<lparr>links := (links s)(a \<mapsto> n\<lparr>l_next := q\<rparr>)\<rparr>)))"

section \<open>Allocation of links\<close>

text \<open>The first branch creates the pool; if the element allocation then fails the pool is
  freed again, so the pointer is back to NULL.\<close>

definition new_cell :: "'a \<Rightarrow> nat \<Rightarrow> script \<Rightarrow> 'a lstore \<Rightarrow> 'a lstore" where
  "new_cell d n r s = s\<lparr>links := (links s)(brk s \<mapsto> \<lparr>l_prev = None, l_next = None, l_data = d\<rparr>),
     brk := Suc (brk s), pool := Some n, allocs := r\<rparr>"

definition alloc_link :: "'a \<Rightarrow> 'a lstore \<Rightarrow> ptr \<times> 'a lstore" where
  "alloc_link d s =
     (case pool s of
        None \<Rightarrow>
          (let (pool_ok, r) = malloc (allocs s) in
           if \<not> pool_ok then (None, s\<lparr>allocs := r\<rparr>)
           else let (ok, r) = malloc r in
             if \<not> ok then (None, s\<lparr>allocs := r\<rparr>)
             else (Some (brk s), new_cell d 1 r s))
      | Some n \<Rightarrow>
          (let (ok, r) = malloc (allocs s) in
           if \<not> ok then (None, s\<lparr>allocs := r\<rparr>)
           else (Some (brk s), new_cell d (Suc n) r s)))"

text \<open>\<open>_dbus_mem_pool_dealloc\<close> answers TRUE when the last element went away, and then
  \<open>free_link\<close> frees the pool.\<close>

definition free_link :: "ptr \<Rightarrow> 'a lstore \<Rightarrow> 'a lstore option" where
  "free_link p s = (case (pool s, p) of
       (Some n, Some a) \<Rightarrow>
         (case links s a of None \<Rightarrow> None
          | Some _ \<Rightarrow> Some (s\<lparr>links := (links s)(a := None),
                             pool := (if n - 1 = 0 then None else Some (n - 1))\<rparr>))
     | _ \<Rightarrow> None)"

definition dbus_list_alloc_link :: "'a \<Rightarrow> 'a lstore \<Rightarrow> ptr \<times> 'a lstore" where
  "dbus_list_alloc_link d s = alloc_link d s"

definition dbus_list_free_link :: "ptr \<Rightarrow> 'a lstore \<Rightarrow> 'a lstore option" where
  "dbus_list_free_link p s = free_link p s"

section \<open>Linking\<close>

text \<open>Each operation takes the value of \<open>*list\<close> and returns its new value.\<close>

definition link_before :: "ptr \<Rightarrow> ptr \<Rightarrow> ptr \<Rightarrow> 'a lstore \<Rightarrow> (ptr \<times> 'a lstore) option" where
  "link_before lst b l s =
     (if lst = None then do {
        s \<leftarrow> set_prev l l s;
        s \<leftarrow> set_next l l s;
        Some (l, s)
      } else do {
        s \<leftarrow> set_next l b s;
        nb \<leftarrow> load s b;
        s \<leftarrow> set_prev l (l_prev nb) s;
        s \<leftarrow> set_prev b l s;
        nl \<leftarrow> load s l;
        s \<leftarrow> set_next (l_prev nl) l s;
        Some (if b = lst then l else lst, s)
      })"

definition link_after :: "ptr \<Rightarrow> ptr \<Rightarrow> ptr \<Rightarrow> 'a lstore \<Rightarrow> (ptr \<times> 'a lstore) option" where
  "link_after lst a l s =
     (if lst = None then do {
        s \<leftarrow> set_prev l l s;
        s \<leftarrow> set_next l l s;
        Some (l, s)
      } else do {
        s \<leftarrow> set_prev l a s;
        na \<leftarrow> load s a;
        s \<leftarrow> set_next l (l_next na) s;
        s \<leftarrow> set_next a l s;
        nl \<leftarrow> load s l;
        s \<leftarrow> set_prev (l_next nl) l s;
        Some (lst, s)
      })"

definition dbus_list_prepend :: "ptr \<Rightarrow> 'a \<Rightarrow> 'a lstore \<Rightarrow> (bool \<times> ptr \<times> 'a lstore) option" where
  "dbus_list_prepend lst d s =
     (let (l, s) = alloc_link d s in
      if l = None then Some (False, lst, s)
      else do { (lst, s) \<leftarrow> link_before lst lst l s; Some (True, lst, s) })"

definition dbus_list_append :: "ptr \<Rightarrow> 'a \<Rightarrow> 'a lstore \<Rightarrow> (bool \<times> ptr \<times> 'a lstore) option" where
  "dbus_list_append lst d s = do {
     (ok, lst, s) \<leftarrow> dbus_list_prepend lst d s;
     if \<not> ok then Some (False, lst, s)
     else do { n \<leftarrow> load s lst; Some (True, l_next n, s) }
   }"

definition dbus_list_prepend_link :: "ptr \<Rightarrow> ptr \<Rightarrow> 'a lstore \<Rightarrow> (ptr \<times> 'a lstore) option" where
  "dbus_list_prepend_link lst l s = link_before lst lst l s"

definition dbus_list_append_link :: "ptr \<Rightarrow> ptr \<Rightarrow> 'a lstore \<Rightarrow> (ptr \<times> 'a lstore) option" where
  "dbus_list_append_link lst l s = do {
     (lst, s) \<leftarrow> dbus_list_prepend_link lst l s;
     n \<leftarrow> load s lst;
     Some (l_next n, s)
   }"

definition dbus_list_insert_before ::
    "ptr \<Rightarrow> ptr \<Rightarrow> 'a \<Rightarrow> 'a lstore \<Rightarrow> (bool \<times> ptr \<times> 'a lstore) option" where
  "dbus_list_insert_before lst b d s =
     (if b = None then dbus_list_append lst d s
      else let (l, s) = alloc_link d s in
        if l = None then Some (False, lst, s)
        else do { (lst, s) \<leftarrow> link_before lst b l s; Some (True, lst, s) })"

definition dbus_list_insert_after ::
    "ptr \<Rightarrow> ptr \<Rightarrow> 'a \<Rightarrow> 'a lstore \<Rightarrow> (bool \<times> ptr \<times> 'a lstore) option" where
  "dbus_list_insert_after lst a d s =
     (if a = None then dbus_list_prepend lst d s
      else let (l, s) = alloc_link d s in
        if l = None then Some (False, lst, s)
        else do { (lst, s) \<leftarrow> link_after lst a l s; Some (True, lst, s) })"

definition dbus_list_insert_before_link ::
    "ptr \<Rightarrow> ptr \<Rightarrow> ptr \<Rightarrow> 'a lstore \<Rightarrow> (ptr \<times> 'a lstore) option" where
  "dbus_list_insert_before_link lst b l s =
     (if b = None then dbus_list_append_link lst l s else link_before lst b l s)"

definition dbus_list_insert_after_link ::
    "ptr \<Rightarrow> ptr \<Rightarrow> ptr \<Rightarrow> 'a lstore \<Rightarrow> (ptr \<times> 'a lstore) option" where
  "dbus_list_insert_after_link lst a l s =
     (if a = None then dbus_list_prepend_link lst l s else link_after lst a l s)"

section \<open>Walking\<close>

text \<open>The two macros of \<^verbatim>\<open>dbus-list.h\<close>.\<close>

definition dbus_list_get_next_link :: "ptr \<Rightarrow> ptr \<Rightarrow> 'a lstore \<Rightarrow> ptr option" where
  "dbus_list_get_next_link lst l s = do {
     n \<leftarrow> load s l;
     Some (if l_next n = lst then None else l_next n)
   }"

definition dbus_list_get_prev_link :: "ptr \<Rightarrow> ptr \<Rightarrow> 'a lstore \<Rightarrow> ptr option" where
  "dbus_list_get_prev_link lst l s =
     (if l = lst then Some None else do { n \<leftarrow> load s l; Some (l_prev n) })"

definition dbus_list_get_first_link :: "ptr \<Rightarrow> ptr" where
  "dbus_list_get_first_link lst = lst"

definition dbus_list_get_last_link :: "ptr \<Rightarrow> 'a lstore \<Rightarrow> ptr option" where
  "dbus_list_get_last_link lst s =
     (if lst = None then Some None else do { n \<leftarrow> load s lst; Some (l_prev n) })"

definition dbus_list_get_last :: "ptr \<Rightarrow> 'a lstore \<Rightarrow> 'a option option" where
  "dbus_list_get_last lst s =
     (if lst = None then Some None
      else do { n \<leftarrow> load s lst; m \<leftarrow> load s (l_prev n); Some (Some (l_data m)) })"

definition dbus_list_get_first :: "ptr \<Rightarrow> 'a lstore \<Rightarrow> 'a option option" where
  "dbus_list_get_first lst s =
     (if lst = None then Some None
      else do { n \<leftarrow> load s lst; Some (Some (l_data n)) })"

section \<open>Unlinking and removal\<close>

definition dbus_list_unlink :: "ptr \<Rightarrow> ptr \<Rightarrow> 'a lstore \<Rightarrow> (ptr \<times> 'a lstore) option" where
  "dbus_list_unlink lst l s = do {
     n \<leftarrow> load s l;
     (lst, s) \<leftarrow>
       (if l_next n = l then Some (None, s)
        else do {
          s \<leftarrow> set_next (l_prev n) (l_next n) s;
          n \<leftarrow> load s l;
          s \<leftarrow> set_prev (l_next n) (l_prev n) s;
          n \<leftarrow> load s l;
          Some (if lst = l then l_next n else lst, s)
        });
     s \<leftarrow> set_next l None s;
     s \<leftarrow> set_prev l None s;
     Some (lst, s)
   }"

definition dbus_list_remove_link :: "ptr \<Rightarrow> ptr \<Rightarrow> 'a lstore \<Rightarrow> (ptr \<times> 'a lstore) option" where
  "dbus_list_remove_link lst l s = do {
     (lst, s) \<leftarrow> dbus_list_unlink lst l s;
     s \<leftarrow> free_link l s;
     Some (lst, s)
   }"

text \<open>The loops; a loop that does not end is \<open>None\<close>.\<close>

partial_function (option) remove_loop ::
    "ptr \<Rightarrow> 'a \<Rightarrow> ptr \<Rightarrow> 'a lstore \<Rightarrow> (bool \<times> ptr \<times> 'a lstore) option" where
  [code]: "remove_loop lst d link s =
     (if link = None then Some (False, lst, s)
      else do {
        n \<leftarrow> load s link;
        if l_data n = d
        then do { (lst, s) \<leftarrow> dbus_list_remove_link lst link s; Some (True, lst, s) }
        else do { nx \<leftarrow> dbus_list_get_next_link lst link s; remove_loop lst d nx s }
      })"

definition dbus_list_remove :: "ptr \<Rightarrow> 'a \<Rightarrow> 'a lstore \<Rightarrow> (bool \<times> ptr \<times> 'a lstore) option" where
  "dbus_list_remove lst d s = remove_loop lst d lst s"

partial_function (option) find_last_loop :: "ptr \<Rightarrow> 'a \<Rightarrow> ptr \<Rightarrow> 'a lstore \<Rightarrow> ptr option" where
  [code]: "find_last_loop lst d link s =
     (if link = None then Some None
      else do {
        n \<leftarrow> load s link;
        if l_data n = d then Some link
        else do { pv \<leftarrow> dbus_list_get_prev_link lst link s; find_last_loop lst d pv s }
      })"

definition dbus_list_find_last :: "ptr \<Rightarrow> 'a \<Rightarrow> 'a lstore \<Rightarrow> ptr option" where
  "dbus_list_find_last lst d s = do {
     link \<leftarrow> dbus_list_get_last_link lst s;
     find_last_loop lst d link s
   }"

definition dbus_list_remove_last ::
    "ptr \<Rightarrow> 'a \<Rightarrow> 'a lstore \<Rightarrow> (bool \<times> ptr \<times> 'a lstore) option" where
  "dbus_list_remove_last lst d s = do {
     link \<leftarrow> dbus_list_find_last lst d s;
     if link \<noteq> None
     then do { (lst, s) \<leftarrow> dbus_list_remove_link lst link s; Some (True, lst, s) }
     else Some (False, lst, s)
   }"

partial_function (option) clear_loop :: "ptr \<Rightarrow> ptr \<Rightarrow> 'a lstore \<Rightarrow> 'a lstore option" where
  [code]: "clear_loop lst link s =
     (if link = None then Some s
      else do {
        nx \<leftarrow> dbus_list_get_next_link lst link s;
        s \<leftarrow> free_link link s;
        clear_loop lst nx s
      })"

definition dbus_list_clear :: "ptr \<Rightarrow> 'a lstore \<Rightarrow> (ptr \<times> 'a lstore) option" where
  "dbus_list_clear lst s = do { s \<leftarrow> clear_loop lst lst s; Some (None, s) }"

definition dbus_list_pop_first_link :: "ptr \<Rightarrow> 'a lstore \<Rightarrow> (ptr \<times> ptr \<times> 'a lstore) option" where
  "dbus_list_pop_first_link lst s =
     (let link = dbus_list_get_first_link lst in
      if link = None then Some (None, lst, s)
      else do { (lst, s) \<leftarrow> dbus_list_unlink lst link s; Some (link, lst, s) })"

definition dbus_list_pop_first ::
    "ptr \<Rightarrow> 'a lstore \<Rightarrow> ('a option \<times> ptr \<times> 'a lstore) option" where
  "dbus_list_pop_first lst s =
     (let link = dbus_list_get_first_link lst in
      if link = None then Some (None, lst, s)
      else do {
        n \<leftarrow> load s link;
        (lst, s) \<leftarrow> dbus_list_remove_link lst link s;
        Some (Some (l_data n), lst, s)
      })"

definition dbus_list_pop_last ::
    "ptr \<Rightarrow> 'a lstore \<Rightarrow> ('a option \<times> ptr \<times> 'a lstore) option" where
  "dbus_list_pop_last lst s = do {
     link \<leftarrow> dbus_list_get_last_link lst s;
     if link = None then Some (None, lst, s)
     else do {
       n \<leftarrow> load s link;
       (lst, s) \<leftarrow> dbus_list_remove_link lst link s;
       Some (Some (l_data n), lst, s)
     }
   }"

definition dbus_list_pop_last_link :: "ptr \<Rightarrow> 'a lstore \<Rightarrow> (ptr \<times> ptr \<times> 'a lstore) option" where
  "dbus_list_pop_last_link lst s = do {
     link \<leftarrow> dbus_list_get_last_link lst s;
     if link = None then Some (None, lst, s)
     else do { (lst, s) \<leftarrow> dbus_list_unlink lst link s; Some (link, lst, s) }
   }"

partial_function (option) copy_loop ::
    "ptr \<Rightarrow> ptr \<Rightarrow> ptr \<Rightarrow> 'a lstore \<Rightarrow> (bool \<times> ptr \<times> 'a lstore) option" where
  [code]: "copy_loop lst dest link s =
     (if link = None then Some (True, dest, s)
      else do {
        n \<leftarrow> load s link;
        (ok, dest, s) \<leftarrow> dbus_list_append dest (l_data n) s;
        if \<not> ok
        then do { (dest, s) \<leftarrow> dbus_list_clear dest s; Some (False, dest, s) }
        else do { nx \<leftarrow> dbus_list_get_next_link lst link s; copy_loop lst dest nx s }
      })"

definition dbus_list_copy :: "ptr \<Rightarrow> 'a lstore \<Rightarrow> (bool \<times> ptr \<times> 'a lstore) option" where
  "dbus_list_copy lst s = copy_loop lst None lst s"

partial_function (option) length_loop :: "ptr \<Rightarrow> ptr \<Rightarrow> nat \<Rightarrow> 'a lstore \<Rightarrow> nat option" where
  [code]: "length_loop lst link n s =
     (if link = None then Some n
      else do { nx \<leftarrow> dbus_list_get_next_link lst link s; length_loop lst nx (Suc n) s })"

definition dbus_list_get_length :: "ptr \<Rightarrow> 'a lstore \<Rightarrow> nat option" where
  "dbus_list_get_length lst s = length_loop lst lst 0 s"

text \<open>\<open>foreach\<close> calls back on every element; the calls are recorded as the fold of the
  callback over a caller's state.\<close>

partial_function (option) foreach_loop ::
    "ptr \<Rightarrow> ptr \<Rightarrow> ('a \<Rightarrow> 'u \<Rightarrow> 'u) \<Rightarrow> 'u \<Rightarrow> 'a lstore \<Rightarrow> 'u option" where
  [code]: "foreach_loop lst link f u s =
     (if link = None then Some u
      else do {
        nx \<leftarrow> dbus_list_get_next_link lst link s;
        n \<leftarrow> load s link;
        foreach_loop lst nx f (f (l_data n) u) s
      })"

definition dbus_list_foreach :: "ptr \<Rightarrow> ('a \<Rightarrow> 'u \<Rightarrow> 'u) \<Rightarrow> 'u \<Rightarrow> 'a lstore \<Rightarrow> 'u option" where
  "dbus_list_foreach lst f u s = foreach_loop lst lst f u s"

definition dbus_list_length_is_one :: "ptr \<Rightarrow> 'a lstore \<Rightarrow> bool option" where
  "dbus_list_length_is_one lst s =
     (if lst = None then Some False else do { n \<leftarrow> load s lst; Some (l_next n = lst) })"

section \<open>Well-formed lists\<close>

text \<open>\<open>ring s xs\<close>: the cells at \<open>xs\<close>, in this order, form one cycle of the store. It is
  what the \<open>verify_list\<close> routine of the C file's own tests asserts, for a list of any length.\<close>

definition nx :: "'a lstore \<Rightarrow> addr \<Rightarrow> ptr" where
  "nx s a = (case links s a of None \<Rightarrow> None | Some n \<Rightarrow> l_next n)"

definition pv :: "'a lstore \<Rightarrow> addr \<Rightarrow> ptr" where
  "pv s a = (case links s a of None \<Rightarrow> None | Some n \<Rightarrow> l_prev n)"

definition dat :: "'a lstore \<Rightarrow> addr \<Rightarrow> 'a" where
  "dat s a = l_data (the (links s a))"

fun linked :: "'a lstore \<Rightarrow> addr list \<Rightarrow> bool" where
  "linked s (x # y # zs) \<longleftrightarrow> nx s x = Some y \<and> pv s y = Some x \<and> linked s (y # zs)"
| "linked s _ \<longleftrightarrow> True"

definition ring :: "'a lstore \<Rightarrow> addr list \<Rightarrow> bool" where
  "ring s xs \<longleftrightarrow> distinct xs \<and> set xs \<subseteq> dom (links s) \<and> linked s xs \<and>
     (xs \<noteq> [] \<longrightarrow> nx s (last xs) = Some (hd xs) \<and> pv s (hd xs) = Some (last xs))"

definition head :: "addr list \<Rightarrow> ptr" where
  "head xs = (case xs of [] \<Rightarrow> None | x # _ \<Rightarrow> Some x)"

text \<open>\<open>dlist s lst xs ds\<close>: the list variable \<open>lst\<close> holds the list of links \<open>xs\<close> with data \<open>ds\<close>.\<close>

definition dlist :: "'a lstore \<Rightarrow> ptr \<Rightarrow> addr list \<Rightarrow> 'a list \<Rightarrow> bool" where
  "dlist s lst xs ds \<longleftrightarrow> ring s xs \<and> lst = head xs \<and> ds = map (dat s) xs"

text \<open>The pool counts the live links and is freed with the last one.\<close>

definition store_ok :: "'a lstore \<Rightarrow> bool" where
  "store_ok s \<longleftrightarrow> finite (dom (links s)) \<and> (\<forall>a \<in> dom (links s). a < brk s) \<and>
     pool s = (if dom (links s) = {} then None else Some (card (dom (links s))))"

text \<open>\<open>only A s t\<close>: from \<open>s\<close> to \<open>t\<close> only links at addresses in \<open>A\<close> changed.\<close>

definition only :: "addr set \<Rightarrow> 'a lstore \<Rightarrow> 'a lstore \<Rightarrow> bool" where
  "only A s t \<longleftrightarrow> (\<forall>a. a \<notin> A \<longrightarrow> links t a = links s a)"

text \<open>Pure relinking: same cells, same data, same allocator.\<close>

definition relink :: "addr set \<Rightarrow> 'a lstore \<Rightarrow> 'a lstore \<Rightarrow> bool" where
  "relink A s t \<longleftrightarrow> only A s t \<and> dom (links t) = dom (links s) \<and> (\<forall>a. dat t a = dat s a) \<and>
     brk t = brk s \<and> pool t = pool s \<and> allocs t = allocs s"

lemma load_simps [simp]: "load s None = None" "load s (Some a) = links s a"
  by (simp_all add: load_def)

lemma head_simps [simp]: "head [] = None" "head (x # xs) = Some x"
  by (simp_all add: head_def)

lemma head_eq_None [simp]: "head xs = None \<longleftrightarrow> xs = []" "None = head xs \<longleftrightarrow> xs = []"
  by (cases xs; simp)+

lemma head_append: "head (xs @ ys) = (if xs = [] then head ys else head xs)"
  by (cases xs) auto

lemma linked_append:
  "xs \<noteq> [] \<Longrightarrow> ys \<noteq> [] \<Longrightarrow> linked s (xs @ ys) \<longleftrightarrow>
     linked s xs \<and> linked s ys \<and> nx s (last xs) = Some (hd ys) \<and> pv s (hd ys) = Some (last xs)"
proof (induction xs)
  case (Cons x xs)
  then show ?case by (cases xs; cases ys) auto
qed simp

lemma linked_frame:
  assumes "linked s zs" and "\<forall>a \<in> set (butlast zs). nx t a = nx s a"
    and "\<forall>a \<in> set (tl zs). pv t a = pv s a"
  shows "linked t zs"
  using assms by (induction s zs rule: linked.induct) auto

lemma ring_rotate: "ring s (as @ bs) \<longleftrightarrow> ring s (bs @ as)"
proof (cases "as = [] \<or> bs = []")
  case False
  then show ?thesis by (auto simp: ring_def linked_append)
qed auto

lemma ring_Nil [simp]: "ring s []"
  by (simp add: ring_def)

lemma ring_dom: "ring s xs \<Longrightarrow> a \<in> set xs \<Longrightarrow> \<exists>n. links s a = Some n"
  by (auto simp: ring_def)

lemma ring_frame:
  assumes "ring s xs" and "only A s t" and "set xs \<inter> A = {}"
  shows "ring t xs"
proof -
  have eq: "\<forall>a \<in> set xs. links t a = links s a" using assms(2,3) by (auto simp: only_def)
  have "linked t xs"
  proof (rule linked_frame [of s])
    show "linked s xs" using assms(1) by (simp add: ring_def)
    show "\<forall>a\<in>set (butlast xs). nx t a = nx s a" using eq by (auto simp: nx_def dest: in_set_butlastD)
    show "\<forall>a\<in>set (tl xs). pv t a = pv s a" using eq by (cases xs) (auto simp: pv_def)
  qed
  moreover have "xs \<noteq> [] \<Longrightarrow> nx t (last xs) = nx s (last xs) \<and> pv t (hd xs) = pv s (hd xs)"
    using eq by (simp add: nx_def pv_def)
  moreover have "set xs \<subseteq> dom (links t)" using assms(1) eq by (force simp: ring_def)
  ultimately show ?thesis using assms(1) by (auto simp: ring_def)
qed

lemma dlist_frame:
  assumes "dlist s lst xs ds" and "only A s t" and "set xs \<inter> A = {}"
  shows "dlist t lst xs ds"
proof -
  have "\<forall>a \<in> set xs. dat t a = dat s a" using assms(2,3) by (auto simp: only_def dat_def)
  with assms show ?thesis by (auto simp: dlist_def ring_frame)
qed

lemma relink_store_ok: "relink A s t \<Longrightarrow> store_ok s \<Longrightarrow> store_ok t"
  by (simp add: relink_def store_ok_def)

lemma relink_map:
  assumes "\<forall>a. a \<notin> A \<longrightarrow> m a = links s a"
    and "\<forall>a. map_option l_data (m a) = map_option l_data (links s a)"
  shows "relink A s (s\<lparr>links := m\<rparr>)"
proof -
  have "m a = None \<longleftrightarrow> links s a = None" for a using assms(2) by (metis map_option_is_None)
  moreover have "l_data (the (m a)) = l_data (the (links s a))" for a
    using assms(2) [rule_format, of a] calculation [of a] by (cases "m a"; cases "links s a") auto
  ultimately show ?thesis using assms(1) by (auto simp: relink_def only_def dat_def dom_def)
qed

lemma only_trans: "only A s t \<Longrightarrow> only B t u \<Longrightarrow> only (A \<union> B) s u"
  by (simp add: only_def)

lemma only_mono: "only A s t \<Longrightarrow> A \<subseteq> B \<Longrightarrow> only B s t"
  by (auto simp: only_def)

subsection \<open>The assignments\<close>

lemma set_prev_Some: "links s a = Some n \<Longrightarrow>
    set_prev (Some a) q s = Some (s\<lparr>links := (links s)(a \<mapsto> n\<lparr>l_prev := q\<rparr>)\<rparr>)"
  by (simp add: set_prev_def)

lemma set_next_Some: "links s a = Some n \<Longrightarrow>
    set_next (Some a) q s = Some (s\<lparr>links := (links s)(a \<mapsto> n\<lparr>l_next := q\<rparr>)\<rparr>)"
  by (simp add: set_next_def)

lemma nx_upd [simp]: "nx (s\<lparr>links := m\<rparr>) a = (case m a of None \<Rightarrow> None | Some n \<Rightarrow> l_next n)"
  by (simp add: nx_def)

lemma pv_upd [simp]: "pv (s\<lparr>links := m\<rparr>) a = (case m a of None \<Rightarrow> None | Some n \<Rightarrow> l_prev n)"
  by (simp add: pv_def)

lemma nx_Some: "links s a = Some n \<Longrightarrow> nx s a = l_next n" by (simp add: nx_def)
lemma pv_Some: "links s a = Some n \<Longrightarrow> pv s a = l_prev n" by (simp add: pv_def)

text \<open>The effect of linking a fresh cell into a ring, seen from its successor.\<close>

lemma ring_link:
  assumes r: "ring s (b # ys)" and l: "l \<notin> set (b # ys)" "links t l \<noteq> None"
    and d: "dom (links s) \<subseteq> dom (links t)"
    and n: "nx t l = Some b" "nx t (last (b # ys)) = Some l"
    and p: "pv t b = Some l" "pv t l = Some (last (b # ys))"
    and fn: "\<forall>a \<in> set (butlast (b # ys)). nx t a = nx s a"
    and fp: "\<forall>a \<in> set ys. pv t a = pv s a"
  shows "ring t (l # b # ys)"
proof -
  have "linked s (b # ys)" using r by (simp add: ring_def)
  then have "linked t (b # ys)" by (rule linked_frame [OF _ fn]) (simp add: fp)
  moreover have "set (b # ys) \<subseteq> dom (links s)" using r by (simp only: ring_def)
  then have "set (b # ys) \<subseteq> dom (links t)" using d by (rule subset_trans)
  then have "set (l # b # ys) \<subseteq> dom (links t)" using l(2) by auto
  moreover have "last (l # b # ys) = last (b # ys)" by simp
  ultimately show ?thesis
    using r l(1) n p unfolding ring_def linked.simps list.sel by (simp only: distinct.simps) simp
qed

text \<open>Taking the first cell out of a ring.\<close>

lemma ring_unlink:
  assumes r: "ring s (l # y # ys)" and d: "set (y # ys) \<subseteq> dom (links t)"
    and n: "nx t (last (y # ys)) = Some y" and p: "pv t y = Some (last (y # ys))"
    and fn: "\<forall>a \<in> set (butlast (y # ys)). nx t a = nx s a"
    and fp: "\<forall>a \<in> set ys. pv t a = pv s a"
  shows "ring t (y # ys)"
proof -
  have "linked s (y # ys)" using r by (simp add: ring_def)
  then have "linked t (y # ys)" by (rule linked_frame [OF _ fn]) (simp add: fp)
  then show ?thesis using r d n p unfolding ring_def list.sel by (simp only: distinct.simps) simp
qed

lemma ring_ends:
  assumes "ring s (b # ys)"
  shows "pv s b = Some (last (b # ys))" "nx s (last (b # ys)) = Some b"
  using assms by (simp_all add: ring_def)

lemma ring_butlast:
  assumes "ring s xs" "a \<in> set (butlast xs)"
  shows "a \<noteq> last xs" "a \<in> set xs"
proof -
  have "xs = butlast xs @ [last xs]" using assms(2) by (cases xs) auto
  moreover have "distinct xs" using assms(1) by (simp add: ring_def)
  ultimately have "distinct (butlast xs @ [last xs])" by simp
  then show "a \<noteq> last xs" using assms(2) by auto
  show "a \<in> set xs" using assms(2) by (rule in_set_butlastD)
qed

lemma ring_next: "ring s (a # b # ys) \<Longrightarrow> nx s a = Some b \<and> pv s b = Some a"
  by (simp add: ring_def)

lemma link_before_empty:
  assumes "links s l = Some n"
  obtains t where "link_before None b (Some l) s = Some (Some l, t)" "ring t [l]" "relink {l} s t"
proof -
  have "ring (s\<lparr>links := (links s)(l \<mapsto> n\<lparr>l_prev := Some l, l_next := Some l\<rparr>)\<rparr>) [l]"
    by (simp add: ring_def)
  moreover have "relink {l} s (s\<lparr>links := (links s)(l \<mapsto> n\<lparr>l_prev := Some l, l_next := Some l\<rparr>)\<rparr>)"
    using assms by (intro relink_map) auto
  ultimately show thesis
    using that assms by (simp add: link_before_def set_prev_Some set_next_Some)
qed

lemma link_before_ring:
  assumes r: "ring s (b # ys)" and l: "l \<notin> set (b # ys)" "links s l = Some n"
  obtains t where "link_before (Some h) (Some b) (Some l) s = Some (Some (if b = h then l else h), t)"
    "ring t (l # b # ys)" "relink (insert l (set (b # ys))) s t"
proof -
  let ?z = "last (b # ys)"
  obtain nb nz where nb: "links s b = Some nb" and nz: "links s ?z = Some nz"
    using ring_dom [OF r] by (metis last_in_set list.distinct(1) list.set_intros(1))
  have pb: "l_prev nb = Some ?z" using ring_ends(1) [OF r] nb by (simp add: pv_def)
  have lz: "l \<noteq> ?z" "l \<noteq> b" using l(1) last_in_set [of "b # ys"] by (auto simp del: last.simps)
  let ?m = "(links s)(l \<mapsto> n\<lparr>l_next := Some b, l_prev := Some ?z\<rparr>, b \<mapsto> nb\<lparr>l_prev := Some l\<rparr>)"
  let ?t = "s\<lparr>links := ?m(?z \<mapsto> (the (?m ?z))\<lparr>l_next := Some l\<rparr>)\<rparr>"
  have z: "?m ?z = Some (if ?z = b then nb\<lparr>l_prev := Some l\<rparr> else nz)" using lz nz by auto
  have run: "link_before (Some h) (Some b) (Some l) s = Some (Some (if b = h then l else h), ?t)"
    using l lz nb nz pb by (simp add: link_before_def set_next_def set_prev_def del: last.simps)
  have inz: "?z \<in> set (b # ys)" by (rule last_in_set) simp
  have rt: "ring ?t (l # b # ys)"
  proof (rule ring_link [OF r l(1)])
    show "\<forall>a\<in>set (butlast (b # ys)). nx ?t a = nx s a"
    proof
      fix a assume "a \<in> set (butlast (b # ys))"
      from ring_butlast [OF r this] have "a \<noteq> ?z" "a \<in> set (b # ys)" .
      then show "nx ?t a = nx s a" using l(1) nb by (auto simp: nx_def simp del: last.simps)
    qed
    show "\<forall>a\<in>set ys. pv ?t a = pv s a" 
      using r l(1) z nz by (auto simp: pv_def ring_def simp del: last.simps)
  qed (use lz z nb in \<open>auto simp del: last.simps\<close>)
  have "relink (insert l (set (b # ys))) s ?t"
    using inz l nb nz z by (intro relink_map) (auto simp del: last.simps)
  with run rt that show thesis by blast
qed

lemma ring_rotate1: "ring s (a # ys) \<longleftrightarrow> ring s (ys @ [a])"
  using ring_rotate [of s "[a]" ys] by simp

lemma link_after_ring:
  assumes r: "ring s (a # ys)" and l: "l \<notin> set (a # ys)" "links s l = Some n"
  obtains t where "link_after (Some h) (Some a) (Some l) s = Some (Some h, t)"
    "ring t (a # l # ys)" "relink (insert l (set (a # ys))) s t"
proof -
  obtain b bs where b: "ys @ [a] = b # bs" by (cases "ys @ [a]") auto
  have r': "ring s (b # bs)" using r b by (simp add: ring_rotate1)
  have z: "last (b # bs) = a" using b by (metis last_snoc)
  have set_eq: "set (b # bs) = set (a # ys)" using b by (metis list.simps(15) set_append Un_insert_right
        list.set(1) sup_bot_right)
  obtain na nb where na: "links s a = Some na" and nb: "links s b = Some nb"
    using ring_dom [OF r'] set_eq by (metis list.set_intros(1))
  have nxa: "l_next na = Some b" using ring_ends(2) [OF r'] z na by (simp add: nx_def)
  have ne: "l \<noteq> a" "l \<noteq> b" "a \<in> set (b # bs)" using l(1) set_eq by auto
  let ?m = "(links s)(l \<mapsto> n\<lparr>l_prev := Some a, l_next := Some b\<rparr>, a \<mapsto> na\<lparr>l_next := Some l\<rparr>)"
  let ?t = "s\<lparr>links := ?m(b \<mapsto> (the (?m b))\<lparr>l_prev := Some l\<rparr>)\<rparr>"
  have mb: "?m b = Some (if b = a then na\<lparr>l_next := Some l\<rparr> else nb)" using ne nb by auto
  have run: "link_after (Some h) (Some a) (Some l) s = Some (Some h, ?t)"
    using l ne na nb nxa by (simp add: link_after_def set_next_def set_prev_def)
  have "ring ?t (l # b # bs)"
  proof (rule ring_link [OF r'])
    show "l \<notin> set (b # bs)" using l(1) set_eq by simp
    show "\<forall>x\<in>set (butlast (b # bs)). nx ?t x = nx s x"
    proof
      fix x assume "x \<in> set (butlast (b # bs))"
      from ring_butlast [OF r' this] have "x \<noteq> a" "x \<in> set (b # bs)" unfolding z .
      then show "nx ?t x = nx s x" using l(1) set_eq nb na by (auto simp: nx_def)
    qed
    show "\<forall>x\<in>set bs. pv ?t x = pv s x"
      using r' l(1) set_eq na by (auto simp: pv_def ring_def)
  qed (use ne mb na nb z in \<open>auto simp del: last.simps\<close>)
  then have "ring ?t ((l # ys) @ [a])" by (simp only: b append_Cons)
  then have "ring ?t (a # l # ys)" by (simp only: ring_rotate1 [of ?t a])
  moreover have "relink (insert l (set (a # ys))) s ?t"
    using ne na nb l mb set_eq by (intro relink_map) (auto simp del: last.simps)
  ultimately show thesis using run that by blast
qed

lemma unlink_ring:
  assumes r: "ring s (l # ys)"
  obtains t where "dbus_list_unlink (Some h) (Some l) s =
      Some (if ys = [] then None else if h = l then head ys else Some h, t)"
    "ring t ys" "relink (set (l # ys)) s t"
proof (cases ys)
  case Nil
  obtain n where n: "links s l = Some n" using ring_dom [OF r] by auto
  moreover have "l_next n = Some l" using r n Nil by (simp add: ring_def nx_def)
  moreover have "relink {l} s (s\<lparr>links := (links s)(l \<mapsto> n\<lparr>l_next := None, l_prev := None\<rparr>)\<rparr>)"
    using n by (intro relink_map) auto
  ultimately show thesis
    using Nil that by (simp add: dbus_list_unlink_def set_next_def set_prev_def)
next
  case (Cons y zs)
  let ?z = "last (y # zs)"
  have r': "ring s (l # y # zs)" using r Cons by simp
  obtain n ny nz where n: "links s l = Some n" and ny: "links s y = Some ny" and nz: "links s ?z = Some nz"
    using ring_dom [OF r'] by (metis last_in_set list.distinct(1) list.set_intros(1,2))
  have nn: "l_next n = Some y" "l_prev n = Some ?z"
    using ring_next [OF r'] ring_ends(1) [OF r'] n by (auto simp: nx_def pv_def)
  have inz: "?z \<in> set (y # zs)" by (rule last_in_set) simp
  have lnotin: "l \<notin> set (y # zs)" using r' by (auto simp: ring_def)
  with inz have ne: "l \<noteq> y" "l \<noteq> ?z" by auto
  let ?m = "(links s)(?z \<mapsto> nz\<lparr>l_next := Some y\<rparr>)"
  let ?m' = "?m(y \<mapsto> (the (?m y))\<lparr>l_prev := Some ?z\<rparr>)"
  let ?t = "s\<lparr>links := ?m'(l \<mapsto> n\<lparr>l_next := None, l_prev := None\<rparr>)\<rparr>"
  have my: "?m y = Some (if y = ?z then nz\<lparr>l_next := Some y\<rparr> else ny)" using ny by auto
  have run: "dbus_list_unlink (Some h) (Some l) s = Some (if h = l then Some y else Some h, ?t)"
    using n ny nz nn ne by (simp add: dbus_list_unlink_def set_next_def set_prev_def del: last.simps)
  have rt: "ring ?t (y # zs)"
  proof (rule ring_unlink [OF r'])
    show "\<forall>a\<in>set (butlast (y # zs)). nx ?t a = nx s a"
    proof
      fix a assume a: "a \<in> set (butlast (y # zs))"
      have "distinct (butlast (y # zs) @ [?z])"
        using r' by (subst append_butlast_last_id) (auto simp: ring_def)
      with a have "a \<noteq> ?z" by auto
      moreover have "a \<in> set (y # zs)" using a by (rule in_set_butlastD)
      ultimately show "nx ?t a = nx s a" using lnotin ny by (auto simp: nx_def simp del: last.simps)
    qed
    show "\<forall>a\<in>set zs. pv ?t a = pv s a"
      using r' lnotin nz by (auto simp: pv_def ring_def simp del: last.simps)
    show "set (y # zs) \<subseteq> dom (links ?t)" using r' by (auto simp: ring_def)
  qed (use ne my nz inz in \<open>auto simp del: last.simps\<close>)
  have "relink (set (l # ys)) s ?t"
    using inz n ny nz my Cons by (intro relink_map) (auto simp del: last.simps)
  with run rt that Cons show thesis by simp
qed

subsection \<open>Operations at any position of a list\<close>

lemma dlist_ring: "dlist s lst xs ds \<Longrightarrow> ring s xs"
  by (simp add: dlist_def)

lemma dlist_head: "dlist s lst xs ds \<Longrightarrow> lst = head xs"
  by (simp add: dlist_def)

lemma dlist_empty [simp]: "dlist s None [] []"
  by (simp add: dlist_def)

lemma dlist_None: "dlist s None xs ds \<longleftrightarrow> xs = [] \<and> ds = []"
  by (auto simp: dlist_def)

lemma dlist_cell:
  assumes "dlist s lst (as @ a # bs) ds"
  obtains n where "links s a = Some n" "l_data n = dat s a"
  using ring_dom [OF dlist_ring [OF assms], of a] by (auto simp: dat_def)

lemma relink_dlist:
  assumes "ring t ys" "relink A s t"
  shows "dlist t (head ys) ys (map (dat s) ys)"
  using assms by (simp add: dlist_def relink_def)

lemma link_before_dlist:
  assumes d: "dlist s lst (as @ bs) ds" and l: "l \<notin> set (as @ bs)" "links s l = Some n"
    and b: "b = head bs" "bs = [] \<longrightarrow> as = []"
  obtains t where "link_before lst b (Some l) s = Some (head (as @ l # bs), t)"
    "dlist t (head (as @ l # bs)) (as @ l # bs) (map (dat s) (as @ l # bs))"
    "relink (insert l (set (as @ bs))) s t"
proof (cases bs)
  case Nil
  with b d have "as = []" "lst = None" by (auto simp: dlist_def)
  with link_before_empty [OF l(2)] Nil that relink_dlist show thesis
    by (metis append_Nil head_simps(2) list.set(1))
next
  case (Cons c cs)
  let ?h = "the (head (as @ c # cs))"
  have h: "lst = Some ?h" using d Cons by (cases as) (auto simp: dlist_def)
  have "ring s (c # cs @ as)" using dlist_ring [OF d] Cons by (simp add: ring_rotate [of s as])
  from link_before_ring [OF this _ l(2), of ?h] l(1) Cons obtain t where
    t: "link_before (Some ?h) (Some c) (Some l) s = Some (Some (if c = ?h then l else ?h), t)"
      "ring t (l # c # cs @ as)" "relink (insert l (set (c # cs @ as))) s t"
    by auto
  have "ring t (as @ l # bs)" using t(2) Cons by (simp add: ring_rotate [of t as])
  moreover have "Some (if c = ?h then l else ?h) = head (as @ l # bs)"
    using dlist_ring [OF d] Cons by (cases as) (auto simp: ring_def)
  moreover have "set (c # cs @ as) = set (as @ bs)" using Cons by auto
  ultimately show thesis using t h b Cons relink_dlist that by (metis head_simps(2))
qed

lemma link_after_dlist:
  assumes d: "dlist s lst (as @ a # bs) ds" and l: "l \<notin> set (as @ a # bs)" "links s l = Some n"
  obtains t where "link_after lst (Some a) (Some l) s = Some (lst, t)"
    "dlist t lst (as @ a # l # bs) (map (dat s) (as @ a # l # bs))"
    "relink (insert l (set (as @ a # bs))) s t"
proof -
  let ?h = "the (head (as @ a # bs))"
  have h: "lst = Some ?h" using d by (cases as) (auto simp: dlist_def)
  have "ring s (a # bs @ as)" using dlist_ring [OF d] by (simp add: ring_rotate [of s as])
  from link_after_ring [OF this _ l(2), of ?h] l(1) obtain t where
    t: "link_after (Some ?h) (Some a) (Some l) s = Some (Some ?h, t)"
      "ring t (a # l # bs @ as)" "relink (insert l (set (a # bs @ as))) s t"
    by auto
  have "ring t (as @ a # l # bs)" using t(2) by (simp add: ring_rotate [of t as])
  moreover have "set (a # bs @ as) = set (as @ a # bs)" by auto
  moreover have "lst = head (as @ a # l # bs)" using d by (cases as) (auto simp: dlist_def)
  ultimately show thesis using t h relink_dlist that by metis
qed

lemma unlink_dlist:
  assumes d: "dlist s lst (as @ l # bs) ds"
  obtains t where "dbus_list_unlink lst (Some l) s = Some (head (as @ bs), t)"
    "dlist t (head (as @ bs)) (as @ bs) (map (dat s) (as @ bs))"
    "relink (set (as @ l # bs)) s t"
proof -
  let ?h = "the (head (as @ l # bs))"
  have h: "lst = Some ?h" using d by (cases as) (auto simp: dlist_def)
  have "ring s (l # bs @ as)" using dlist_ring [OF d] by (simp add: ring_rotate [of s as])
  from unlink_ring [OF this, of ?h] obtain t where
    t: "dbus_list_unlink (Some ?h) (Some l) s =
         Some (if bs @ as = [] then None else if ?h = l then head (bs @ as) else Some ?h, t)"
      "ring t (bs @ as)" "relink (set (l # bs @ as)) s t"
    by auto
  have e: "(if bs @ as = [] then None else if ?h = l then head (bs @ as) else Some ?h) = head (as @ bs)"
    using dlist_ring [OF d] by (cases as) (auto simp: ring_def head_append)
  have s: "set (l # bs @ as) = set (as @ l # bs)" by auto
  have r: "ring t (as @ bs)" using t(2) by (simp add: ring_rotate [of t as])
  show thesis
  proof (rule that)
    show "dbus_list_unlink lst (Some l) s = Some (head (as @ bs), t)"
      by (subst h, subst t(1), simp only: e)
    show "relink (set (as @ l # bs)) s t" using t(3) by (simp only: s)
    show "dlist t (head (as @ bs)) (as @ bs) (map (dat s) (as @ bs))"
      using r t(3) by (rule relink_dlist)
  qed
qed

subsection \<open>Allocation\<close>

text \<open>\<open>fresh_cell d s t\<close>: one new cell at the break; \<open>same_cells\<close>: nothing happened but the
  consumption of the allocation script.\<close>

definition same_cells :: "'a lstore \<Rightarrow> 'a lstore \<Rightarrow> bool" where
  "same_cells s t \<longleftrightarrow> links t = links s \<and> brk t = brk s \<and> pool t = pool s"

definition fresh_cell :: "'a \<Rightarrow> 'a lstore \<Rightarrow> 'a lstore \<Rightarrow> bool" where
  "fresh_cell d s t \<longleftrightarrow> links s (brk s) = None \<and> brk t = Suc (brk s) \<and>
     links t = (links s)(brk s \<mapsto> \<lparr>l_prev = None, l_next = None, l_data = d\<rparr>)"

lemma store_ok_fresh: "store_ok s \<Longrightarrow> links s (brk s) = None"
  by (auto simp: store_ok_def)

lemma alloc_link_spec:
  assumes ok: "store_ok s" and al: "alloc_link d s = (p, t)"
  shows "store_ok t" and "p = None \<and> same_cells s t \<or> p = Some (brk s) \<and> fresh_cell d s t"
proof -
  have "store_ok (new_cell d (case pool s of None \<Rightarrow> 1 | Some n \<Rightarrow> Suc n) r s)" for r
    using ok store_ok_fresh [OF ok]
    by (auto simp: store_ok_def new_cell_def less_Suc_eq card_insert_if split: option.splits if_splits)
  moreover have "store_ok (s\<lparr>allocs := r\<rparr>)" for r using ok by (simp add: store_ok_def)
  ultimately show "store_ok t"
    using al by (force simp: alloc_link_def split: option.splits prod.splits if_splits)
  show "p = None \<and> same_cells s t \<or> p = Some (brk s) \<and> fresh_cell d s t"
    using al store_ok_fresh [OF ok]
    by (auto simp: alloc_link_def same_cells_def fresh_cell_def new_cell_def
        split: option.splits prod.splits if_splits)
qed

lemma fresh_cell_only: "fresh_cell d s t \<Longrightarrow> only {brk s} s t"
  by (simp add: fresh_cell_def only_def)

lemma same_cells_only: "same_cells s t \<Longrightarrow> only A s t"
  by (simp add: same_cells_def only_def)

lemma dlist_not_fresh: "dlist s lst xs ds \<Longrightarrow> store_ok s \<Longrightarrow> brk s \<notin> set xs"
  using store_ok_fresh ring_dom dlist_ring by fastforce

lemma free_link_spec:
  assumes ok: "store_ok s" and l: "links s l = Some n"
  obtains t where "free_link (Some l) s = Some t" "store_ok t" "links t = (links s)(l := None)"
    "brk t = brk s" "allocs t = allocs s"
proof -
  let ?D = "dom (links s)"
  have fin: "finite ?D" and lt: "\<forall>a \<in> ?D. a < brk s" using ok by (simp_all add: store_ok_def)
  have c: "card (?D - {l}) = card ?D - 1" using l by (simp add: card_Diff_singleton domI)
  then have "?D - {l} = {} \<longleftrightarrow> card ?D - 1 = 0" using fin by (metis card_0_eq finite_Diff)
  then have "store_ok (s\<lparr>links := (links s)(l := None),
      pool := if card ?D - 1 = 0 then None else Some (card ?D - 1)\<rparr>)"
    using fin lt c unfolding store_ok_def by (simp del: Diff_eq_empty_iff)
  moreover have "pool s = Some (card (dom (links s)))" using ok l by (auto simp: store_ok_def)
  ultimately show thesis using l that by (simp add: free_link_def)
qed

subsection \<open>Adding elements\<close>

text \<open>The outcome \<open>(ok, lst', t)\<close> of an operation that allocates one link for \<open>lst\<close>: on success
  the list has links \<open>ys\<close> and data \<open>es\<close>; on failure nothing changed. In both cases no cell outside
  the list was touched.\<close>

definition added ::
    "'a lstore \<Rightarrow> ptr \<Rightarrow> addr list \<Rightarrow> addr list \<Rightarrow> 'a list \<Rightarrow> bool \<times> ptr \<times> 'a lstore \<Rightarrow> bool" where
  "added s lst xs ys es r \<longleftrightarrow> (case r of (ok, lst', t) \<Rightarrow>
     store_ok t \<and> only (insert (brk s) (set xs)) s t \<and>
     (if ok then brk t = Suc (brk s) \<and> dlist t lst' ys es else lst' = lst \<and> same_cells s t))"

lemma fresh_cell_dlist:
  assumes "dlist s lst xs ds" "store_ok s" "fresh_cell d s t"
  shows "dlist t lst xs ds"
  using dlist_frame [OF assms(1) fresh_cell_only [OF assms(3)]] dlist_not_fresh [OF assms(1,2)] by simp

lemma fresh_cell_dat: "fresh_cell d s t \<Longrightarrow> dat t (brk s) = d"
  by (simp add: fresh_cell_def dat_def)

lemma added_linked:
  assumes d: "dlist s lst xs ds" and fc: "fresh_cell e s t" and ok: "store_ok t"
    and u: "relink (insert (brk s) (set xs)) t u" and dl: "dlist u lst' ys es"
  shows "added s lst xs ys es (True, lst', u)"
proof -
  have "only (insert (brk s) (set xs)) s u"
    using u fresh_cell_only [OF fc] by (auto simp: relink_def only_def)
  moreover have "brk u = Suc (brk s)" using u fc by (simp add: relink_def fresh_cell_def)
  ultimately show ?thesis using relink_store_ok [OF u ok] dl by (simp add: added_def)
qed

lemma dlist_data: "dlist s lst xs ds \<Longrightarrow> map (dat s) xs = ds"
  by (simp add: dlist_def)

text \<open>One lemma for all insertions in front of a position.\<close>

lemma alloc_before:
  assumes d: "dlist s lst (as @ bs) (ds @ es)" and ln: "length ds = length as" and ok: "store_ok s"
    and b: "b = head bs" "bs = [] \<longrightarrow> as = []"
  shows "\<exists>r. (let (l, t) = alloc_link e s in
            if l = None then Some (False, lst, t)
            else do { (lst, t) \<leftarrow> link_before lst b l t; Some (True, lst, t) }) = Some r \<and>
          added s lst (as @ bs) (as @ brk s # bs) (ds @ e # es) r \<and>
          (fst r \<longrightarrow> fst (snd r) = head (as @ brk s # bs))"
proof (cases "alloc_link e s")
  case (Pair p t)
  from alloc_link_spec [OF ok Pair] have t: "store_ok t"
    and "p = None \<and> same_cells s t \<or> p = Some (brk s) \<and> fresh_cell e s t" .
  from this(2) show ?thesis
  proof (elim disjE conjE)
    assume "p = None" "same_cells s t"
    then show ?thesis using Pair t by (simp add: added_def same_cells_only)
  next
    assume p: "p = Some (brk s)" and fc: "fresh_cell e s t"
    note dt = fresh_cell_dlist [OF d ok fc]
    have nf: "brk s \<notin> set (as @ bs)" using dlist_not_fresh [OF d ok] .
    obtain n where n: "links t (brk s) = Some n" using fc by (simp add: fresh_cell_def)
    obtain u where u: "link_before lst b (Some (brk s)) t = Some (head (as @ brk s # bs), u)"
      "dlist u (head (as @ brk s # bs)) (as @ brk s # bs) (map (dat t) (as @ brk s # bs))"
      "relink (insert (brk s) (set (as @ bs))) t u"
      using link_before_dlist [OF dt nf n b] by blast
    have "map (dat t) (as @ brk s # bs) = ds @ e # es"
      using dlist_data [OF dt] ln fresh_cell_dat [OF fc] by (simp add: append_eq_append_conv)
    then have "added s lst (as @ bs) (as @ brk s # bs) (ds @ e # es) (True, head (as @ brk s # bs), u)"
      using added_linked [OF d fc t u(3)] u(2) by simp
    then show ?thesis using Pair p u(1) by simp
  qed
qed

lemma alloc_after:
  assumes d: "dlist s lst (as @ a # bs) (ds @ x # es)" and ln: "length ds = length as" and ok: "store_ok s"
  shows "\<exists>r. (let (l, t) = alloc_link e s in
            if l = None then Some (False, lst, t)
            else do { (lst, t) \<leftarrow> link_after lst (Some a) l t; Some (True, lst, t) }) = Some r \<and>
          added s lst (as @ a # bs) (as @ a # brk s # bs) (ds @ x # e # es) r"
proof (cases "alloc_link e s")
  case (Pair p t)
  from alloc_link_spec [OF ok Pair] have t: "store_ok t"
    and "p = None \<and> same_cells s t \<or> p = Some (brk s) \<and> fresh_cell e s t" .
  from this(2) show ?thesis
  proof (elim disjE conjE)
    assume "p = None" "same_cells s t"
    then show ?thesis using Pair t by (simp add: added_def same_cells_only)
  next
    assume p: "p = Some (brk s)" and fc: "fresh_cell e s t"
    note dt = fresh_cell_dlist [OF d ok fc]
    have nf: "brk s \<notin> set (as @ a # bs)" using dlist_not_fresh [OF d ok] .
    obtain n where n: "links t (brk s) = Some n" using fc by (simp add: fresh_cell_def)
    obtain u where u: "link_after lst (Some a) (Some (brk s)) t = Some (lst, u)"
      "dlist u lst (as @ a # brk s # bs) (map (dat t) (as @ a # brk s # bs))"
      "relink (insert (brk s) (set (as @ a # bs))) t u"
      using link_after_dlist [OF dt nf n] by blast
    have "map (dat t) (as @ a # brk s # bs) = ds @ x # e # es"
      using dlist_data [OF dt] ln fresh_cell_dat [OF fc] by (simp add: append_eq_append_conv)
    then have "added s lst (as @ a # bs) (as @ a # brk s # bs) (ds @ x # e # es) (True, lst, u)"
      using added_linked [OF d fc t u(3)] u(2) by simp
    then show ?thesis using Pair p u(1) by simp
  qed
qed

lemma prepend_spec:
  assumes "dlist s lst xs ds" "store_ok s"
  shows "\<exists>r. dbus_list_prepend lst d s = Some r \<and> added s lst xs (brk s # xs) (d # ds) r"
  using alloc_before [of s lst "[]" xs "[]" ds lst d] assms
  by (auto simp: dbus_list_prepend_def dlist_def)

lemma rotate_head:
  assumes "dlist t lst (x # xs) (d # ds)"
  obtains n where "load t lst = Some n" "dlist t (l_next n) (xs @ [x]) (ds @ [d])"
proof -
  have r: "ring t (x # xs)" using assms by (rule dlist_ring)
  obtain n where n: "links t x = Some n" using ring_dom [OF r] by auto
  have "l_next n = head (xs @ [x])"
    using r n by (cases xs) (auto simp: ring_def nx_def)
  moreover have "dlist t (head (xs @ [x])) (xs @ [x]) (ds @ [d])"
    using assms r by (auto simp: dlist_def ring_rotate1)
  ultimately show thesis using n assms that by (simp add: dlist_def)
qed

lemma append_spec:
  assumes "dlist s lst xs ds" "store_ok s"
  shows "\<exists>r. dbus_list_append lst d s = Some r \<and> added s lst xs (xs @ [brk s]) (ds @ [d]) r"
proof -
  obtain ok lst' t where r: "dbus_list_prepend lst d s = Some (ok, lst', t)"
    and a: "added s lst xs (brk s # xs) (d # ds) (ok, lst', t)"
    using prepend_spec [OF assms, of d] by auto
  show ?thesis
  proof (cases ok)
    case True
    with a have dl: "dlist t lst' (brk s # xs) (d # ds)" by (simp add: added_def)
    obtain n where "load t lst' = Some n" "dlist t (l_next n) (xs @ [brk s]) (ds @ [d])"
      by (rule rotate_head [OF dl])
    with a r True show ?thesis by (simp add: dbus_list_append_def added_def)
  next
    case False
    with a r show ?thesis by (simp add: dbus_list_append_def added_def)
  qed
qed

lemma insert_before_spec:
  assumes "dlist s lst (as @ bs) (ds @ es)" "length ds = length as" "store_ok s" "bs \<noteq> []"
  shows "\<exists>r. dbus_list_insert_before lst (head bs) d s = Some r \<and>
    added s lst (as @ bs) (as @ brk s # bs) (ds @ d # es) r"
  using alloc_before [OF assms(1,2,3) refl, of d] assms(4) by (auto simp: dbus_list_insert_before_def)

lemma insert_after_spec:
  assumes "dlist s lst (as @ a # bs) (ds @ x # es)" "length ds = length as" "store_ok s"
  shows "\<exists>r. dbus_list_insert_after lst (Some a) d s = Some r \<and>
    added s lst (as @ a # bs) (as @ a # brk s # bs) (ds @ x # d # es) r"
  using alloc_after [OF assms, of d] by (simp add: dbus_list_insert_after_def)

lemma append_link_spec:
  assumes "dlist s lst xs ds" "l \<notin> set xs" "links s l = Some n"
  obtains t where "dbus_list_append_link lst (Some l) s = Some (head (xs @ [l]), t)"
    "dlist t (head (xs @ [l])) (xs @ [l]) (ds @ [l_data n])" "relink (insert l (set xs)) s t"
proof -
  obtain t where t: "link_before lst lst (Some l) s = Some (Some l, t)"
    "dlist t (Some l) (l # xs) (map (dat s) (l # xs))" "relink (insert l (set xs)) s t"
    using link_before_dlist [of s lst "[]" xs ds l n lst] assms dlist_head [OF assms(1)] by auto
  from t(2) have "dlist t (Some l) (l # xs) (l_data n # ds)"
    using assms dlist_data [OF assms(1)] by (simp add: dat_def)
  then obtain m where m: "load t (Some l) = Some m" "dlist t (l_next m) (xs @ [l]) (ds @ [l_data n])"
    by (rule rotate_head)
  with t(1,3) that show thesis
    by (simp add: dbus_list_append_link_def dbus_list_prepend_link_def dlist_def)
qed

lemma insert_before_link_spec:
  assumes d: "dlist s lst (as @ bs) (ds @ es)" and ln: "length ds = length as"
    and l: "l \<notin> set (as @ bs)" "links s l = Some n"
  obtains t where "dbus_list_insert_before_link lst (head bs) (Some l) s = Some (head (as @ l # bs), t)"
    "dlist t (head (as @ l # bs)) (as @ l # bs) (ds @ l_data n # es)"
    "relink (insert l (set (as @ bs))) s t"
proof (cases "bs = []")
  case True
  have "length (ds @ es) = length as" using True dlist_data [OF d] by (metis append_Nil2 length_map)
  with ln have e: "es = []" by simp
  from d l True have "dlist s lst as (ds @ es)" "l \<notin> set as" by auto
  then obtain t where "dbus_list_append_link lst (Some l) s = Some (head (as @ [l]), t)"
      "dlist t (head (as @ [l])) (as @ [l]) ((ds @ es) @ [l_data n])" "relink (insert l (set as)) s t"
    using append_link_spec l(2) by metis
  with e True that show thesis by (simp add: dbus_list_insert_before_link_def)
next
  case False
  obtain t where t: "link_before lst (head bs) (Some l) s = Some (head (as @ l # bs), t)"
    "dlist t (head (as @ l # bs)) (as @ l # bs) (map (dat s) (as @ l # bs))"
    "relink (insert l (set (as @ bs))) s t"
    using link_before_dlist [OF d l] False by auto
  have "map (dat s) (as @ l # bs) = ds @ l_data n # es"
    using dlist_data [OF d] ln l(2) by (simp add: append_eq_append_conv dat_def)
  with t False that show thesis by (simp add: dbus_list_insert_before_link_def)
qed

lemma insert_after_link_spec:
  assumes d: "dlist s lst (as @ a # bs) (ds @ x # es)" and ln: "length ds = length as"
    and l: "l \<notin> set (as @ a # bs)" "links s l = Some n"
  obtains t where "dbus_list_insert_after_link lst (Some a) (Some l) s = Some (lst, t)"
    "dlist t lst (as @ a # l # bs) (ds @ x # l_data n # es)"
    "relink (insert l (set (as @ a # bs))) s t"
proof -
  obtain t where t: "link_after lst (Some a) (Some l) s = Some (lst, t)"
    "dlist t lst (as @ a # l # bs) (map (dat s) (as @ a # l # bs))"
    "relink (insert l (set (as @ a # bs))) s t"
    using link_after_dlist [OF d l] by blast
  have "map (dat s) (as @ a # l # bs) = ds @ x # l_data n # es"
    using dlist_data [OF d] ln l(2) by (simp add: append_eq_append_conv dat_def)
  with t that show thesis by (simp add: dbus_list_insert_after_link_def)
qed

subsection \<open>Walking\<close>

lemma ring_pred: "ring s (ys @ y # a # bs) \<Longrightarrow> nx s y = Some a \<and> pv s a = Some y"
  using linked_append [of "ys @ [y]" "a # bs" s] by (simp add: ring_def)

lemma next_link:
  assumes "dlist s lst (as @ a # bs) ds"
  shows "dbus_list_get_next_link lst (Some a) s = Some (head bs)"
proof -
  have r: "ring s (as @ a # bs)" and lst: "lst = head (as @ a # bs)" using assms by (simp_all add: dlist_def)
  obtain n where n: "links s a = Some n" using dlist_cell [OF assms] by blast
  show ?thesis
  proof (cases bs)
    case Nil
    have "nx s (last (as @ [a])) = Some (hd (as @ [a]))" using r Nil by (simp only: ring_def) simp
    then have "l_next n = lst" using n lst Nil by (cases as) (simp_all add: nx_def)
    then show ?thesis using n Nil by (simp add: dbus_list_get_next_link_def)
  next
    case (Cons b cs)
    have "l_next n = Some b" using ring_pred [of s as a b cs] r n Cons by (simp add: nx_def)
    moreover have "lst \<noteq> Some b" using r lst Cons by (cases as) (auto simp: ring_def)
    ultimately show ?thesis using n Cons by (auto simp: dbus_list_get_next_link_def)
  qed
qed

lemma prev_link:
  assumes "dlist s lst (as @ a # bs) ds"
  shows "dbus_list_get_prev_link lst (Some a) s = Some (head (rev as))"
proof (cases as rule: rev_cases)
  case Nil
  then show ?thesis using assms by (simp add: dbus_list_get_prev_link_def dlist_def)
next
  case (snoc ys y)
  obtain n where n: "links s a = Some n" using dlist_cell [OF assms] by blast
  have r: "ring s (ys @ y # a # bs)" using assms snoc by (simp add: dlist_def)
  have "l_prev n = Some y" using ring_pred [OF r] n by (simp add: pv_def)
  moreover have "lst \<noteq> Some a" using assms r snoc by (cases ys) (auto simp: dlist_def ring_def)
  ultimately show ?thesis using n snoc by (simp add: dbus_list_get_prev_link_def)
qed

lemma last_link:
  assumes "dlist s lst xs ds"
  shows "dbus_list_get_last_link lst s = Some (head (rev xs))"
proof (cases xs)
  case Nil
  with assms show ?thesis by (simp add: dbus_list_get_last_link_def dlist_def)
next
  case (Cons h zs)
  have r: "ring s (h # zs)" using assms Cons by (simp add: dlist_def)
  obtain n where n: "links s h = Some n" using ring_dom [OF r] by auto
  have "l_prev n = Some (last (h # zs))" using ring_ends(1) [OF r] n by (simp add: pv_def)
  moreover have "head (rev (h # zs)) = Some (last (h # zs))"
    by (metis append_butlast_last_id head_simps(2) list.distinct(1) rev_eq_Cons_iff rev_rev_ident)
  ultimately show ?thesis using assms Cons n by (simp add: dbus_list_get_last_link_def dlist_def)
qed

lemma get_first_spec:
  "dlist s lst xs ds \<Longrightarrow> dbus_list_get_first lst s = Some (case ds of [] \<Rightarrow> None | d # _ \<Rightarrow> Some d)"
  by (cases xs) (auto simp: dbus_list_get_first_def dlist_def ring_def dat_def)

lemma get_last_spec:
  assumes "dlist s lst xs ds"
  shows "dbus_list_get_last lst s = Some (if ds = [] then None else Some (last ds))"
proof (cases xs)
  case Nil
  with assms show ?thesis by (simp add: dbus_list_get_last_def dlist_def)
next
  case (Cons h zs)
  have r: "ring s (h # zs)" using assms Cons by (simp add: dlist_def)
  obtain n where n: "links s h = Some n" using ring_dom [OF r] by auto
  obtain m where m: "links s (last (h # zs)) = Some m"
    using ring_dom [OF r, of "last (h # zs)"] last_in_set by blast
  have "l_prev n = Some (last (h # zs))" using ring_ends(1) [OF r] n by (simp add: pv_def)
  moreover have "last ds = dat s (last (h # zs))" using assms Cons
    by (simp add: dlist_def last_map del: list.map last.simps)
  ultimately show ?thesis using assms n m Cons
    by (simp add: dbus_list_get_last_def dlist_def dat_def del: last.simps)
qed

lemma length_is_one_spec:
  assumes "dlist s lst xs ds"
  shows "dbus_list_length_is_one lst s = Some (length ds = 1)"
proof (cases xs)
  case Nil
  with assms show ?thesis by (simp add: dbus_list_length_is_one_def dlist_def)
next
  case (Cons h zs)
  then show ?thesis using assms
    by (cases zs) (auto simp: dbus_list_length_is_one_def dlist_def ring_def nx_def)
qed

lemma length_loop_spec:
  "dlist s lst (as @ bs) ds \<Longrightarrow> length_loop lst (head bs) n s = Some (n + length bs)"
proof (induction bs arbitrary: as n)
  case Nil
  then show ?case by (simp add: length_loop.simps)
next
  case (Cons b bs)
  have "dlist s lst ((as @ [b]) @ bs) ds" using Cons.prems by simp
  from Cons.IH [OF this, of "Suc n"] next_link [OF Cons.prems] show ?case
    by (simp add: length_loop.simps [of lst "Some b"])
qed

lemma get_length_spec: "dlist s lst xs ds \<Longrightarrow> dbus_list_get_length lst s = Some (length ds)"
  using length_loop_spec [of s lst "[]" xs ds 0] by (simp add: dbus_list_get_length_def dlist_def)

lemma foreach_loop_spec:
  "dlist s lst (as @ bs) ds \<Longrightarrow> foreach_loop lst (head bs) f u s = Some (fold f (map (dat s) bs) u)"
proof (induction bs arbitrary: as u)
  case Nil
  then show ?case by (simp add: foreach_loop.simps)
next
  case (Cons b bs)
  have "dlist s lst ((as @ [b]) @ bs) ds" using Cons.prems by simp
  note IH = Cons.IH [OF this]
  obtain n where "links s b = Some n" "l_data n = dat s b" using dlist_cell [OF Cons.prems] by blast
  then show ?case using IH next_link [OF Cons.prems]
    by (simp add: foreach_loop.simps [of lst "Some b"])
qed

lemma foreach_spec: "dlist s lst xs ds \<Longrightarrow> dbus_list_foreach lst f u s = Some (fold f ds u)"
  using foreach_loop_spec [of s lst "[]" xs ds f u] by (simp add: dbus_list_foreach_def dlist_def)

subsection \<open>Removing elements\<close>

text \<open>The outcome of freeing the link \<open>l\<close> of a list with links \<open>xs\<close>: the list is left with
  links \<open>ys\<close> and data \<open>es\<close>, and \<open>l\<close> is gone from the store.\<close>

definition removed ::
    "'a lstore \<Rightarrow> addr \<Rightarrow> addr list \<Rightarrow> addr list \<Rightarrow> 'a list \<Rightarrow> ptr \<Rightarrow> 'a lstore \<Rightarrow> bool" where
  "removed s l xs ys es lst' t \<longleftrightarrow>
     store_ok t \<and> dlist t lst' ys es \<and> only (set xs) s t \<and> dom (links t) = dom (links s) - {l} \<and>
     brk t = brk s \<and> allocs t = allocs s"

lemma remove_link_spec:
  assumes d: "dlist s lst (as @ l # bs) (ds @ x # es)" and ln: "length ds = length as" and ok: "store_ok s"
  obtains lst' t where "dbus_list_remove_link lst (Some l) s = Some (lst', t)"
    "removed s l (as @ l # bs) (as @ bs) (ds @ es) lst' t"
proof -
  obtain t where t: "dbus_list_unlink lst (Some l) s = Some (head (as @ bs), t)"
    "dlist t (head (as @ bs)) (as @ bs) (map (dat s) (as @ bs))"
    "relink (set (as @ l # bs)) s t"
    using unlink_dlist [OF d] by blast
  have dom: "dom (links t) = dom (links s)" using t(3) by (simp add: relink_def)
  obtain n where n: "links t l = Some n"
    using dom ring_dom [OF dlist_ring [OF d], of l] by fastforce
  obtain u where u: "free_link (Some l) t = Some u" "store_ok u" "links u = (links t)(l := None)"
    "brk u = brk t" "allocs u = allocs t"
    using free_link_spec [OF relink_store_ok [OF t(3) ok] n] by blast
  have "only {l} t u" using u(3) by (simp add: only_def)
  moreover have "set (as @ bs) \<inter> {l} = {}" using dlist_ring [OF d] by (auto simp: ring_def)
  ultimately have "dlist u (head (as @ bs)) (as @ bs) (map (dat s) (as @ bs))"
    by (rule dlist_frame [OF t(2)])
  moreover have "map (dat s) (as @ bs) = ds @ es"
    using dlist_data [OF d] ln by (simp add: append_eq_append_conv)
  ultimately have dl: "dlist u (head (as @ bs)) (as @ bs) (ds @ es)" by simp
  have "only (set (as @ l # bs)) s t" using t(3) by (simp only: relink_def)
  then have on: "only (set (as @ l # bs)) s u" using u(3) by (auto simp: only_def)
  have "dom (links u) = dom (links s) - {l}" using u(3) dom by auto
  moreover have "brk u = brk s" "allocs u = allocs s" using u(4,5) t(3) by (simp_all only: relink_def)
  ultimately have "removed s l (as @ l # bs) (as @ bs) (ds @ es) (head (as @ bs)) u"
    unfolding removed_def using u(2) dl on by (intro conjI)
  moreover have "dbus_list_remove_link lst (Some l) s = Some (head (as @ bs), u)"
    using t(1) u(1) by (simp add: dbus_list_remove_link_def)
  ultimately show thesis using that by blast
qed

lemma dlist_cell_at:
  assumes "dlist s lst (as @ a # bs) (ds @ x # es)" "length ds = length as"
  obtains n where "links s a = Some n" "l_data n = x"
proof -
  obtain n where "links s a = Some n" "l_data n = dat s a" using dlist_cell [OF assms(1)] by blast
  moreover have "dat s a = x"
    using dlist_data [OF assms(1)] assms(2) by (simp add: append_eq_append_conv)
  ultimately show thesis using that by simp
qed

lemma remove_loop_spec:
  assumes "dlist s lst (as @ bs) (ds @ es)" "length ds = length as" "store_ok s" "d \<notin> set ds"
  shows "if d \<in> set es
    then \<exists>l ys lst' t. l \<in> set bs \<and> remove_loop lst d (head bs) s = Some (True, lst', t) \<and>
           removed s l (as @ bs) ys (ds @ remove1 d es) lst' t
    else remove_loop lst d (head bs) s = Some (False, lst, s)"
  using assms
proof (induction bs arbitrary: as ds es)
  case Nil
  then have "length (ds @ es) = length as" by (metis append_Nil2 dlist_data length_map)
  then show ?case using Nil by (simp add: remove_loop.simps)
next
  case (Cons b bs)
  have "length (ds @ es) = length (as @ b # bs)" using Cons.prems(1) by (metis dlist_data length_map)
  then obtain x es' where es: "es = x # es'" using Cons.prems(2) by (cases es) auto
  obtain n where n: "links s b = Some n" "l_data n = x"
    using dlist_cell_at Cons.prems(1,2) es by metis
  show ?case
  proof (cases "x = d")
    case True
    obtain lst' t where "dbus_list_remove_link lst (Some b) s = Some (lst', t)"
      "removed s b (as @ b # bs) (as @ bs) (ds @ es') lst' t"
      using remove_link_spec Cons.prems(1-3) es by metis
    then show ?thesis using n True es by (auto simp: remove_loop.simps [of lst d "Some b"])
  next
    case False
    have p: "dlist s lst ((as @ [b]) @ bs) ((ds @ [x]) @ es')" using Cons.prems(1) es by simp
    have "remove_loop lst d (head (b # bs)) s = remove_loop lst d (head bs) s"
      using n False next_link [OF Cons.prems(1)] by (simp add: remove_loop.simps [of lst d "Some b"])
    then show ?thesis using Cons.IH [OF p] Cons.prems(2-4) False es by (auto; blast)
  qed
qed

text \<open>The backward walk over links whose data differ from \<open>d\<close>.\<close>

lemma find_last_walk:
  assumes "dlist s lst (as @ bs @ cs) (ds @ es @ fs)" "length ds = length as" "length es = length bs"
    "d \<notin> set es"
  shows "find_last_loop lst d (head (rev (as @ bs))) s = find_last_loop lst d (head (rev as)) s"
  using assms
proof (induction bs arbitrary: es cs fs rule: rev_induct)
  case Nil
  then show ?case by simp
next
  case (snoc b bs)
  then obtain es' x where es: "es = es' @ [x]" by (cases es rule: rev_cases) auto
  have p: "dlist s lst ((as @ bs) @ b # cs) ((ds @ es') @ x # fs)" using snoc.prems(1) es by simp
  have l2: "length (ds @ es') = length (as @ bs)" using snoc.prems(2,3) es by simp
  obtain n where n: "links s b = Some n" "l_data n = x" using dlist_cell_at [OF p l2] by blast
  have "find_last_loop lst d (head (rev (as @ bs @ [b]))) s = find_last_loop lst d (head (rev (as @ bs))) s"
    using n snoc.prems(4) es prev_link [OF p] by (auto simp add: find_last_loop.simps [of lst d "Some b"])
  also have "\<dots> = find_last_loop lst d (head (rev as)) s"
  proof (rule snoc.IH)
    show "dlist s lst (as @ bs @ b # cs) (ds @ es' @ x # fs)" using snoc.prems(1) es by simp
  qed (use snoc.prems es in auto)
  finally show ?case .
qed

text \<open>Of several occurrences of \<open>d\<close> the last one is found.\<close>

lemma find_last_spec:
  assumes dl: "dlist s lst (as @ l # bs) (ds @ d # es)" "length ds = length as" and nin: "d \<notin> set es"
  shows "dbus_list_find_last lst d s = Some (Some l)"
proof -
  have eq: "length es = length bs" using arg_cong [OF dlist_data [OF dl(1)], of length] dl(2) by simp
  obtain n where n: "links s l = Some n" "l_data n = d" using dlist_cell_at [OF dl] by blast
  have "find_last_loop lst d (head (rev ((as @ [l]) @ bs))) s = find_last_loop lst d (head (rev (as @ [l]))) s"
    using find_last_walk [of s lst "as @ [l]" bs "[]" "ds @ [d]" es "[]" d] dl eq nin by simp
  then show ?thesis using n last_link [OF dl(1)]
    by (simp add: dbus_list_find_last_def find_last_loop.simps [of lst d "Some l"])
qed

lemma find_last_none:
  assumes "dlist s lst xs ds" "d \<notin> set ds"
  shows "dbus_list_find_last lst d s = Some None"
  using find_last_walk [of s lst "[]" xs "[]" "[]" ds "[]" d] last_link [OF assms(1)] assms
    arg_cong [OF dlist_data [OF assms(1)], of length]
  by (simp add: dbus_list_find_last_def find_last_loop.simps)

subsection \<open>Clearing and copying\<close>

lemma clear_loop_spec:
  assumes "linked s bs" "distinct bs" "set bs \<subseteq> dom (links s)"
    "bs \<noteq> [] \<Longrightarrow> nx s (last bs) = Some h" "h \<notin> set (tl bs)" "store_ok s"
  shows "\<exists>t. clear_loop (Some h) (head bs) s = Some t \<and> store_ok t \<and>
    links t = (\<lambda>a. if a \<in> set bs then None else links s a) \<and> brk t = brk s \<and> allocs t = allocs s"
  using assms
proof (induction bs arbitrary: s)
  case Nil
  then show ?case by (simp add: clear_loop.simps)
next
  case (Cons b bs)
  obtain n where n: "links s b = Some n" using Cons.prems(3) by auto
  have nb: "dbus_list_get_next_link (Some h) (Some b) s = Some (head bs)"
    using Cons.prems n by (cases bs) (auto simp: dbus_list_get_next_link_def nx_def)
  obtain u where u: "free_link (Some b) s = Some u" "store_ok u" "links u = (links s)(b := None)"
    "brk u = brk s" "allocs u = allocs s"
    using free_link_spec [OF Cons.prems(6) n] by blast
  have eq: "\<forall>a \<in> set bs. links u a = links s a" using u(3) Cons.prems(2) by auto
  have "linked u bs"
  proof (rule linked_frame)
    show "linked s bs" using Cons.prems(1) by (cases bs) auto
    show "\<forall>a\<in>set (butlast bs). nx u a = nx s a" using eq by (auto simp: nx_def dest: in_set_butlastD)
    show "\<forall>a\<in>set (tl bs). pv u a = pv s a" using eq by (cases bs) (auto simp: pv_def)
  qed
  moreover have "nx u (last bs) = Some h" if "bs \<noteq> []" using Cons.prems(4) that eq by (simp add: nx_def)
  moreover have "set bs \<subseteq> dom (links u)" using Cons.prems(3) eq by force
  moreover have "h \<notin> set (tl bs)" using Cons.prems(5) by (cases bs) auto
  ultimately obtain t where "clear_loop (Some h) (head bs) u = Some t" "store_ok t"
    "links t = (\<lambda>a. if a \<in> set bs then None else links u a)" "brk t = brk u" "allocs t = allocs u"
    using Cons.IH [of u] Cons.prems(2) u(2) by auto
  then show ?case using nb u by (auto simp: clear_loop.simps [of "Some h" "Some b"])
qed

lemma clear_spec:
  assumes d: "dlist s lst xs ds" and ok: "store_ok s"
  obtains t where "dbus_list_clear lst s = Some (None, t)" "store_ok t"
    "links t = (\<lambda>a. if a \<in> set xs then None else links s a)" "brk t = brk s" "allocs t = allocs s"
proof (cases xs)
  case Nil
  with assms that show thesis by (simp add: dbus_list_clear_def dlist_def clear_loop.simps)
next
  case (Cons h zs)
  have "ring s (h # zs)" using d Cons by (simp add: dlist_def)
  then have "\<exists>t. clear_loop (Some h) (head xs) s = Some t \<and> store_ok t \<and>
    links t = (\<lambda>a. if a \<in> set xs then None else links s a) \<and> brk t = brk s \<and> allocs t = allocs s"
    using Cons ok by (intro clear_loop_spec) (auto simp: ring_def)
  with d Cons that show thesis by (auto simp: dbus_list_clear_def dlist_def)
qed

text \<open>The copy loop, with the source's links \<open>as @ bs\<close> copied up to \<open>as\<close>. Nothing but the
  copy's own links changes; on failure they are all given back.\<close>

lemma copy_loop_spec:
  assumes "dlist s lst (as @ bs) (ds @ es)" "length ds = length as" "store_ok s"
    "dlist s dest ys ds" "set ys \<inter> set (as @ bs) = {}"
  shows "\<exists>ok dest' zs t. copy_loop lst dest (head bs) s = Some (ok, dest', t) \<and> store_ok t \<and>
    dlist t lst (as @ bs) (ds @ es) \<and> only (set ys \<union> {brk s..}) s t \<and>
    (if ok then dlist t dest' zs (ds @ es) \<and> set zs \<inter> set (as @ bs) = {}
     else dest' = None \<and> dom (links t) = dom (links s) - set ys)"
  using assms
proof (induction bs arbitrary: s as ds es dest ys)
  case Nil
  have "length (ds @ es) = length as" using Nil.prems(1) by (metis append_Nil2 dlist_data length_map)
  then have "es = []" using Nil.prems(2) by simp
  then show ?case using Nil.prems by (auto simp: copy_loop.simps only_def intro!: exI [of _ ys])
next
  case (Cons b bs)
  have "length (ds @ es) = length (as @ b # bs)" using Cons.prems(1) by (metis dlist_data length_map)
  then obtain x es' where es: "es = x # es'" using Cons.prems(2) by (cases es) auto
  obtain n where n: "links s b = Some n" "l_data n = x"
    using dlist_cell_at Cons.prems(1,2) es by metis
  obtain ok dest' t where a: "dbus_list_append dest x s = Some (ok, dest', t)"
    "added s dest ys (ys @ [brk s]) (ds @ [x]) (ok, dest', t)"
    using append_spec [OF Cons.prems(4,3), of x] by auto
  have nf: "brk s \<notin> set (as @ b # bs)" using dlist_not_fresh [OF Cons.prems(1,3)] .
  have on: "only (insert (brk s) (set ys)) s t" and st: "store_ok t" using a(2) by (simp_all add: added_def)
  have src: "dlist t lst (as @ b # bs) (ds @ es)"
    using dlist_frame [OF Cons.prems(1) on] nf Cons.prems(5) by auto
  show ?case
  proof (cases ok)
    case True
    have dt: "dlist t dest' (ys @ [brk s]) (ds @ [x])" and bt: "brk t = Suc (brk s)"
      using a(2) True by (simp_all add: added_def)
    have p: "dlist t lst ((as @ [b]) @ bs) ((ds @ [x]) @ es')" using src es by simp
    have "set (ys @ [brk s]) \<inter> set ((as @ [b]) @ bs) = {}" using Cons.prems(5) nf by auto
    from Cons.IH [OF p _ st dt this] Cons.prems(2) obtain ok' dest'' zs u where
      u: "copy_loop lst dest' (head bs) t = Some (ok', dest'', u)" "store_ok u"
      "dlist u lst ((as @ [b]) @ bs) ((ds @ [x]) @ es')" "only (set (ys @ [brk s]) \<union> {brk t..}) t u"
      "if ok' then dlist u dest'' zs ((ds @ [x]) @ es') \<and> set zs \<inter> set ((as @ [b]) @ bs) = {}
       else dest'' = None \<and> dom (links u) = dom (links t) - set (ys @ [brk s])"
      by auto
    have run: "copy_loop lst dest (head (b # bs)) s = Some (ok', dest'', u)"
      using n a True next_link [OF src] u(1) by (simp add: copy_loop.simps [of lst dest "Some b"])
    have "only (set ys \<union> {brk s..}) s u" using on u(4) bt by (auto simp: only_def)
    moreover have "dom (links t) - set (ys @ [brk s]) = dom (links s) - set ys"
    proof -
      have "links t a = links s a" if "a \<notin> insert (brk s) (set ys)" for a
        using on that by (simp add: only_def)
      then have "a \<in> dom (links t) - set (ys @ [brk s]) \<longleftrightarrow> a \<in> dom (links s) - set ys" for a
        using store_ok_fresh [OF Cons.prems(3)] by (cases "a \<in> insert (brk s) (set ys)") auto
      then show ?thesis by blast
    qed
    ultimately show ?thesis using run u(2,3,5) es by auto
  next
    case False
    then have f: "dest' = dest" "same_cells s t" using a(2) by (simp_all add: added_def)
    have dt: "dlist t dest ys ds" using dlist_frame [OF Cons.prems(4) same_cells_only [OF f(2), of "{}"]] by simp
    obtain u where u: "dbus_list_clear dest t = Some (None, u)" "store_ok u"
      "links u = (\<lambda>a. if a \<in> set ys then None else links t a)" "brk u = brk t"
      using clear_spec [OF dt st] by blast
    have run: "copy_loop lst dest (head (b # bs)) s = Some (False, None, u)"
      using n a False f u(1) by (simp add: copy_loop.simps [of lst dest "Some b"])
    have "only (set ys) t u" using u(3) by (simp add: only_def)
    then have "dlist u lst (as @ b # bs) (ds @ es)" using dlist_frame [OF src] Cons.prems(5) by auto
    moreover have "only (set ys \<union> {brk s..}) s u" "dom (links u) = dom (links s) - set ys"
      using u(3) f(2) by (auto simp: only_def same_cells_def split: if_splits)
    ultimately show ?thesis using run u(2) by auto
  qed
qed

section \<open>The queue interface\<close>

text \<open>What the message queues, the timeout lists and the name queues of the program use a list
  for: elements go in at the tail and come out at the head. \<open>rep st ds\<close> says that the state
  holds the elements \<open>ds\<close>; a push may fail for want of memory, and then nothing is queued.\<close>

locale fifo =
  fixes rep :: "'st \<Rightarrow> 'a list \<Rightarrow> bool"
    and push :: "'a \<Rightarrow> 'st \<Rightarrow> (bool \<times> 'st) option"
    and pop :: "'st \<Rightarrow> ('a option \<times> 'st) option"
  assumes push: "rep st ds \<Longrightarrow> \<exists>ok st'. push d st = Some (ok, st') \<and> rep st' (if ok then ds @ [d] else ds)"
    and pop_Nil: "rep st [] \<Longrightarrow> pop st = Some (None, st)"
    and pop_Cons: "rep st (d # ds) \<Longrightarrow> \<exists>st'. pop st = Some (Some d, st') \<and> rep st' ds"

text \<open>Clients: queue a list of elements, remembering which were accepted; drain a queue.\<close>

fun push_all :: "('a \<Rightarrow> 'st \<Rightarrow> (bool \<times> 'st) option) \<Rightarrow> 'a list \<Rightarrow> 'st \<Rightarrow> ('a list \<times> 'st) option" where
  "push_all push [] st = Some ([], st)"
| "push_all push (d # ds) st = do {
     (ok, st) \<leftarrow> push d st;
     (acc, st) \<leftarrow> push_all push ds st;
     Some (if ok then d # acc else acc, st)
   }"

partial_function (option) drain :: "('st \<Rightarrow> ('a option \<times> 'st) option) \<Rightarrow> 'st \<Rightarrow> ('a list \<times> 'st) option" where
  [code]: "drain pop st = do {
     (x, st) \<leftarrow> pop st;
     case x of None \<Rightarrow> Some ([], st)
     | Some d \<Rightarrow> do { (ds, st) \<leftarrow> drain pop st; Some (d # ds, st) }
   }"

context fifo begin

lemma push_all_rep:
  "rep st ds \<Longrightarrow> \<exists>acc st'. push_all push es st = Some (acc, st') \<and> rep st' (ds @ acc)"
proof (induction es arbitrary: st ds)
  case Nil
  then show ?case by simp
next
  case (Cons e es)
  obtain ok st1 where 1: "push e st = Some (ok, st1)" "rep st1 (if ok then ds @ [e] else ds)"
    using push [OF Cons.prems] by blast
  obtain acc st2 where "push_all push es st1 = Some (acc, st2)"
    "rep st2 ((if ok then ds @ [e] else ds) @ acc)"
    using Cons.IH [OF 1(2)] by blast
  with 1(1) show ?case by (cases ok) auto
qed

lemma drain_rep: "rep st ds \<Longrightarrow> \<exists>st'. drain pop st = Some (ds, st') \<and> rep st' []"
proof (induction ds arbitrary: st)
  case Nil
  then show ?case using pop_Nil by (auto simp: drain.simps [of pop st])
next
  case (Cons d ds)
  obtain st1 where "pop st = Some (Some d, st1)" "rep st1 ds" using pop_Cons [OF Cons.prems] by blast
  with Cons.IH show ?case by (fastforce simp: drain.simps [of pop st])
qed

lemma fifo_order:
  assumes "rep st ds" "push_all push es st = Some (acc, st')"
  shows "\<exists>st''. drain pop st' = Some (ds @ acc, st'') \<and> rep st'' []"
  using push_all_rep [OF assms(1), of es] drain_rep assms(2) by auto

end

definition holds :: "ptr \<times> 'a lstore \<Rightarrow> 'a list \<Rightarrow> bool" where
  "holds q ds \<longleftrightarrow> store_ok (snd q) \<and> (\<exists>xs. dlist (snd q) (fst q) xs ds)"

definition q_append :: "'a \<Rightarrow> ptr \<times> 'a lstore \<Rightarrow> (bool \<times> ptr \<times> 'a lstore) option" where
  "q_append d q = dbus_list_append (fst q) d (snd q)"

definition q_pop_first :: "ptr \<times> 'a lstore \<Rightarrow> ('a option \<times> ptr \<times> 'a lstore) option" where
  "q_pop_first q = dbus_list_pop_first (fst q) (snd q)"

lemma dlist_Cons:
  assumes "dlist s lst xs (d # ds)"
  obtains x ys where "xs = x # ys" "lst = Some x"
  using assms by (cases xs) (auto simp: dlist_def)

lemma pop_first_spec:
  assumes d: "dlist s lst xs (d # ds)" and ok: "store_ok s"
  obtains x ys lst' t where "xs = x # ys" "dbus_list_pop_first lst s = Some (Some d, lst', t)"
    "removed s x xs ys ds lst' t"
proof -
  obtain x ys where x: "xs = x # ys" "lst = Some x" using dlist_Cons [OF d] .
  then have d': "dlist s lst ([] @ x # ys) ([] @ d # ds)" using d by simp
  obtain n where n: "links s x = Some n" "l_data n = d" using dlist_cell_at [OF d'] by auto
  obtain lst' t where "dbus_list_remove_link lst (Some x) s = Some (lst', t)"
    "removed s x ([] @ x # ys) ([] @ ys) ([] @ ds) lst' t"
    using remove_link_spec [OF d' _ ok] by auto
  with n x that show thesis
    by (simp add: dbus_list_pop_first_def dbus_list_get_first_link_def)
qed

lemma pop_last_spec:
  assumes d: "dlist s lst xs (ds @ [d])" and ok: "store_ok s"
  obtains x ys lst' t where "xs = ys @ [x]" "dbus_list_pop_last lst s = Some (Some d, lst', t)"
    "removed s x xs ys ds lst' t"
proof -
  have "length xs = Suc (length ds)" using arg_cong [OF dlist_data [OF d], of length] by simp
  then obtain ys x where x: "xs = ys @ [x]" "length ds = length ys" by (cases xs rule: rev_cases) auto
  then have d': "dlist s lst (ys @ x # []) (ds @ d # [])" using d by simp
  obtain n where n: "links s x = Some n" "l_data n = d" using dlist_cell_at [OF d' x(2)] by auto
  obtain lst' t where "dbus_list_remove_link lst (Some x) s = Some (lst', t)"
    "removed s x (ys @ x # []) (ys @ []) (ds @ []) lst' t"
    using remove_link_spec [OF d' x(2) ok] by blast
  with n x that last_link [OF d] show thesis by (simp add: dbus_list_pop_last_def)
qed

interpretation dq: fifo holds q_append q_pop_first
proof
  fix q :: "ptr \<times> 'a lstore" and ds d
  assume "holds q ds"
  then obtain xs where "dlist (snd q) (fst q) xs ds" "store_ok (snd q)" by (auto simp: holds_def)
  from append_spec [OF this, of d]
  show "\<exists>ok q'. q_append d q = Some (ok, q') \<and> holds q' (if ok then ds @ [d] else ds)"
  proof (elim exE conjE)
    fix r assume r: "dbus_list_append (fst q) d (snd q) = Some r"
      "added (snd q) (fst q) xs (xs @ [brk (snd q)]) (ds @ [d]) r"
    obtain ok l t where rt: "r = (ok, l, t)" by (cases r) auto
    have "dlist t l xs ds" if "\<not> ok"
      using dlist_frame [OF \<open>dlist (snd q) (fst q) xs ds\<close>, of "{}" t] r(2) rt that
      by (simp add: added_def same_cells_only)
    then show ?thesis using r rt by (cases ok) (auto simp: q_append_def holds_def added_def)
  qed
next
  fix q :: "ptr \<times> 'a lstore"
  assume "holds q []"
  then have "fst q = None" by (auto simp: holds_def dlist_def)
  then show "q_pop_first q = Some (None, q)"
    by (cases q) (simp add: q_pop_first_def dbus_list_pop_first_def dbus_list_get_first_link_def)
next
  fix q :: "ptr \<times> 'a lstore" and d ds
  assume "holds q (d # ds)"
  then obtain xs where "dlist (snd q) (fst q) xs (d # ds)" "store_ok (snd q)" by (auto simp: holds_def)
  from pop_first_spec [OF this] show "\<exists>q'. q_pop_first q = Some (Some d, q') \<and> holds q' ds"
    by (metis fst_conv snd_conv holds_def q_pop_first_def removed_def)
qed

section \<open>Properties\<close>

text \<open>A store with two queued elements, used by the witnesses.\<close>

definition two_links :: "nat lstore" where
  "two_links = \<lparr>links = [0 \<mapsto> \<lparr>l_prev = Some 1, l_next = Some 1, l_data = 7\<rparr>,
      1 \<mapsto> \<lparr>l_prev = Some 0, l_next = Some 0, l_data = 8\<rparr>],
    brk = 2, pool = Some 2, allocs = []\<rparr>"

lemma two_links_dlist: "dlist two_links (Some 0) [0, 1] [7, 8]"
  by (simp add: dlist_def ring_def two_links_def nx_def pv_def dat_def)

lemma two_links_ok: "store_ok two_links"
  by (simp add: store_ok_def two_links_def)





text \<open>C3: \<open>_dbus_list_remove_last\<close> walks backwards, terminates and takes out the last occurrence:
  the elements after it do not contain \<open>d\<close>, and those on both sides stay in order.\<close>

theorem list_remove_last_occurrence:
  assumes "dlist s lst xs ds" "store_ok s"
  shows "if d \<in> set ds
    then \<exists>as l bs es fs lst' t. xs = as @ l # bs \<and> ds = es @ d # fs \<and> d \<notin> set fs \<and>
           length es = length as \<and> dbus_list_remove_last lst d s = Some (True, lst', t) \<and>
           removed s l xs (as @ bs) (es @ fs) lst' t
    else dbus_list_remove_last lst d s = Some (False, lst, s)"
proof (cases "d \<in> set ds")
  case True
  then obtain es fs where ds: "ds = es @ d # fs" "d \<notin> set fs" by (meson split_list_last)
  define n where "n = length es"
  have "length xs = length ds" using arg_cong [OF dlist_data [OF assms(1)], of length] by simp
  then have n: "n < length xs" using ds(1) n_def by simp
  have xs: "xs = take n xs @ xs ! n # drop (Suc n) xs" using n by (rule id_take_nth_drop)
  have ln: "length es = length (take n xs)" using n n_def by simp
  have d': "dlist s lst (take n xs @ xs ! n # drop (Suc n) xs) (es @ d # fs)"
    using assms(1) ds(1) xs by metis
  have "dbus_list_find_last lst d s = Some (Some (xs ! n))" by (rule find_last_spec [OF d' ln ds(2)])
  moreover obtain lst' t where "dbus_list_remove_link lst (Some (xs ! n)) s = Some (lst', t)"
    "removed s (xs ! n) (take n xs @ xs ! n # drop (Suc n) xs) (take n xs @ drop (Suc n) xs) (es @ fs) lst' t"
    using remove_link_spec [OF d' ln assms(2)] by blast
  ultimately have "dbus_list_remove_last lst d s = Some (True, lst', t) \<and>
      removed s (xs ! n) xs (take n xs @ drop (Suc n) xs) (es @ fs) lst' t"
    using xs by (simp add: dbus_list_remove_last_def)
  with True xs ds ln show ?thesis by metis
next
  case False
  then show ?thesis using find_last_none [OF assms(1)] by (simp add: dbus_list_remove_last_def)
qed

theorem list_remove_last_occurrence_witness:
  "\<exists>lst' t. dbus_list_remove_last (Some 0) 7 two_links = Some (True, lst', t)"
  using list_remove_last_occurrence [OF two_links_dlist two_links_ok, of 7] by auto

text \<open>C4: \<open>_dbus_list_copy\<close> terminates. On success there are two disjoint lists with the same
  elements; on failure, whichever allocation failed, every link allocated so far has been given
  back, so the store has exactly the links it had. The source list is intact in both cases.\<close>

theorem list_copy_no_leak:
  assumes "dlist s lst xs ds" "store_ok s"
  shows "\<exists>ok dest t. dbus_list_copy lst s = Some (ok, dest, t) \<and> store_ok t \<and> dlist t lst xs ds \<and>
    (if ok then \<exists>zs. dlist t dest zs ds \<and> set zs \<inter> set xs = {}
     else dest = None \<and> dom (links t) = dom (links s))"
  using copy_loop_spec [of s lst "[]" xs "[]" ds None "[]"] assms dlist_head [OF assms(1)]
  by (fastforce simp: dbus_list_copy_def split: if_splits)

theorem list_copy_no_leak_witness:
  "\<exists>ok dest t. dbus_list_copy (Some 0) (two_links\<lparr>allocs := [True, False]\<rparr>) = Some (ok, dest, t) \<and>
     dlist t (Some 0) [0, 1] [7, 8]"
proof -
  let ?s = "two_links\<lparr>allocs := [True, False]\<rparr>"
  have "dlist ?s (Some 0) [0, 1] [7, 8]"
    by (simp add: dlist_def ring_def two_links_def nx_def pv_def dat_def)
  moreover have "store_ok ?s" by (simp add: store_ok_def two_links_def)
  ultimately show ?thesis using list_copy_no_leak [of ?s "Some 0" "[0, 1]" "[7, 8]"] by blast
qed

text \<open>C5: a list used as a queue is first in, first out, whatever allocations fail: draining it
  yields what it held followed by exactly the accepted elements in the order they were
  appended, and leaves it empty.\<close>

theorem list_queue_fifo:
  assumes "holds q ds" "push_all q_append es q = Some (acc, q')"
  shows "\<exists>q''. drain q_pop_first q' = Some (ds @ acc, q'') \<and> holds q'' []"
  using assms by (rule dq.fifo_order)

theorem list_queue_fifo_witness:
  "\<exists>acc q' q''. push_all q_append [1, 2] (Some 0, two_links) = Some (acc, q') \<and>
     drain q_pop_first q' = Some ([7, 8] @ acc, q'')"
proof -
  have h: "holds (Some 0, two_links) [7, 8]"
    using two_links_dlist two_links_ok by (auto simp: holds_def)
  obtain acc q' where p: "push_all q_append [1, 2] (Some 0, two_links) = Some (acc, q')"
    using dq.push_all_rep [OF h, of "[1, 2]"] by blast
  with list_queue_fifo [OF h p] show ?thesis by blast
qed

end
