(* ===== verification/Names.thy ===== *)
theory Names
  imports Prelude "HOL-Library.Char_ord"
begin

text \<open>
  Model of the name checks of \<^verbatim>\<open>dbus/dbus-marshal-validate.c\<close>: object paths, interface,
  member, error and bus names. A D-Bus string is a list of 8-bit characters; the loops walk the
  range from its first to its last character, so the pointer \<open>s\<close> is the list of the characters
  still ahead of it. The theorems compare each check with a grammar.
\<close>

section \<open>The checks\<close>

definition dbus_maximum_name_length :: nat where
  "dbus_maximum_name_length = 255"

definition valid_initial_name_character :: "char \<Rightarrow> bool" where
  "valid_initial_name_character c \<longleftrightarrow>
     (CHR ''A'' \<le> c \<and> c \<le> CHR ''Z'') \<or> (CHR ''a'' \<le> c \<and> c \<le> CHR ''z'') \<or> c = CHR ''_''"

definition valid_name_character :: "char \<Rightarrow> bool" where
  "valid_name_character c \<longleftrightarrow>
     (CHR ''0'' \<le> c \<and> c \<le> CHR ''9'') \<or>
     (CHR ''A'' \<le> c \<and> c \<le> CHR ''Z'') \<or> (CHR ''a'' \<le> c \<and> c \<le> CHR ''z'') \<or> c = CHR ''_''"

definition valid_initial_bus_name_character :: "char \<Rightarrow> bool" where
  "valid_initial_bus_name_character c \<longleftrightarrow>
     (CHR ''A'' \<le> c \<and> c \<le> CHR ''Z'') \<or> (CHR ''a'' \<le> c \<and> c \<le> CHR ''z'') \<or>
     c = CHR ''_'' \<or> c = CHR ''-''"

definition valid_bus_name_character :: "char \<Rightarrow> bool" where
  "valid_bus_name_character c \<longleftrightarrow>
     (CHR ''0'' \<le> c \<and> c \<le> CHR ''9'') \<or>
     (CHR ''A'' \<le> c \<and> c \<le> CHR ''Z'') \<or> (CHR ''a'' \<le> c \<and> c \<le> CHR ''z'') \<or>
     c = CHR ''_'' \<or> c = CHR ''-''"

text \<open>The range \<open>start .. start + len\<close> of a string.\<close>

definition range_of :: "string \<Rightarrow> nat \<Rightarrow> nat \<Rightarrow> string" where
  "range_of str start len = take len (drop start str)"

text \<open>\<open>path_loop k s\<close>: the loop of \<open>_dbus_validate_path\<close> with \<open>k = s - last_slash\<close>; its result is
  that distance when \<open>s\<close> has reached the end.\<close>

fun path_loop :: "nat \<Rightarrow> string \<Rightarrow> nat option" where
  "path_loop k [] = Some k"
| "path_loop k (c # s) =
     (if c = CHR ''/''
      then (if k < 2 then None else path_loop 1 s)
      else if \<not> valid_name_character c then None else path_loop (Suc k) s)"

definition dbus_validate_path :: "string \<Rightarrow> nat \<Rightarrow> nat \<Rightarrow> bool" where
  "dbus_validate_path str start len =
     (if int len > int (length str) - int start then False
      else if len = 0 then False
      else case range_of str start len of
        [] \<Rightarrow> False
      | c # s \<Rightarrow>
          if c \<noteq> CHR ''/'' then False
          else case path_loop 1 s of
            None \<Rightarrow> False
          | Some k \<Rightarrow> if k < 2 \<and> len > 1 then False else True)"

text \<open>The loop shared, in shape, by interface and bus names: \<open>initial\<close> and \<open>valid\<close> are the two
  character classes, \<open>dot\<close> says whether \<open>last_dot\<close> has been set. The character after a dot is
  checked with the dot, and both are skipped.\<close>

fun dotted_loop :: "(char \<Rightarrow> bool) \<Rightarrow> (char \<Rightarrow> bool) \<Rightarrow> bool \<Rightarrow> string \<Rightarrow> bool option" where
  "dotted_loop initial valid dot [] = Some dot"
| "dotted_loop initial valid dot (c # s) =
     (if c = CHR ''.''
      then (case s of
              [] \<Rightarrow> None
            | d # s \<Rightarrow> if \<not> initial d then None else dotted_loop initial valid True s)
      else if \<not> valid c then None
      else dotted_loop initial valid dot s)"

definition dbus_validate_interface :: "string \<Rightarrow> nat \<Rightarrow> nat \<Rightarrow> bool" where
  "dbus_validate_interface str start len =
     (if int len > int (length str) - int start then False
      else if len > dbus_maximum_name_length then False
      else if len = 0 then False
      else case range_of str start len of
        [] \<Rightarrow> False
      | c # s \<Rightarrow>
          if c = CHR ''.'' then False
          else if \<not> valid_initial_name_character c then False
          else case dotted_loop valid_initial_name_character valid_name_character False s of
            None \<Rightarrow> False
          | Some last_dot \<Rightarrow> if \<not> last_dot then False else True)"

fun member_loop :: "string \<Rightarrow> bool" where
  "member_loop [] = True"
| "member_loop (c # s) = (if \<not> valid_name_character c then False else member_loop s)"

definition dbus_validate_member :: "string \<Rightarrow> nat \<Rightarrow> nat \<Rightarrow> bool" where
  "dbus_validate_member str start len =
     (if int len > int (length str) - int start then False
      else if len > dbus_maximum_name_length then False
      else if len = 0 then False
      else case range_of str start len of
        [] \<Rightarrow> False
      | c # s \<Rightarrow> if \<not> valid_initial_name_character c then False else member_loop s)"

definition dbus_validate_error_name :: "string \<Rightarrow> nat \<Rightarrow> nat \<Rightarrow> bool" where
  "dbus_validate_error_name str start len = dbus_validate_interface str start len"

text \<open>A unique name starts with a colon; its loop never looks for a dot, so none is needed.\<close>

definition dbus_validate_bus_name :: "string \<Rightarrow> nat \<Rightarrow> nat \<Rightarrow> bool" where
  "dbus_validate_bus_name str start len =
     (if int len > int (length str) - int start then False
      else if len > dbus_maximum_name_length then False
      else if len = 0 then False
      else case range_of str start len of
        [] \<Rightarrow> False
      | c # s \<Rightarrow>
          if c = CHR '':'' then
            (case dotted_loop valid_bus_name_character valid_bus_name_character False s of
               None \<Rightarrow> False
             | Some _ \<Rightarrow> True)
          else if c = CHR ''.'' then False
          else if \<not> valid_initial_bus_name_character c then False
          else case dotted_loop valid_initial_bus_name_character valid_bus_name_character False s of
            None \<Rightarrow> False
          | Some last_dot \<Rightarrow> if \<not> last_dot then False else True)"

section \<open>The grammars\<close>

text \<open>\<open>join\<close> puts dots between elements.\<close>

fun join :: "string list \<Rightarrow> string" where
  "join [] = []"
| "join [e] = e"
| "join (e # es) = e @ CHR ''.'' # join es"

definition element :: "(char \<Rightarrow> bool) \<Rightarrow> (char \<Rightarrow> bool) \<Rightarrow> string \<Rightarrow> bool" where
  "element initial valid e \<longleftrightarrow> e \<noteq> [] \<and> initial (hd e) \<and> (\<forall>c \<in> set (tl e). valid c)"

abbreviation name_element :: "string \<Rightarrow> bool" where
  "name_element \<equiv> element valid_initial_name_character valid_name_character"

abbreviation bus_element :: "string \<Rightarrow> bool" where
  "bus_element \<equiv> element valid_initial_bus_name_character valid_bus_name_character"

definition interface_name :: "string \<Rightarrow> bool" where
  "interface_name n \<longleftrightarrow> length n \<le> 255 \<and>
     (\<exists>es. n = join es \<and> 2 \<le> length es \<and> (\<forall>e \<in> set es. name_element e))"

definition well_known_name :: "string \<Rightarrow> bool" where
  "well_known_name n \<longleftrightarrow> length n \<le> 255 \<and>
     (\<exists>es. n = join es \<and> 2 \<le> length es \<and> (\<forall>e \<in> set es. bus_element e))"

text \<open>What the code takes for a unique name: after the colon, elements over the bus name
  characters of which only the first may be empty, and of which one is enough.\<close>

definition unique_name :: "string \<Rightarrow> bool" where
  "unique_name n \<longleftrightarrow> length n \<le> 255 \<and>
     (\<exists>e es. n = CHR '':'' # join (e # es) \<and> (\<forall>c \<in> set e. valid_bus_name_character c) \<and>
        (\<forall>e \<in> set es. e \<noteq> [] \<and> (\<forall>c \<in> set e. valid_bus_name_character c)))"

definition object_path :: "string \<Rightarrow> bool" where
  "object_path p \<longleftrightarrow> p = ''/'' \<or>
     (\<exists>es. es \<noteq> [] \<and> p = concat (map (\<lambda>e. CHR ''/'' # e) es) \<and>
        (\<forall>e \<in> set es. e \<noteq> [] \<and> (\<forall>c \<in> set e. valid_name_character c)))"

section \<open>The checks decide the grammars\<close>

lemma name_chars_dot [simp]:
  "\<not> valid_name_character CHR ''.''" "\<not> valid_initial_name_character CHR ''.''"
  "\<not> valid_bus_name_character CHR ''.''" "\<not> valid_initial_bus_name_character CHR ''.''"
  "\<not> valid_name_character CHR ''/''"
  by (simp_all add: valid_name_character_def valid_initial_name_character_def
      valid_bus_name_character_def valid_initial_bus_name_character_def less_eq_char_def)

lemma initial_valid:
  "valid_initial_name_character c \<Longrightarrow> valid_name_character c"
  "valid_initial_bus_name_character c \<Longrightarrow> valid_bus_name_character c"
  by (auto simp: valid_name_character_def valid_initial_name_character_def
      valid_bus_name_character_def valid_initial_bus_name_character_def)

abbreviation dots :: "string list \<Rightarrow> string" where
  "dots es \<equiv> concat (map (\<lambda>e. CHR ''.'' # e) es)"

lemma join_Cons: "join (e # es) = e @ dots es"
  by (induction es arbitrary: e) auto

lemma dotted_loop_valid:
  assumes "\<not> v CHR ''.''" "\<forall>c \<in> set r. v c"
  shows "dotted_loop i v d (r @ s) = dotted_loop i v d s"
  using assms(2)
proof (induction r)
  case (Cons c r)
  then have "c \<noteq> CHR ''.''" using assms(1) by auto
  then show ?case using Cons by simp
qed simp

lemma dotted_loop_dots:
  assumes "\<not> v CHR ''.''" "\<forall>e \<in> set es. element i v e"
  shows "dotted_loop i v d (dots es) = Some (d \<or> es \<noteq> [])"
  using assms(2)
proof (induction es arbitrary: d)
  case (Cons e es)
  then obtain c r where e: "e = c # r" "i c" "\<forall>c \<in> set r. v c" by (cases e) (auto simp: element_def)
  then have "dotted_loop i v d (dots (e # es)) = dotted_loop i v True (dots es)"
    using dotted_loop_valid [where v = v, OF assms(1) e(3)] by simp
  then show ?case using Cons by simp
qed simp

lemma dotted_loop_sound:
  assumes "dotted_loop i v d s = Some d'"
  shows "\<exists>r es. s = r @ dots es \<and> (\<forall>c \<in> set r. v c) \<and> (\<forall>e \<in> set es. element i v e) \<and>
    d' = (d \<or> es \<noteq> [])"
  using assms
proof (induction i v d s rule: dotted_loop.induct)
  case (1 i v d)
  then show ?case by (intro exI [of _ "[]"]) simp
next
  case (2 i v d c s)
  show ?case
  proof (cases "c = CHR ''.''")
    case True
    with 2(3) obtain c' s' where s: "s = c' # s'" "i c'" "dotted_loop i v True s' = Some d'"
      by (auto split: list.splits if_splits)
    then obtain r es where "s' = r @ dots es" "\<forall>c \<in> set r. v c" "\<forall>e \<in> set es. element i v e"
      "d' = True" using 2(1) [OF True s(1)] by auto
    then have "c # s = [] @ dots ((c' # r) # es)" "\<forall>e \<in> set ((c' # r) # es). element i v e"
      "d' = (d \<or> (c' # r) # es \<noteq> [])"
      using True s by (auto simp: element_def)
    then show ?thesis by (metis empty_iff list.set(1))
  next
    case False
    with 2(3) have v: "v c" "dotted_loop i v d s = Some d'" by (auto split: if_splits)
    then obtain r es where "s = r @ dots es" "\<forall>c \<in> set r. v c" "\<forall>e \<in> set es. element i v e"
      "d' = (d \<or> es \<noteq> [])" using 2(2) [OF False] by auto
    then show ?thesis using v(1) by (intro exI [of _ "c # r"] exI [of _ es]) simp
  qed
qed

lemma dotted_loop_iff:
  assumes "\<not> v CHR ''.''"
  shows "dotted_loop i v d s = Some d' \<longleftrightarrow>
    (\<exists>r es. s = r @ dots es \<and> (\<forall>c \<in> set r. v c) \<and> (\<forall>e \<in> set es. element i v e) \<and> d' = (d \<or> es \<noteq> []))"
proof
  assume "dotted_loop i v d s = Some d'"
  then show "\<exists>r es. s = r @ dots es \<and> (\<forall>c \<in> set r. v c) \<and> (\<forall>e \<in> set es. element i v e) \<and> d' = (d \<or> es \<noteq> [])"
    by (rule dotted_loop_sound)
next
  assume "\<exists>r es. s = r @ dots es \<and> (\<forall>c \<in> set r. v c) \<and> (\<forall>e \<in> set es. element i v e) \<and> d' = (d \<or> es \<noteq> [])"
  then obtain r es where 1: "s = r @ dots es" "\<forall>c \<in> set r. v c" "\<forall>e \<in> set es. element i v e" "d' = (d \<or> es \<noteq> [])"
    by blast
  show "dotted_loop i v d s = Some d'"
    unfolding 1(1) dotted_loop_valid [where v = v, OF assms 1(2)] dotted_loop_dots [where v = v, OF assms 1(3)]
    using 1(4) by simp
qed

text \<open>A leading element and a loop make a dotted name of at least two elements.\<close>

lemma dotted_name:
  assumes "\<not> v CHR ''.''"
  shows "i c \<and> dotted_loop i v False s = Some True \<longleftrightarrow>
    (\<exists>es. c # s = join es \<and> 2 \<le> length es \<and> (\<forall>e \<in> set es. element i v e))" (is "?L \<longleftrightarrow> ?R")
proof
  assume ?L
  then obtain r es where "s = r @ dots es" "\<forall>c \<in> set r. v c" "\<forall>e \<in> set es. element i v e" "es \<noteq> []"
    using dotted_loop_iff [where v = v, OF assms] by auto
  then show ?R using \<open>?L\<close>
    by (intro exI [of _ "(c # r) # es"]) (cases es; auto simp: join_Cons element_def)
next
  assume ?R
  then obtain e es where "c # s = e @ dots es" "es \<noteq> []" "\<forall>x \<in> set (e # es). element i v x"
    by (metis One_nat_def Suc_1 Suc_le_length_iff join_Cons list.distinct(1))
  moreover from this obtain r where "e = c # r" by (cases e) (auto simp: element_def)
  ultimately show ?L using dotted_loop_iff [where v = v, OF assms, of i False s True] by (auto simp: element_def)
qed

lemma validate_interface_iff:
  "dbus_validate_interface n 0 (length n) \<longleftrightarrow> interface_name n"
proof (cases n)
  case Nil
  then show ?thesis
    by (auto simp: dbus_validate_interface_def interface_name_def numeral_2_eq_2 Suc_le_length_iff
        join_Cons element_def)
next
  case (Cons c s)
  have dot: "\<not> valid_initial_name_character c" if "c = CHR ''.''" using that by simp
  have "dbus_validate_interface n 0 (length n) \<longleftrightarrow> length n \<le> 255 \<and>
      valid_initial_name_character c \<and>
      dotted_loop valid_initial_name_character valid_name_character False s = Some True"
    using Cons dot by (auto simp: dbus_validate_interface_def range_of_def dbus_maximum_name_length_def
        split: option.splits)
  then show ?thesis using Cons dotted_name [of valid_name_character valid_initial_name_character c s]
    by (simp add: interface_name_def)
qed

lemma validate_bus_name_iff:
  "dbus_validate_bus_name n 0 (length n) \<longleftrightarrow> well_known_name n \<or> unique_name n"
proof (cases n)
  case Nil
  then show ?thesis
    by (auto simp: dbus_validate_bus_name_def well_known_name_def unique_name_def numeral_2_eq_2
        Suc_le_length_iff join_Cons element_def)
next
  case (Cons c s)
  have colon: "\<not> valid_initial_bus_name_character CHR '':''"
    by (simp add: valid_initial_bus_name_character_def less_eq_char_def)
  have wk: "well_known_name n \<longleftrightarrow> length n \<le> 255 \<and> valid_initial_bus_name_character c \<and>
      dotted_loop valid_initial_bus_name_character valid_bus_name_character False s = Some True"
    using Cons dotted_name [of valid_bus_name_character valid_initial_bus_name_character c s]
    by (simp add: well_known_name_def)
  show ?thesis
  proof (cases "c = CHR '':''")
    case True
    have "dbus_validate_bus_name n 0 (length n) \<longleftrightarrow> length n \<le> 255 \<and>
      (\<exists>d. dotted_loop valid_bus_name_character valid_bus_name_character False s = Some d)"
      using Cons True by (auto simp: dbus_validate_bus_name_def range_of_def
          dbus_maximum_name_length_def split: option.splits)
    also have "\<dots> \<longleftrightarrow> unique_name n"
    proof -
      have el: "element valid_bus_name_character valid_bus_name_character e \<longleftrightarrow>
          e \<noteq> [] \<and> (\<forall>c \<in> set e. valid_bus_name_character c)" for e
        by (cases e) (auto simp: element_def)
      show ?thesis using Cons True
        by (simp add: dotted_loop_iff unique_name_def join_Cons el)
    qed
    finally show ?thesis using wk True colon by auto
  next
    case False
    then have "\<not> unique_name n" using Cons by (simp add: unique_name_def)
    moreover have "dbus_validate_bus_name n 0 (length n) \<longleftrightarrow> length n \<le> 255 \<and>
      valid_initial_bus_name_character c \<and>
      dotted_loop valid_initial_bus_name_character valid_bus_name_character False s = Some True"
      using Cons False by (auto simp: dbus_validate_bus_name_def range_of_def
          dbus_maximum_name_length_def split: option.splits)
    ultimately show ?thesis using wk by simp
  qed
qed

lemma member_loop_iff: "member_loop s \<longleftrightarrow> (\<forall>c \<in> set s. valid_name_character c)"
  by (induction s) auto

lemma validate_member_iff:
  "dbus_validate_member n 0 (length n) \<longleftrightarrow> length n \<le> 255 \<and> name_element n"
  by (cases n) (auto simp: dbus_validate_member_def range_of_def dbus_maximum_name_length_def
      member_loop_iff element_def)

subsection \<open>Object paths\<close>

abbreviation slashes :: "string list \<Rightarrow> string" where
  "slashes es \<equiv> concat (map (\<lambda>e. CHR ''/'' # e) es)"

abbreviation path_element :: "string \<Rightarrow> bool" where
  "path_element e \<equiv> e \<noteq> [] \<and> (\<forall>c \<in> set e. valid_name_character c)"

text \<open>Reading an element adds its length to the distance from the last slash.\<close>

lemma path_loop_valid:
  "\<forall>c \<in> set r. valid_name_character c \<Longrightarrow> path_loop k (r @ s) = path_loop (k + length r) s"
  by (induction r arbitrary: k) (auto split: if_splits)

lemma path_loop_slashes:
  "2 \<le> k \<Longrightarrow> \<forall>e \<in> set es. path_element e \<Longrightarrow>
    path_loop k (slashes es) = Some (if es = [] then k else Suc (length (last es)))"
proof (induction es arbitrary: k)
  case (Cons e es)
  have "path_loop k (slashes (e # es)) = path_loop (Suc (length e)) (slashes es)"
    using Cons.prems path_loop_valid [of e 1 "slashes es"] by simp
  moreover have "2 \<le> Suc (length e)" using Cons.prems(2) by (cases e) auto
  ultimately show ?case using Cons.IH [of "Suc (length e)"] Cons.prems by auto
qed simp

lemma path_loop_sound:
  "path_loop k s = Some k' \<Longrightarrow> \<exists>r es. s = r @ slashes es \<and> (\<forall>c \<in> set r. valid_name_character c) \<and>
    (\<forall>e \<in> set es. \<forall>c \<in> set e. valid_name_character c) \<and> (\<forall>e \<in> set (butlast es). e \<noteq> []) \<and>
    (es \<noteq> [] \<longrightarrow> 2 \<le> k + length r) \<and> k' = (if es = [] then k + length r else Suc (length (last es)))"
proof (induction k s rule: path_loop.induct)
  case (1 k)
  then show ?case by (intro exI [of _ "[]"]) simp
next
  case (2 k c s)
  show ?case
  proof (cases "c = CHR ''/''")
    case True
    with 2(3) have k: "2 \<le> k" "path_loop 1 s = Some k'" by (auto split: if_splits)
    then obtain r es where r: "s = r @ slashes es" "\<forall>c \<in> set r. valid_name_character c"
      "\<forall>e \<in> set es. \<forall>c \<in> set e. valid_name_character c" "\<forall>e \<in> set (butlast es). e \<noteq> []"
      "es \<noteq> [] \<longrightarrow> 2 \<le> 1 + length r" "k' = (if es = [] then 1 + length r else Suc (length (last es)))"
      using 2(1) [OF True] by auto
    then show ?thesis using True k(1)
      by (intro exI [of _ "[]"] exI [of _ "r # es"]) auto
  next
    case False
    with 2(3) have v: "valid_name_character c" "path_loop (Suc k) s = Some k'" by (auto split: if_splits)
    then obtain r es where "s = r @ slashes es" "\<forall>c \<in> set r. valid_name_character c"
      "\<forall>e \<in> set es. \<forall>c \<in> set e. valid_name_character c" "\<forall>e \<in> set (butlast es). e \<noteq> []"
      "es \<noteq> [] \<longrightarrow> 2 \<le> Suc k + length r"
      "k' = (if es = [] then Suc k + length r else Suc (length (last es)))"
      using 2(2) [OF False] by auto
    then show ?thesis using v(1) by (intro exI [of _ "c # r"] exI [of _ es]) auto
  qed
qed

lemma validate_path_iff: "dbus_validate_path p 0 (length p) \<longleftrightarrow> object_path p"
proof (cases p)
  case Nil
  have "\<not> object_path []" by (auto simp: object_path_def concat_eq_Nil_conv neq_Nil_conv)
  with Nil show ?thesis by (simp add: dbus_validate_path_def)
next
  case (Cons c s)
  have run: "dbus_validate_path p 0 (length p) \<longleftrightarrow>
      c = CHR ''/'' \<and> (\<exists>k. path_loop 1 s = Some k \<and> (s = [] \<or> 2 \<le> k))"
    using Cons by (auto simp: dbus_validate_path_def range_of_def split: option.splits)
  show ?thesis
  proof
    assume "dbus_validate_path p 0 (length p)"
    then obtain k where c: "c = CHR ''/''" and k: "path_loop 1 s = Some k" "s = [] \<or> 2 \<le> k"
      using run by auto
    from path_loop_sound [OF k(1)] obtain r es where r: "s = r @ slashes es"
      "\<forall>c \<in> set r. valid_name_character c" "\<forall>e \<in> set es. \<forall>c \<in> set e. valid_name_character c"
      "\<forall>e \<in> set (butlast es). e \<noteq> []" "es \<noteq> [] \<longrightarrow> 2 \<le> 1 + length r"
      "k = (if es = [] then 1 + length r else Suc (length (last es)))" by blast
    show "object_path p"
    proof (cases "s = []")
      case True
      with Cons c show ?thesis by (simp add: object_path_def)
    next
      case False
      have "p = slashes (r # es)" using Cons c r(1) by simp
      moreover have "\<forall>e \<in> set (r # es). path_element e"
      proof
        fix e assume e: "e \<in> set (r # es)"
        have "r \<noteq> []" using r(5,6) k(2) False by (cases "es = []") auto
        moreover have "last es \<noteq> []" if "es \<noteq> []" using r(6) k(2) False that by auto
        moreover note in_set_butlast_last [of e es]
        ultimately show "path_element e" using e r(2-4) by (cases "es = []") auto
      qed
      ultimately show ?thesis unfolding object_path_def by (intro disjI2 exI [of _ "r # es"]) simp
    qed
  next
    assume "object_path p"
    then consider "p = ''/''" | e es where "p = slashes (e # es)" "\<forall>x \<in> set (e # es). path_element x"
      unfolding object_path_def by (metis neq_Nil_conv)
    then show "dbus_validate_path p 0 (length p)"
    proof cases
      case 1
      then show ?thesis using run Cons by simp
    next
      case 2
      then have s: "c = CHR ''/''" "s = e @ slashes es" using Cons by simp_all
      have le: "2 \<le> Suc (length e)" using 2(2) by (cases e) auto
      have "path_loop 1 s = path_loop (Suc (length e)) (slashes es)"
        using s(2) 2(2) path_loop_valid [of e 1] by simp
      also have "\<dots> = Some (if es = [] then Suc (length e) else Suc (length (last es)))"
        using path_loop_slashes [OF le] 2(2) by simp
      finally have "path_loop 1 s = Some (if es = [] then Suc (length e) else Suc (length (last es)))" .
      moreover have "es \<noteq> [] \<Longrightarrow> last es \<noteq> []" using 2(2) by simp
      then have "2 \<le> (if es = [] then Suc (length e) else Suc (length (last es)))"
        using le by (cases "last es") auto
      ultimately show ?thesis using run s(1) by simp
    qed
  qed
qed

subsection \<open>Ranges\<close>

text \<open>Each check accepts a range inside a longer string iff the range lies within the string
  and is accepted by itself.\<close>

lemma range_of_all [simp]: "range_of n 0 (length n) = n"
  by (simp add: range_of_def)

lemma range_within:
  assumes "start + len \<le> length str"
  shows "\<not> int len > int (length str) - int start" "length (range_of str start len) = len"
    "range_of (range_of str start len) 0 len = range_of str start len"
    "int (length (range_of str start len)) - int 0 = int len"
  using assms by (simp_all add: range_of_def)

lemma validate_range:
  "dbus_validate_interface str start len \<longleftrightarrow> start + len \<le> length str \<and>
     dbus_validate_interface (range_of str start len) 0 (length (range_of str start len))"
  "dbus_validate_bus_name str start len \<longleftrightarrow> start + len \<le> length str \<and>
     dbus_validate_bus_name (range_of str start len) 0 (length (range_of str start len))"
  "dbus_validate_member str start len \<longleftrightarrow> start + len \<le> length str \<and>
     dbus_validate_member (range_of str start len) 0 (length (range_of str start len))"
  "dbus_validate_path str start len \<longleftrightarrow> start + len \<le> length str \<and>
     dbus_validate_path (range_of str start len) 0 (length (range_of str start len))"
proof -
  have out: "int len > int (length str) - int start" if "\<not> start + len \<le> length str" using that by linarith
  note defs = dbus_validate_interface_def dbus_validate_bus_name_def dbus_validate_member_def
    dbus_validate_path_def
  show "dbus_validate_interface str start len \<longleftrightarrow> start + len \<le> length str \<and>
     dbus_validate_interface (range_of str start len) 0 (length (range_of str start len))"
    by (cases "start + len \<le> length str") (simp_all add: range_within out dbus_validate_interface_def)
  show "dbus_validate_bus_name str start len \<longleftrightarrow> start + len \<le> length str \<and>
     dbus_validate_bus_name (range_of str start len) 0 (length (range_of str start len))"
    by (cases "start + len \<le> length str") (simp_all add: range_within out dbus_validate_bus_name_def)
  show "dbus_validate_member str start len \<longleftrightarrow> start + len \<le> length str \<and>
     dbus_validate_member (range_of str start len) 0 (length (range_of str start len))"
    by (cases "start + len \<le> length str") (simp_all add: range_within out dbus_validate_member_def)
  show "dbus_validate_path str start len \<longleftrightarrow> start + len \<le> length str \<and>
     dbus_validate_path (range_of str start len) 0 (length (range_of str start len))"
    by (cases "start + len \<le> length str") (simp_all add: range_within out dbus_validate_path_def)
qed

section \<open>Properties\<close>

text \<open>C6: the interface, error and member name checks decide the grammar of the protocol for any
  range of any string: at most 255 bytes, one (member) or at least two (interface, error)
  non-empty elements separated by dots, each made of \<open>[A-Za-z0-9_]\<close> and not starting with a digit;
  a range that runs past the end of the string is refused.\<close>

theorem interface_member_grammar:
  "(dbus_validate_interface str start len \<longleftrightarrow>
      start + len \<le> length str \<and> interface_name (range_of str start len)) \<and>
   (dbus_validate_error_name str start len \<longleftrightarrow>
      start + len \<le> length str \<and> interface_name (range_of str start len)) \<and>
   (dbus_validate_member str start len \<longleftrightarrow>
      start + len \<le> length str \<and> len \<le> 255 \<and> name_element (range_of str start len))"
proof -
  have "length (range_of str start len) = len" if "start + len \<le> length str"
    using range_within(2) [OF that] .
  then show ?thesis
    unfolding dbus_validate_error_name_def validate_range(1,3) [of str start len]
      validate_interface_iff validate_member_iff by auto
qed

text \<open>C7: the bus name check accepts exactly the well-known names (at most 255 bytes, at least two
  non-empty elements over \<open>[A-Za-z0-9_-]\<close> of which none starts with a digit) and the names that
  start with a colon and continue with elements over the same characters, of which only the
  first may be empty.\<close>

theorem bus_name_grammar:
  "dbus_validate_bus_name str start len \<longleftrightarrow>
     start + len \<le> length str \<and>
     (well_known_name (range_of str start len) \<or> unique_name (range_of str start len))"
  unfolding validate_range(2) [of str start len] validate_bus_name_iff ..

text \<open>C8: the object path check accepts exactly \<open>/\<close> and the paths made of one or more
  \<open>/element\<close> with non-empty elements over \<open>[A-Za-z0-9_]\<close>; so there is no empty component, no
  trailing slash, and no length limit.\<close>

theorem object_path_grammar:
  "dbus_validate_path str start len \<longleftrightarrow>
     start + len \<le> length str \<and> object_path (range_of str start len)"
  unfolding validate_range(4) [of str start len] validate_path_iff ..


end
