(* ===== verification/Signature.thy ===== *)
theory Signature
  imports Names
begin

text \<open>
  Model of the type signatures of the protocol: the validator
  \<open>_dbus_validate_signature_with_reason\<close> of \<^verbatim>\<open>dbus/dbus-marshal-validate.c\<close>, the stepping
  function \<open>_dbus_type_signature_next\<close> of \<^verbatim>\<open>dbus/dbus-marshal-recursive.c\<close>, the type code
  predicates of \<^verbatim>\<open>dbus/dbus-marshal-basic.c\<close> and the signature iterator of
  \<^verbatim>\<open>dbus/dbus-signature.c\<close>. A type code is the character that stands for it.
\<close>

section \<open>Reasons\<close>

datatype (plugins only: code) validity =
    DBUS_VALIDITY_UNKNOWN_OOM_ERROR
  | DBUS_INVALID_FOR_UNKNOWN_REASON
  | DBUS_VALID_BUT_INCOMPLETE
  | DBUS_VALIDITY_UNKNOWN
  | DBUS_VALID
  | DBUS_INVALID_UNKNOWN_TYPECODE
  | DBUS_INVALID_MISSING_ARRAY_ELEMENT_TYPE
  | DBUS_INVALID_SIGNATURE_TOO_LONG
  | DBUS_INVALID_EXCEEDED_MAXIMUM_ARRAY_RECURSION
  | DBUS_INVALID_EXCEEDED_MAXIMUM_STRUCT_RECURSION
  | DBUS_INVALID_STRUCT_ENDED_BUT_NOT_STARTED
  | DBUS_INVALID_STRUCT_STARTED_BUT_NOT_ENDED
  | DBUS_INVALID_STRUCT_HAS_NO_FIELDS
  | DBUS_INVALID_ALIGNMENT_PADDING_NOT_NUL
  | DBUS_INVALID_BOOLEAN_NOT_ZERO_OR_ONE
  | DBUS_INVALID_NOT_ENOUGH_DATA
  | DBUS_INVALID_TOO_MUCH_DATA
  | DBUS_INVALID_BAD_BYTE_ORDER
  | DBUS_INVALID_BAD_PROTOCOL_VERSION
  | DBUS_INVALID_BAD_MESSAGE_TYPE
  | DBUS_INVALID_BAD_SERIAL
  | DBUS_INVALID_INSANE_FIELDS_ARRAY_LENGTH
  | DBUS_INVALID_INSANE_BODY_LENGTH
  | DBUS_INVALID_MESSAGE_TOO_LONG
  | DBUS_INVALID_HEADER_FIELD_CODE
  | DBUS_INVALID_HEADER_FIELD_HAS_WRONG_TYPE
  | DBUS_INVALID_USES_LOCAL_INTERFACE
  | DBUS_INVALID_USES_LOCAL_PATH
  | DBUS_INVALID_HEADER_FIELD_APPEARS_TWICE
  | DBUS_INVALID_BAD_DESTINATION
  | DBUS_INVALID_BAD_INTERFACE
  | DBUS_INVALID_BAD_MEMBER
  | DBUS_INVALID_BAD_ERROR_NAME
  | DBUS_INVALID_BAD_SENDER
  | DBUS_INVALID_MISSING_PATH
  | DBUS_INVALID_MISSING_INTERFACE
  | DBUS_INVALID_MISSING_MEMBER
  | DBUS_INVALID_MISSING_ERROR_NAME
  | DBUS_INVALID_MISSING_REPLY_SERIAL
  | DBUS_INVALID_LENGTH_OUT_OF_BOUNDS
  | DBUS_INVALID_ARRAY_LENGTH_EXCEEDS_MAXIMUM
  | DBUS_INVALID_BAD_PATH
  | DBUS_INVALID_SIGNATURE_LENGTH_OUT_OF_BOUNDS
  | DBUS_INVALID_BAD_UTF8_IN_STRING
  | DBUS_INVALID_ARRAY_LENGTH_INCORRECT
  | DBUS_INVALID_VARIANT_SIGNATURE_LENGTH_OUT_OF_BOUNDS
  | DBUS_INVALID_VARIANT_SIGNATURE_BAD
  | DBUS_INVALID_VARIANT_SIGNATURE_EMPTY
  | DBUS_INVALID_VARIANT_SIGNATURE_SPECIFIES_MULTIPLE_VALUES
  | DBUS_INVALID_VARIANT_SIGNATURE_MISSING_NUL
  | DBUS_INVALID_STRING_MISSING_NUL
  | DBUS_INVALID_SIGNATURE_MISSING_NUL
  | DBUS_INVALID_EXCEEDED_MAXIMUM_DICT_ENTRY_RECURSION
  | DBUS_INVALID_DICT_ENTRY_ENDED_BUT_NOT_STARTED
  | DBUS_INVALID_DICT_ENTRY_STARTED_BUT_NOT_ENDED
  | DBUS_INVALID_DICT_ENTRY_HAS_NO_FIELDS
  | DBUS_INVALID_DICT_ENTRY_HAS_ONLY_ONE_FIELD
  | DBUS_INVALID_DICT_ENTRY_HAS_TOO_MANY_FIELDS
  | DBUS_INVALID_DICT_ENTRY_NOT_INSIDE_ARRAY
  | DBUS_INVALID_DICT_KEY_MUST_BE_BASIC_TYPE
  | DBUS_INVALID_MISSING_UNIX_FDS
  | DBUS_INVALID_NESTED_TOO_DEEPLY

definition dbus_validity_to_error_message :: "validity \<Rightarrow> string" where
  "dbus_validity_to_error_message v = (case v of
      DBUS_VALIDITY_UNKNOWN_OOM_ERROR \<Rightarrow> ''Out of memory''
    | DBUS_INVALID_FOR_UNKNOWN_REASON \<Rightarrow> ''Unknown reason''
    | DBUS_VALID_BUT_INCOMPLETE \<Rightarrow> ''Valid but incomplete''
    | DBUS_VALIDITY_UNKNOWN \<Rightarrow> ''Validity unknown''
    | DBUS_VALID \<Rightarrow> ''Valid''
    | DBUS_INVALID_UNKNOWN_TYPECODE \<Rightarrow> ''Unknown typecode''
    | DBUS_INVALID_MISSING_ARRAY_ELEMENT_TYPE \<Rightarrow> ''Missing array element type''
    | DBUS_INVALID_SIGNATURE_TOO_LONG \<Rightarrow> ''Signature is too long''
    | DBUS_INVALID_EXCEEDED_MAXIMUM_ARRAY_RECURSION \<Rightarrow> ''Exceeded maximum array recursion''
    | DBUS_INVALID_EXCEEDED_MAXIMUM_STRUCT_RECURSION \<Rightarrow> ''Exceeded maximum struct recursion''
    | DBUS_INVALID_STRUCT_ENDED_BUT_NOT_STARTED \<Rightarrow> ''Struct ended but not started''
    | DBUS_INVALID_STRUCT_STARTED_BUT_NOT_ENDED \<Rightarrow> ''Struct started but not ended''
    | DBUS_INVALID_STRUCT_HAS_NO_FIELDS \<Rightarrow> ''Struct has no fields''
    | DBUS_INVALID_ALIGNMENT_PADDING_NOT_NUL \<Rightarrow> ''Alignment padding not null''
    | DBUS_INVALID_BOOLEAN_NOT_ZERO_OR_ONE \<Rightarrow> ''Boolean is not zero or one''
    | DBUS_INVALID_NOT_ENOUGH_DATA \<Rightarrow> ''Not enough data''
    | DBUS_INVALID_TOO_MUCH_DATA \<Rightarrow> ''Too much data''
    | DBUS_INVALID_BAD_BYTE_ORDER \<Rightarrow> ''Bad byte order''
    | DBUS_INVALID_BAD_PROTOCOL_VERSION \<Rightarrow> ''Bad protocol version''
    | DBUS_INVALID_BAD_MESSAGE_TYPE \<Rightarrow> ''Bad message type''
    | DBUS_INVALID_BAD_SERIAL \<Rightarrow> ''Bad serial''
    | DBUS_INVALID_INSANE_FIELDS_ARRAY_LENGTH \<Rightarrow> ''Insane fields array length''
    | DBUS_INVALID_INSANE_BODY_LENGTH \<Rightarrow> ''Insane body length''
    | DBUS_INVALID_MESSAGE_TOO_LONG \<Rightarrow> ''Message too long''
    | DBUS_INVALID_HEADER_FIELD_CODE \<Rightarrow> ''Header field code''
    | DBUS_INVALID_HEADER_FIELD_HAS_WRONG_TYPE \<Rightarrow> ''Header field has wrong type''
    | DBUS_INVALID_USES_LOCAL_INTERFACE \<Rightarrow> ''Uses local interface''
    | DBUS_INVALID_USES_LOCAL_PATH \<Rightarrow> ''Uses local path''
    | DBUS_INVALID_HEADER_FIELD_APPEARS_TWICE \<Rightarrow> ''Header field appears twice''
    | DBUS_INVALID_BAD_DESTINATION \<Rightarrow> ''Bad destination''
    | DBUS_INVALID_BAD_INTERFACE \<Rightarrow> ''Bad interface''
    | DBUS_INVALID_BAD_MEMBER \<Rightarrow> ''Bad member''
    | DBUS_INVALID_BAD_ERROR_NAME \<Rightarrow> ''Bad error name''
    | DBUS_INVALID_BAD_SENDER \<Rightarrow> ''Bad sender''
    | DBUS_INVALID_MISSING_PATH \<Rightarrow> ''Missing path''
    | DBUS_INVALID_MISSING_INTERFACE \<Rightarrow> ''Missing interface''
    | DBUS_INVALID_MISSING_MEMBER \<Rightarrow> ''Missing member''
    | DBUS_INVALID_MISSING_ERROR_NAME \<Rightarrow> ''Missing error name''
    | DBUS_INVALID_MISSING_REPLY_SERIAL \<Rightarrow> ''Missing reply serial''
    | DBUS_INVALID_LENGTH_OUT_OF_BOUNDS \<Rightarrow> ''Length out of bounds''
    | DBUS_INVALID_ARRAY_LENGTH_EXCEEDS_MAXIMUM \<Rightarrow> ''Array length exceeds maximum''
    | DBUS_INVALID_BAD_PATH \<Rightarrow> ''Bad path''
    | DBUS_INVALID_SIGNATURE_LENGTH_OUT_OF_BOUNDS \<Rightarrow> ''Signature length out of bounds''
    | DBUS_INVALID_BAD_UTF8_IN_STRING \<Rightarrow> ''Bad utf8 in string''
    | DBUS_INVALID_ARRAY_LENGTH_INCORRECT \<Rightarrow> ''Array length incorrect''
    | DBUS_INVALID_VARIANT_SIGNATURE_LENGTH_OUT_OF_BOUNDS \<Rightarrow> ''Variant signature length out of bounds''
    | DBUS_INVALID_VARIANT_SIGNATURE_BAD \<Rightarrow> ''Variant signature bad''
    | DBUS_INVALID_VARIANT_SIGNATURE_EMPTY \<Rightarrow> ''Variant signature empty''
    | DBUS_INVALID_VARIANT_SIGNATURE_SPECIFIES_MULTIPLE_VALUES \<Rightarrow> ''Variant signature specifies multiple values''
    | DBUS_INVALID_VARIANT_SIGNATURE_MISSING_NUL \<Rightarrow> ''Variant signature missing nul''
    | DBUS_INVALID_STRING_MISSING_NUL \<Rightarrow> ''String missing nul''
    | DBUS_INVALID_SIGNATURE_MISSING_NUL \<Rightarrow> ''Signature missing nul''
    | DBUS_INVALID_EXCEEDED_MAXIMUM_DICT_ENTRY_RECURSION \<Rightarrow> ''Exceeded maximum dict entry recursion''
    | DBUS_INVALID_DICT_ENTRY_ENDED_BUT_NOT_STARTED \<Rightarrow> ''Dict entry ended but not started''
    | DBUS_INVALID_DICT_ENTRY_STARTED_BUT_NOT_ENDED \<Rightarrow> ''Dict entry started but not ended''
    | DBUS_INVALID_DICT_ENTRY_HAS_NO_FIELDS \<Rightarrow> ''Dict entry has no fields''
    | DBUS_INVALID_DICT_ENTRY_HAS_ONLY_ONE_FIELD \<Rightarrow> ''Dict entry has only one field''
    | DBUS_INVALID_DICT_ENTRY_HAS_TOO_MANY_FIELDS \<Rightarrow> ''Dict entry has too many fields''
    | DBUS_INVALID_DICT_ENTRY_NOT_INSIDE_ARRAY \<Rightarrow> ''Dict entry not inside array''
    | DBUS_INVALID_DICT_KEY_MUST_BE_BASIC_TYPE \<Rightarrow> ''Dict key must be basic type''
    | DBUS_INVALID_NESTED_TOO_DEEPLY \<Rightarrow> ''Variants cannot be used to create a hugely recursive tree of values''
    | _ \<Rightarrow> ''Invalid'')"

section \<open>Type codes\<close>

abbreviation (input) DBUS_TYPE_INVALID :: char where "DBUS_TYPE_INVALID \<equiv> CHR 0x00"
abbreviation (input) DBUS_TYPE_ARRAY :: char where "DBUS_TYPE_ARRAY \<equiv> CHR ''a''"
abbreviation (input) DBUS_TYPE_VARIANT :: char where "DBUS_TYPE_VARIANT \<equiv> CHR ''v''"
abbreviation (input) DBUS_TYPE_STRUCT :: char where "DBUS_TYPE_STRUCT \<equiv> CHR ''r''"
abbreviation (input) DBUS_TYPE_DICT_ENTRY :: char where "DBUS_TYPE_DICT_ENTRY \<equiv> CHR ''e''"
abbreviation (input) DBUS_STRUCT_BEGIN_CHAR :: char where "DBUS_STRUCT_BEGIN_CHAR \<equiv> CHR ''(''"
abbreviation (input) DBUS_STRUCT_END_CHAR :: char where "DBUS_STRUCT_END_CHAR \<equiv> CHR '')''"
abbreviation (input) DBUS_DICT_ENTRY_BEGIN_CHAR :: char where "DBUS_DICT_ENTRY_BEGIN_CHAR \<equiv> CHR ''{''"
abbreviation (input) DBUS_DICT_ENTRY_END_CHAR :: char where "DBUS_DICT_ENTRY_END_CHAR \<equiv> CHR ''}''"

definition dbus_maximum_signature_length :: nat where
  "dbus_maximum_signature_length = 255"

definition dbus_maximum_type_recursion_depth :: nat where
  "dbus_maximum_type_recursion_depth = 32"

text \<open>The codes that are complete types by themselves, in the order of the switch.\<close>

definition simple_codes :: string where
  "simple_codes = ''ybnqiuhxtdsogv''"

definition dbus_type_is_valid :: "char \<Rightarrow> bool" where
  "dbus_type_is_valid c \<longleftrightarrow> c \<in> set ''ybnqiuxtdsogarevh''"

definition type_is_container :: "char \<Rightarrow> bool" where
  "type_is_container c \<longleftrightarrow>
     c = DBUS_TYPE_STRUCT \<or> c = DBUS_TYPE_DICT_ENTRY \<or> c = DBUS_TYPE_VARIANT \<or> c = DBUS_TYPE_ARRAY"

definition dbus_type_is_container :: "char \<Rightarrow> bool" where
  "dbus_type_is_container c =
     (if \<not> (dbus_type_is_valid c \<or> c = DBUS_TYPE_INVALID) then False else type_is_container c)"

definition dbus_type_is_basic :: "char \<Rightarrow> bool" where
  "dbus_type_is_basic c =
     (if \<not> (dbus_type_is_valid c \<or> c = DBUS_TYPE_INVALID) then False
      else \<not> (c = DBUS_TYPE_INVALID \<or> type_is_container c))"

definition dbus_type_is_fixed :: "char \<Rightarrow> bool" where
  "dbus_type_is_fixed c =
     (if \<not> (dbus_type_is_valid c \<or> c = DBUS_TYPE_INVALID) then False
      else c \<in> set ''ybnqiuxtdh'')"

text \<open>\<open>None\<close> is the assertion that the default case fails.\<close>

definition dbus_type_get_alignment :: "char \<Rightarrow> nat option" where
  "dbus_type_get_alignment c =
     (if c \<in> set ''yvg'' then Some 1
      else if c \<in> set ''nq'' then Some 2
      else if c \<in> set ''biuhsoa'' then Some 4
      else if c \<in> set ''xtdre'' then Some 8
      else None)"

section \<open>Validation\<close>

text \<open>The local variables of the validator. The element count stack is a \<open>DBusList\<close> used at its
  tail; here its tail is the head of \<open>counts\<close>, and popping an empty list yields 0 as the NULL
  pointer does. Every append to it may fail for want of memory.\<close>

record sig_state =
  last_code :: char
  struct_depth :: nat
  array_depth :: nat
  dict_entry_depth :: nat
  counts :: "nat list"

definition pop_count :: "sig_state \<Rightarrow> nat \<times> sig_state" where
  "pop_count st = (case counts st of [] \<Rightarrow> (0, st) | n # ns \<Rightarrow> (n, st\<lparr>counts := ns\<rparr>))"

definition push_count :: "nat \<Rightarrow> sig_state \<Rightarrow> script \<Rightarrow> (validity + sig_state) \<times> script" where
  "push_count n st r =
     (let (ok, r) = malloc r in
      if \<not> ok then (Inl DBUS_VALIDITY_UNKNOWN_OOM_ERROR, r)
      else (Inr (st\<lparr>counts := n # counts st\<rparr>), r))"

text \<open>The switch on \<open>*p\<close>.\<close>

definition sig_switch :: "char \<Rightarrow> sig_state \<Rightarrow> script \<Rightarrow> (validity + sig_state) \<times> script" where
  "sig_switch c st r =
     (if c \<in> set simple_codes then (Inr st, r)
      else if c = DBUS_TYPE_ARRAY then
        (let st = st\<lparr>array_depth := array_depth st + 1\<rparr> in
         if array_depth st > dbus_maximum_type_recursion_depth
         then (Inl DBUS_INVALID_EXCEEDED_MAXIMUM_ARRAY_RECURSION, r)
         else (Inr st, r))
      else if c = DBUS_STRUCT_BEGIN_CHAR then
        (let st = st\<lparr>struct_depth := struct_depth st + 1\<rparr> in
         if struct_depth st > dbus_maximum_type_recursion_depth
         then (Inl DBUS_INVALID_EXCEEDED_MAXIMUM_STRUCT_RECURSION, r)
         else push_count 0 st r)
      else if c = DBUS_STRUCT_END_CHAR then
        (if struct_depth st = 0 then (Inl DBUS_INVALID_STRUCT_ENDED_BUT_NOT_STARTED, r)
         else if last_code st = DBUS_STRUCT_BEGIN_CHAR then (Inl DBUS_INVALID_STRUCT_HAS_NO_FIELDS, r)
         else let (_, st) = pop_count st in
           (Inr (st\<lparr>struct_depth := struct_depth st - 1\<rparr>), r))
      else if c = DBUS_DICT_ENTRY_BEGIN_CHAR then
        (if last_code st \<noteq> DBUS_TYPE_ARRAY then (Inl DBUS_INVALID_DICT_ENTRY_NOT_INSIDE_ARRAY, r)
         else let st = st\<lparr>dict_entry_depth := dict_entry_depth st + 1\<rparr> in
           if dict_entry_depth st > dbus_maximum_type_recursion_depth
           then (Inl DBUS_INVALID_EXCEEDED_MAXIMUM_DICT_ENTRY_RECURSION, r)
           else push_count 0 st r)
      else if c = DBUS_DICT_ENTRY_END_CHAR then
        (if dict_entry_depth st = 0 then (Inl DBUS_INVALID_DICT_ENTRY_ENDED_BUT_NOT_STARTED, r)
         else let st = st\<lparr>dict_entry_depth := dict_entry_depth st - 1\<rparr>;
                  (element_count, st) = pop_count st in
           if element_count \<noteq> 2 then
             (Inl (if element_count = 0 then DBUS_INVALID_DICT_ENTRY_HAS_NO_FIELDS
                   else if element_count = 1 then DBUS_INVALID_DICT_ENTRY_HAS_ONLY_ONE_FIELD
                   else DBUS_INVALID_DICT_ENTRY_HAS_TOO_MANY_FIELDS), r)
           else (Inr st, r))
      else (Inl DBUS_INVALID_UNKNOWN_TYPECODE, r))"

text \<open>After the switch: count the element that ended, look at what follows an array code, and
  check the key of a dict entry. \<open>nxt\<close> is the byte behind \<open>p\<close>.\<close>

definition sig_count :: "char \<Rightarrow> sig_state \<Rightarrow> script \<Rightarrow> (validity + sig_state) \<times> script" where
  "sig_count c st r =
     (if c \<noteq> DBUS_TYPE_ARRAY \<and> c \<noteq> DBUS_DICT_ENTRY_BEGIN_CHAR \<and> c \<noteq> DBUS_STRUCT_BEGIN_CHAR
      then let (element_count, st) = pop_count st in push_count (element_count + 1) st r
      else (Inr st, r))"

definition sig_array :: "char \<Rightarrow> char \<Rightarrow> sig_state \<Rightarrow> validity + sig_state" where
  "sig_array c nxt st =
     (if array_depth st > 0 then
        (if c = DBUS_TYPE_ARRAY then
           (if nxt = DBUS_STRUCT_END_CHAR \<or> nxt = DBUS_DICT_ENTRY_END_CHAR
            then Inl DBUS_INVALID_MISSING_ARRAY_ELEMENT_TYPE
            else Inr st)
         else Inr (st\<lparr>array_depth := 0\<rparr>))
      else Inr st)"

definition sig_key :: "char \<Rightarrow> sig_state \<Rightarrow> validity + sig_state" where
  "sig_key c st =
     (if last_code st = DBUS_DICT_ENTRY_BEGIN_CHAR \<and> \<not> (dbus_type_is_valid c \<and> dbus_type_is_basic c)
      then Inl DBUS_INVALID_DICT_KEY_MUST_BE_BASIC_TYPE
      else Inr (st\<lparr>last_code := c\<rparr>))"

definition sig_step :: "char \<Rightarrow> char \<Rightarrow> sig_state \<Rightarrow> script \<Rightarrow> (validity + sig_state) \<times> script" where
  "sig_step c nxt st r =
     (case sig_switch c st r of
        (Inl e, r) \<Rightarrow> (Inl e, r)
      | (Inr st, r) \<Rightarrow>
          (case sig_count c st r of
             (Inl e, r) \<Rightarrow> (Inl e, r)
           | (Inr st, r) \<Rightarrow>
               (case sig_array c nxt st of
                  Inl e \<Rightarrow> (Inl e, r)
                | Inr st \<Rightarrow> (sig_key c st, r))))"

text \<open>The loop over the range; \<open>after\<close> is the byte that follows it in the buffer.\<close>

fun sig_loop :: "char \<Rightarrow> string \<Rightarrow> sig_state \<Rightarrow> script \<Rightarrow> (validity + sig_state) \<times> script" where
  "sig_loop after [] st r = (Inr st, r)"
| "sig_loop after (c # p) st r =
     (case sig_step c (case p of [] \<Rightarrow> after | d # _ \<Rightarrow> d) st r of
        (Inl e, r) \<Rightarrow> (Inl e, r)
      | (Inr st, r) \<Rightarrow> sig_loop after p st r)"

definition sig_finish :: "sig_state \<Rightarrow> validity" where
  "sig_finish st =
     (if array_depth st > 0 then DBUS_INVALID_MISSING_ARRAY_ELEMENT_TYPE
      else if struct_depth st > 0 then DBUS_INVALID_STRUCT_STARTED_BUT_NOT_ENDED
      else if dict_entry_depth st > 0 then DBUS_INVALID_DICT_ENTRY_STARTED_BUT_NOT_ENDED
      else DBUS_VALID)"

text \<open>The byte at an index of a string buffer, which ends with a NUL.\<close>

definition byte_at :: "string \<Rightarrow> nat \<Rightarrow> char" where
  "byte_at str i = (if i < length str then str ! i else CHR 0x00)"

definition sig_init :: sig_state where
  "sig_init = \<lparr>last_code = DBUS_TYPE_INVALID, struct_depth = 0, array_depth = 0,
     dict_entry_depth = 0, counts = [0]\<rparr>"

definition dbus_validate_signature_with_reason ::
    "string \<Rightarrow> nat \<Rightarrow> nat \<Rightarrow> script \<Rightarrow> validity \<times> script" where
  "dbus_validate_signature_with_reason type_str type_pos len r =
     (let (ok, r) = malloc r in
      if \<not> ok then (DBUS_VALIDITY_UNKNOWN_OOM_ERROR, r)
      else if len > dbus_maximum_signature_length then (DBUS_INVALID_SIGNATURE_TOO_LONG, r)
      else case sig_loop (byte_at type_str (type_pos + len)) (range_of type_str type_pos len) sig_init r of
        (Inl e, r) \<Rightarrow> (e, r)
      | (Inr st, r) \<Rightarrow> (sig_finish st, r))"

definition dbus_validate_signature :: "string \<Rightarrow> nat \<Rightarrow> nat \<Rightarrow> script \<Rightarrow> bool \<times> script" where
  "dbus_validate_signature str start len r =
     (if int len > int (length str) - int start then (False, r)
      else let (v, r) = dbus_validate_signature_with_reason str start len r in (v = DBUS_VALID, r))"

section \<open>Stepping through a signature\<close>

text \<open>\<open>skip_arrays\<close> is the \<open>while (*p == DBUS_TYPE_ARRAY)\<close> loop and \<open>skip_nested\<close> the scan for the
  bracket that closes depth 1. The strings are NUL terminated; a scan that meets the NUL runs
  into the assertion, which is \<open>None\<close>.\<close>

fun skip_arrays :: "string \<Rightarrow> nat \<Rightarrow> nat \<times> string" where
  "skip_arrays [] n = (n, [])"
| "skip_arrays (c # p) n = (if c = DBUS_TYPE_ARRAY then skip_arrays p (Suc n) else (n, c # p))"

fun skip_nested :: "char \<Rightarrow> char \<Rightarrow> nat \<Rightarrow> string \<Rightarrow> nat \<Rightarrow> nat option" where
  "skip_nested opn cls depth [] n = None"
| "skip_nested opn cls depth (c # p) n =
     (if c = opn then skip_nested opn cls (depth + 1) p (Suc n)
      else if c = cls then
        (if depth - 1 = 0 then Some (Suc n) else skip_nested opn cls (depth - 1) p (Suc n))
      else skip_nested opn cls depth p (Suc n))"

definition dbus_type_signature_next :: "string \<Rightarrow> nat \<Rightarrow> nat option" where
  "dbus_type_signature_next type_str type_pos =
     (case skip_arrays (drop type_pos type_str) type_pos of
        (n, []) \<Rightarrow> Some (Suc n)
      | (n, c # p) \<Rightarrow>
          if c = DBUS_STRUCT_END_CHAR \<or> c = DBUS_DICT_ENTRY_END_CHAR then None
          else if c = DBUS_STRUCT_BEGIN_CHAR
          then skip_nested DBUS_STRUCT_BEGIN_CHAR DBUS_STRUCT_END_CHAR 1 p (Suc n)
          else if c = DBUS_DICT_ENTRY_BEGIN_CHAR
          then skip_nested DBUS_DICT_ENTRY_BEGIN_CHAR DBUS_DICT_ENTRY_END_CHAR 1 p (Suc n)
          else Some (Suc n))"

text \<open>\<open>map_type_char_to_type\<close> and the first type of a signature.\<close>

definition map_type_char_to_type :: "char \<Rightarrow> char" where
  "map_type_char_to_type t =
     (if t = DBUS_STRUCT_BEGIN_CHAR then DBUS_TYPE_STRUCT
      else if t = DBUS_DICT_ENTRY_BEGIN_CHAR then DBUS_TYPE_DICT_ENTRY
      else t)"

definition dbus_first_type_in_signature :: "string \<Rightarrow> nat \<Rightarrow> char" where
  "dbus_first_type_in_signature str pos = map_type_char_to_type (byte_at str pos)"

text \<open>The iterator: \<open>it_pos\<close> is the rest of the C string from \<open>pos\<close> on.\<close>

record sig_iter =
  it_pos :: string
  it_finished :: bool
  it_in_array :: bool

definition dbus_signature_iter_init :: "string \<Rightarrow> sig_iter" where
  "dbus_signature_iter_init signature =
     \<lparr>it_pos = signature, it_finished = False, it_in_array = False\<rparr>"

definition dbus_signature_iter_get_current_type :: "sig_iter \<Rightarrow> char" where
  "dbus_signature_iter_get_current_type it = dbus_first_type_in_signature (it_pos it) 0"

definition dbus_signature_iter_get_element_type :: "sig_iter \<Rightarrow> char" where
  "dbus_signature_iter_get_element_type it =
     (if dbus_signature_iter_get_current_type it \<noteq> DBUS_TYPE_ARRAY then DBUS_TYPE_INVALID
      else dbus_first_type_in_signature (it_pos it) 1)"

definition dbus_signature_iter_next :: "sig_iter \<Rightarrow> (bool \<times> sig_iter) option" where
  "dbus_signature_iter_next it =
     (if it_finished it then Some (False, it)
      else if it_in_array it then Some (False, it\<lparr>it_finished := True\<rparr>)
      else case dbus_type_signature_next (it_pos it) 0 of
        None \<Rightarrow> None
      | Some pos \<Rightarrow>
          let it = it\<lparr>it_pos := drop pos (it_pos it)\<rparr>; c = byte_at (it_pos it) 0 in
          if c = DBUS_STRUCT_END_CHAR \<or> c = DBUS_DICT_ENTRY_END_CHAR
          then Some (False, it\<lparr>it_finished := True\<rparr>)
          else Some (c \<noteq> DBUS_TYPE_INVALID, it))"

definition dbus_signature_iter_recurse :: "sig_iter \<Rightarrow> sig_iter option" where
  "dbus_signature_iter_recurse it =
     (if \<not> dbus_type_is_container (dbus_signature_iter_get_current_type it) then None
      else let sub = it\<lparr>it_in_array := False, it_pos := drop 1 (it_pos it)\<rparr> in
        Some (if dbus_signature_iter_get_current_type it = DBUS_TYPE_ARRAY
              then sub\<lparr>it_in_array := True\<rparr> else sub))"

text \<open>\<open>dbus_signature_iter_get_signature\<close> copies the next complete type.\<close>

definition dbus_signature_iter_get_signature :: "sig_iter \<Rightarrow> script \<Rightarrow> (string option \<times> script) option" where
  "dbus_signature_iter_get_signature it r =
     (let (ok, r) = malloc r in
      if \<not> ok then Some (None, r)
      else case dbus_type_signature_next (it_pos it) 0 of
        None \<Rightarrow> None
      | Some pos \<Rightarrow>
          let (ok, r) = malloc r in
          if \<not> ok then Some (None, r)
          else let (ok, r) = malloc r in
            if \<not> ok then Some (None, r) else Some (Some (take pos (it_pos it)), r))"

definition dbus_signature_validate :: "string \<Rightarrow> script \<Rightarrow> (string + unit) \<times> script" where
  "dbus_signature_validate signature r =
     (let (reason, r) = dbus_validate_signature_with_reason signature 0 (length signature) r in
      if reason = DBUS_VALID then (Inr (), r)
      else (Inl (dbus_validity_to_error_message reason), r))"

definition dbus_signature_validate_single :: "string \<Rightarrow> script \<Rightarrow> ((string + unit) \<times> script) option" where
  "dbus_signature_validate_single signature r =
     (case dbus_signature_validate signature r of
        (Inl e, r) \<Rightarrow> Some (Inl e, r)
      | (Inr _, r) \<Rightarrow>
          let it = dbus_signature_iter_init signature;
              lose = (Inl ''Exactly one complete type required in signature'', r) in
          if dbus_signature_iter_get_current_type it = DBUS_TYPE_INVALID then Some lose
          else case dbus_signature_iter_next it of
            None \<Rightarrow> None
          | Some (b, _) \<Rightarrow> if \<not> b then Some (Inr (), r) else Some lose)"

section \<open>The grammar of signatures\<close>

text \<open>Complete types: a code that stands for itself, an array, a struct, and an array of dict
  entries (dict entries only occur as array elements).\<close>

datatype ty = T char | Arr ty | Str "ty list" | Dict char ty

fun render :: "ty \<Rightarrow> string" where
  "render (T c) = [c]"
| "render (Arr t) = CHR ''a'' # render t"
| "render (Str ts) = CHR ''('' # concat (map render ts) @ '')''"
| "render (Dict k v) = ''a{'' @ k # render v @ ''}''"

abbreviation renders :: "ty list \<Rightarrow> string" where
  "renders ts \<equiv> concat (map render ts)"

fun wf_ty :: "ty \<Rightarrow> bool" where
  "wf_ty (T c) \<longleftrightarrow> c \<in> set simple_codes"
| "wf_ty (Arr t) \<longleftrightarrow> wf_ty t"
| "wf_ty (Str ts) \<longleftrightarrow> ts \<noteq> [] \<and> (\<forall>t \<in> set ts. wf_ty t)"
| "wf_ty (Dict k v) \<longleftrightarrow> k \<in> set simple_codes \<and> dbus_type_is_basic k \<and> wf_ty v"

text \<open>The nesting the validator accepts: at most 32 array codes in a row, 32 open structs and
  32 open dict entries. \<open>arrays t\<close> counts the array codes a type starts with.\<close>

fun arrays :: "ty \<Rightarrow> nat" where
  "arrays (Arr t) = Suc (arrays t)"
| "arrays (Dict k v) = 1"
| "arrays _ = 0"

fun fits :: "nat \<Rightarrow> nat \<Rightarrow> ty \<Rightarrow> bool" where
  "fits sd dd (T c) \<longleftrightarrow> True"
| "fits sd dd (Arr t) \<longleftrightarrow> arrays (Arr t) \<le> 32 \<and> fits sd dd t"
| "fits sd dd (Str ts) \<longleftrightarrow> sd < 32 \<and> (\<forall>t \<in> set ts. fits (Suc sd) dd t)"
| "fits sd dd (Dict k v) \<longleftrightarrow> dd < 32 \<and> fits sd (Suc dd) v"

definition signature :: "string \<Rightarrow> bool" where
  "signature s \<longleftrightarrow> length s \<le> 255 \<and> (\<exists>ts. s = renders ts \<and> (\<forall>t \<in> set ts. wf_ty t \<and> fits 0 0 t))"

section \<open>Single steps of the validator\<close>

lemma simple_code_facts:
  assumes "c \<in> set simple_codes"
  shows "c \<noteq> CHR ''a''" "c \<noteq> CHR ''(''" "c \<noteq> CHR '')''" "c \<noteq> CHR ''{''" "c \<noteq> CHR ''}''"
    "dbus_type_is_valid c" "c \<noteq> CHR 0x00" "c \<noteq> CHR ''r''" "c \<noteq> CHR ''e''"
  using assms by (auto simp: simple_codes_def dbus_type_is_valid_def)

lemma bracket_not_simple [simp]:
  "CHR ''a'' \<notin> set simple_codes" "CHR ''('' \<notin> set simple_codes" "CHR '')'' \<notin> set simple_codes"
  "CHR ''{'' \<notin> set simple_codes" "CHR ''}'' \<notin> set simple_codes"
  by (simp_all add: simple_codes_def)

lemma bracket_not_valid [simp]:
  "\<not> dbus_type_is_valid CHR ''(''" "\<not> dbus_type_is_valid CHR '')''"
  "\<not> dbus_type_is_valid CHR ''{''" "\<not> dbus_type_is_valid CHR ''}''"
  "\<not> dbus_type_is_basic CHR ''a''"
  by (simp_all add: dbus_type_is_valid_def dbus_type_is_basic_def type_is_container_def)

lemmas step_defs = sig_step_def sig_switch_def sig_count_def sig_array_def sig_key_def
  push_count_def pop_count_def dbus_maximum_type_recursion_depth_def

lemma step_simple:
  "c \<in> set simple_codes \<Longrightarrow> sig_step c d st [] =
    (if last_code st = CHR ''{'' \<and> \<not> dbus_type_is_basic c then (Inl DBUS_INVALID_DICT_KEY_MUST_BE_BASIC_TYPE, [])
     else (Inr (st\<lparr>counts := Suc (fst (pop_count st)) # tl (counts st), array_depth := 0, last_code := c\<rparr>), []))"
  by (auto simp: step_defs simple_code_facts split: list.splits)

lemma step_array:
  "sig_step CHR ''a'' d st [] =
    (if array_depth st \<ge> 32 then (Inl DBUS_INVALID_EXCEEDED_MAXIMUM_ARRAY_RECURSION, [])
     else if d = CHR '')'' \<or> d = CHR ''}'' then (Inl DBUS_INVALID_MISSING_ARRAY_ELEMENT_TYPE, [])
     else if last_code st = CHR ''{'' then (Inl DBUS_INVALID_DICT_KEY_MUST_BE_BASIC_TYPE, [])
     else (Inr (st\<lparr>array_depth := Suc (array_depth st), last_code := CHR ''a''\<rparr>), []))"
  by (auto simp: step_defs)

lemma step_open_struct:
  "sig_step CHR ''('' d st [] =
    (if struct_depth st \<ge> 32 then (Inl DBUS_INVALID_EXCEEDED_MAXIMUM_STRUCT_RECURSION, [])
     else if last_code st = CHR ''{'' then (Inl DBUS_INVALID_DICT_KEY_MUST_BE_BASIC_TYPE, [])
     else (Inr (st\<lparr>struct_depth := Suc (struct_depth st), counts := 0 # counts st, array_depth := 0,
                   last_code := CHR ''(''\<rparr>), []))"
  by (auto simp: step_defs)

lemma step_close_struct:
  "sig_step CHR '')'' d st [] =
    (if struct_depth st = 0 then (Inl DBUS_INVALID_STRUCT_ENDED_BUT_NOT_STARTED, [])
     else if last_code st = CHR ''('' then (Inl DBUS_INVALID_STRUCT_HAS_NO_FIELDS, [])
     else if last_code st = CHR ''{'' then (Inl DBUS_INVALID_DICT_KEY_MUST_BE_BASIC_TYPE, [])
     else (Inr (st\<lparr>struct_depth := struct_depth st - 1,
                   counts := Suc (fst (pop_count (snd (pop_count st)))) # tl (tl (counts st)),
                   array_depth := 0, last_code := CHR '')''\<rparr>), []))"
  by (auto simp: step_defs split: list.splits)

lemma step_open_dict:
  "sig_step CHR ''{'' d st [] =
    (if last_code st \<noteq> CHR ''a'' then (Inl DBUS_INVALID_DICT_ENTRY_NOT_INSIDE_ARRAY, [])
     else if dict_entry_depth st \<ge> 32 then (Inl DBUS_INVALID_EXCEEDED_MAXIMUM_DICT_ENTRY_RECURSION, [])
     else (Inr (st\<lparr>dict_entry_depth := Suc (dict_entry_depth st), counts := 0 # counts st,
                   array_depth := 0, last_code := CHR ''{''\<rparr>), []))"
  by (auto simp: step_defs)

lemma step_close_dict:
  "dict_entry_depth st > 0 \<Longrightarrow> fst (pop_count st) = 2 \<Longrightarrow> last_code st \<noteq> CHR ''{'' \<Longrightarrow>
    sig_step CHR ''}'' d st [] =
     (Inr (st\<lparr>dict_entry_depth := dict_entry_depth st - 1,
              counts := Suc (fst (pop_count (snd (pop_count st)))) # tl (tl (counts st)),
              array_depth := 0, last_code := CHR ''}''\<rparr>), [])"
  by (auto simp: step_defs split: list.splits)

lemma step_close_dict_fails:
  "\<not> (dict_entry_depth st > 0 \<and> fst (pop_count st) = 2 \<and> last_code st \<noteq> CHR ''{'') \<Longrightarrow>
    \<exists>e. sig_step CHR ''}'' d st [] = (Inl e, [])"
  by (auto simp: step_defs split: list.splits)

lemma step_other:
  "c \<notin> set simple_codes \<Longrightarrow> c \<notin> set ''a(){}'' \<Longrightarrow> sig_step c d st [] = (Inl DBUS_INVALID_UNKNOWN_TYPECODE, [])"
  by (simp add: step_defs)

text \<open>With a script of failures a step either runs out of memory or does what it does without.\<close>

lemma push_count_cases:
  obtains "push_count n st r = (Inl DBUS_VALIDITY_UNKNOWN_OOM_ERROR, snd (malloc r))"
  | "push_count n st r = (Inr (st\<lparr>counts := n # counts st\<rparr>), snd (malloc r))"
  by (cases "fst (malloc r)") (auto simp: push_count_def split_beta)

lemma push_count_Nil [simp]: "push_count n st [] = (Inr (st\<lparr>counts := n # counts st\<rparr>), [])"
  by (simp add: push_count_def)

lemma sig_switch_script:
  "fst (sig_switch c st r) = Inl DBUS_VALIDITY_UNKNOWN_OOM_ERROR \<or> fst (sig_switch c st r) = fst (sig_switch c st [])"
proof -
  consider "c = CHR ''(''" | "c = CHR ''{''" | "c \<noteq> CHR ''(''" "c \<noteq> CHR ''{''" by blast
  then show ?thesis
  proof cases
    case 1
    then show ?thesis
      by (cases rule: push_count_cases [of 0 "st\<lparr>struct_depth := struct_depth st + 1\<rparr>" r])
        (simp_all add: sig_switch_def)
  next
    case 2
    then show ?thesis
      by (cases rule: push_count_cases [of 0 "st\<lparr>dict_entry_depth := dict_entry_depth st + 1\<rparr>" r])
        (simp_all add: sig_switch_def)
  next
    case 3
    then have "fst (sig_switch c st r) = fst (sig_switch c st [])"
      by (simp add: sig_switch_def Let_def split: prod.split)
    then show ?thesis ..
  qed
qed

lemma sig_count_script:
  "fst (sig_count c st r) = Inl DBUS_VALIDITY_UNKNOWN_OOM_ERROR \<or> fst (sig_count c st r) = fst (sig_count c st [])"
  by (cases rule: push_count_cases [of "Suc (fst (pop_count st))" "snd (pop_count st)" r])
    (simp_all add: sig_count_def split_beta)

lemma sig_Nil: "snd (sig_switch c st []) = []" "snd (sig_count c st []) = []"
  by (simp_all add: sig_switch_def sig_count_def Let_def split: prod.splits)

lemma sig_step_Nil: "snd (sig_step c d st []) = []"
  using sig_Nil by (auto simp: sig_step_def split: prod.splits sum.splits) (metis snd_conv)+

lemma sig_step_script:
  "fst (sig_step c d st r) = Inl DBUS_VALIDITY_UNKNOWN_OOM_ERROR \<or> fst (sig_step c d st r) = fst (sig_step c d st [])"
proof (cases "fst (sig_switch c st r)")
  case (Inl e)
  then show ?thesis using sig_switch_script [of c st r]
    by (auto simp: sig_step_def split: prod.splits sum.splits)
next
  case (Inr st1)
  then have 1: "fst (sig_switch c st []) = Inr st1" using sig_switch_script [of c st r] by auto
  obtain r1 where r1: "sig_switch c st r = (Inr st1, r1)" using Inr by (metis prod.collapse)
  have 0: "sig_switch c st [] = (Inr st1, [])" using 1 sig_Nil(1) by (metis prod.collapse)
  show ?thesis using sig_count_script [of c st1 r1] sig_Nil(2) [of c st1]
    by (auto simp: sig_step_def r1 0 split: prod.splits sum.splits)
qed

section \<open>Every well-formed signature is accepted\<close>

lemma render_not_Nil [simp]: "render t \<noteq> []"
  by (cases t) auto

lemma last_render:
  "wf_ty t \<Longrightarrow> last (render t) \<noteq> CHR ''a'' \<and> last (render t) \<noteq> CHR ''('' \<and> last (render t) \<noteq> CHR ''{''"
  by (induction t) (auto simp: simple_code_facts)

lemma hd_render:
  "wf_ty t \<Longrightarrow> \<exists>c cs. render t = c # cs \<and> c \<noteq> CHR '')'' \<and> c \<noteq> CHR ''}''"
  by (cases t) (auto simp: simple_code_facts)

text \<open>The validator's state after one complete type: one more element counted, no array code
  pending.\<close>

definition after_type :: "string \<Rightarrow> sig_state \<Rightarrow> sig_state" where
  "after_type s st = st\<lparr>counts := Suc (hd (counts st)) # tl (counts st), array_depth := 0, last_code := last s\<rparr>"

definition keyed :: "sig_state \<Rightarrow> ty \<Rightarrow> bool" where
  "keyed st t \<longleftrightarrow> last_code st = CHR ''{'' \<longrightarrow> (\<exists>k. t = T k \<and> dbus_type_is_basic k)"

lemma pop_Cons [simp]: "counts st = n # ns \<Longrightarrow> pop_count st = (n, st\<lparr>counts := ns\<rparr>)"
  by (simp add: pop_count_def)

lemma run_type:
  assumes "wf_ty t" "fits (struct_depth st) (dict_entry_depth st) t" "array_depth st + arrays t \<le> 32"
    "keyed st t" "counts st \<noteq> []"
  shows "sig_loop a (render t @ p) st [] = sig_loop a p (after_type (render t) st) []"
  using assms
proof (induction t arbitrary: st p)
  case (T c)
  then show ?case
    by (auto simp: step_simple keyed_def after_type_def neq_Nil_conv)
next
  case (Arr t)
  let ?st = "st\<lparr>array_depth := Suc (array_depth st), last_code := CHR ''a''\<rparr>"
  obtain c cs where hd: "render t = c # cs" "c \<noteq> CHR '')''" "c \<noteq> CHR ''}''"
    using hd_render Arr.prems(1) by fastforce
  have "sig_loop a (render (Arr t) @ p) st [] = sig_loop a (render t @ p) ?st []"
    using Arr.prems hd by (simp add: step_array keyed_def)
  also have "\<dots> = sig_loop a p (after_type (render t) ?st) []"
    using Arr.prems by (intro Arr.IH) (auto simp: keyed_def)
  finally show ?case by (simp add: after_type_def)
next
  case (Str ts)
  have run: "sig_loop a (renders us @ p) st' [] =
      sig_loop a p (if us = [] then st' else st'\<lparr>counts := (hd (counts st') + length us) # tl (counts st'),
        array_depth := 0, last_code := last (renders us)\<rparr>) []"
    if "set us \<subseteq> set ts" "counts st' \<noteq> []" "array_depth st' = 0" "last_code st' \<noteq> CHR ''{''"
      "struct_depth st' = Suc (struct_depth st)" "dict_entry_depth st' = dict_entry_depth st" for us p st'
    using that
  proof (induction us arbitrary: st' p)
    case (Cons u us)
    have wf: "wf_ty u" using Cons.prems(1) Str.prems(1) by auto
    have ar: "arrays u \<le> 32" using Cons.prems(1) Str.prems(2) by (cases u) auto
    have "sig_loop a (render u @ renders us @ p) st' [] =
        sig_loop a (renders us @ p) (after_type (render u) st') []"
      using Cons.prems Str.prems wf ar by (intro Str.IH) (auto simp: keyed_def)
    also have "\<dots> = sig_loop a p (if us = [] then after_type (render u) st'
        else (after_type (render u) st')\<lparr>counts := (hd (counts st') + Suc (length us)) # tl (counts st'),
          array_depth := 0, last_code := last (renders us)\<rparr>) []"
      using Cons.IH [of "after_type (render u) st'"] Cons.prems last_render [OF wf]
      by (simp add: after_type_def)
    finally show ?case by (cases us) (auto simp: after_type_def)
  qed simp
  let ?st = "st\<lparr>struct_depth := Suc (struct_depth st), counts := 0 # counts st, array_depth := 0,
    last_code := CHR ''(''\<rparr>"
  have "sig_loop a (render (Str ts) @ p) st [] = sig_loop a (renders ts @ '')'' @ p) ?st []"
    using Str.prems by (simp add: step_open_struct keyed_def)
  also have "\<dots> = sig_loop a ('')'' @ p) (?st\<lparr>counts := length ts # counts st, array_depth := 0,
      last_code := last (renders ts)\<rparr>) []"
    using run [of ts ?st] Str.prems by simp
  also have "\<dots> = sig_loop a p (after_type (render (Str ts)) st) []"
  proof -
    obtain us u where ts: "ts = us @ [u]" using Str.prems(1) by (cases ts rule: rev_cases) auto
    then have "last (renders ts) = last (render u)" by simp
    then have "last (renders ts) \<noteq> CHR ''(''" "last (renders ts) \<noteq> CHR ''{''"
      using last_render [of u] Str.prems(1) ts by auto
    then show ?thesis using Str.prems(5)
      by (auto simp: step_close_struct after_type_def neq_Nil_conv)
  qed
  finally show ?case .
next
  case (Dict k v)
  let ?st = "st\<lparr>dict_entry_depth := Suc (dict_entry_depth st), counts := 0 # counts st, array_depth := 0,
    last_code := CHR ''{''\<rparr>"
  have k: "k \<in> set simple_codes" "dbus_type_is_basic k" using Dict.prems(1) by simp_all
  have ar: "arrays v \<le> 32" using Dict.prems(2) by (cases v) auto
  have "sig_loop a (render (Dict k v) @ p) st [] = sig_loop a (k # render v @ ''}'' @ p) ?st []"
    using Dict.prems by (simp add: step_array step_open_dict keyed_def)
  also have "\<dots> = sig_loop a (render v @ ''}'' @ p) (?st\<lparr>counts := 1 # counts st, last_code := k\<rparr>) []"
    using k by (cases st) (simp add: step_simple)
  also have "\<dots> = sig_loop a (''}'' @ p) (after_type (render v) (?st\<lparr>counts := 1 # counts st, last_code := k\<rparr>)) []"
    using Dict.prems ar simple_code_facts(4) [OF k(1)] by (intro Dict.IH) (auto simp: keyed_def)
  also have "\<dots> = sig_loop a p (after_type (render (Dict k v)) st) []"
    using last_render [of v] Dict.prems(1,5)
    by (auto simp: step_close_dict after_type_def neq_Nil_conv numeral_2_eq_2)
  finally show ?case .
qed

lemma run_types:
  assumes "\<forall>t \<in> set ts. wf_ty t \<and> fits (struct_depth st) (dict_entry_depth st) t"
    "array_depth st = 0" "last_code st \<noteq> CHR ''{''" "counts st \<noteq> []"
  shows "\<exists>n c. sig_loop a (renders ts) st [] = (Inr (st\<lparr>counts := n # tl (counts st), last_code := c\<rparr>), [])"
  using assms
proof (induction ts arbitrary: st)
  case Nil
  then show ?case by (auto simp: neq_Nil_conv intro!: exI [of _ "hd (counts st)"] exI [of _ "last_code st"])
next
  case (Cons t ts)
  have ar: "arrays t \<le> 32" using Cons.prems(1) by (cases t) auto
  have "sig_loop a (render t @ renders ts) st [] = sig_loop a (renders ts) (after_type (render t) st) []"
    using Cons.prems ar by (intro run_type) (auto simp: keyed_def)
  moreover obtain n c where "sig_loop a (renders ts) (after_type (render t) st) [] =
      (Inr ((after_type (render t) st)\<lparr>counts := n # tl (counts (after_type (render t) st)), last_code := c\<rparr>), [])"
    using Cons.IH [of "after_type (render t) st"] Cons.prems last_render [of t] by (auto simp: after_type_def)
  ultimately show ?case using Cons.prems(2) by (cases st) (auto simp: after_type_def)
qed

lemma signature_accepted:
  assumes "signature (range_of str pos len)" "pos + len \<le> length str"
  shows "dbus_validate_signature_with_reason str pos len [] = (DBUS_VALID, [])"
proof -
  obtain ts where ts: "range_of str pos len = renders ts" "\<forall>t \<in> set ts. wf_ty t \<and> fits 0 0 t"
    using assms(1) by (auto simp: signature_def)
  have len: "len \<le> 255" using assms by (simp add: signature_def range_of_def)
  obtain n c where "sig_loop (byte_at str (pos + len)) (renders ts) sig_init [] =
      (Inr (sig_init\<lparr>counts := n # tl (counts sig_init), last_code := c\<rparr>), [])"
    using run_types [of ts sig_init "byte_at str (pos + len)"] ts(2) by (fastforce simp: sig_init_def)
  with ts(1) len show ?thesis
    by (simp add: dbus_validate_signature_with_reason_def dbus_maximum_signature_length_def
        sig_finish_def sig_init_def)
qed

section \<open>What is accepted, when the brackets match\<close>

text \<open>The validator keeps a counter per kind of bracket, not a stack of open brackets.
  \<open>matched\<close> is the check it leaves out: each closing bracket closes the innermost open one.\<close>

fun matched :: "string \<Rightarrow> string \<Rightarrow> bool" where
  "matched ks [] \<longleftrightarrow> ks = []"
| "matched ks (c # s) \<longleftrightarrow>
     (if c = CHR ''('' \<or> c = CHR ''{'' then matched (c # ks) s
      else if c = CHR '')'' then ks \<noteq> [] \<and> hd ks = CHR ''('' \<and> matched (tl ks) s
      else if c = CHR ''}'' then ks \<noteq> [] \<and> hd ks = CHR ''{'' \<and> matched (tl ks) s
      else matched ks s)"

text \<open>A configuration of the validator: the types completed inside the innermost open bracket,
  the array codes pending before the next one, and a frame per open bracket with the types
  completed and the array codes pending when it was opened.\<close>

type_synonym frame = "ty list \<times> nat \<times> char"

abbreviation bracket :: "frame \<Rightarrow> char" where "bracket f \<equiv> snd (snd f)"

fun opened :: "frame list \<Rightarrow> string" where
  "opened [] = []"
| "opened ((ts, m, c) # fs) = opened fs @ renders ts @ replicate m CHR ''a'' @ [c]"

definition structs :: "frame list \<Rightarrow> nat" where
  "structs fs = length (filter (\<lambda>f. bracket f = CHR ''('') fs)"

definition dicts :: "frame list \<Rightarrow> nat" where
  "dicts fs = length (filter (\<lambda>f. bracket f = CHR ''{'') fs)"

definition in_dict :: "frame list \<Rightarrow> bool" where
  "in_dict fs \<longleftrightarrow> fs \<noteq> [] \<and> bracket (hd fs) = CHR ''{''"

definition good_types :: "frame list \<Rightarrow> ty list \<Rightarrow> bool" where
  "good_types fs ts \<longleftrightarrow> (\<forall>t \<in> set ts. wf_ty t \<and> fits (structs fs) (dicts fs) t) \<and>
     (in_dict fs \<and> ts \<noteq> [] \<longrightarrow> (\<exists>k. hd ts = T k \<and> dbus_type_is_basic k))"

fun frames_ok :: "frame list \<Rightarrow> bool" where
  "frames_ok [] \<longleftrightarrow> True"
| "frames_ok ((ts, m, c) # fs) \<longleftrightarrow> frames_ok fs \<and> good_types fs ts \<and> (in_dict fs \<longrightarrow> ts \<noteq> []) \<and> m \<le> 32 \<and>
     (c = CHR ''('' \<and> structs fs < 32 \<or> c = CHR ''{'' \<and> m > 0 \<and> dicts fs < 32)"

definition tracks :: "sig_state \<Rightarrow> frame list \<Rightarrow> ty list \<Rightarrow> nat \<Rightarrow> bool" where
  "tracks st fs ts n \<longleftrightarrow>
     frames_ok fs \<and> good_types fs ts \<and> (in_dict fs \<and> n > 0 \<longrightarrow> ts \<noteq> []) \<and> n \<le> 32 \<and>
     counts st = length ts # map (\<lambda>f. length (fst f)) fs \<and>
     struct_depth st = structs fs \<and> dict_entry_depth st = dicts fs \<and> array_depth st = n \<and>
     (last_code st = CHR ''a'' \<longleftrightarrow> n > 0) \<and>
     (last_code st = CHR ''('' \<longleftrightarrow> n = 0 \<and> ts = [] \<and> fs \<noteq> [] \<and> bracket (hd fs) = CHR ''('') \<and>
     (last_code st = CHR ''{'' \<longleftrightarrow> n = 0 \<and> ts = [] \<and> fs \<noteq> [] \<and> bracket (hd fs) = CHR ''{'')"

definition wrap :: "nat \<Rightarrow> ty \<Rightarrow> ty" where
  "wrap n t = (Arr ^^ n) t"

lemma wrap_simps [simp]: "wrap 0 t = t" "wrap (Suc n) t = Arr (wrap n t)"
  by (simp_all add: wrap_def)

lemma render_wrap [simp]: "render (wrap n t) = replicate n CHR ''a'' @ render t"
  by (induction n) simp_all

lemma wf_wrap [simp]: "wf_ty (wrap n t) = wf_ty t"
  by (induction n) simp_all

lemma arrays_wrap [simp]: "arrays (wrap n t) = n + arrays t"
  by (induction n) simp_all

lemma fits_wrap: "n + arrays t \<le> 32 \<Longrightarrow> fits sd dd (wrap n t) = fits sd dd t"
  by (induction n) simp_all

lemma structs_simps [simp]:
  "structs [] = 0" "structs (f # fs) = (if bracket f = CHR ''('' then 1 else 0) + structs fs"
  "dicts [] = 0" "dicts (f # fs) = (if bracket f = CHR ''{'' then 1 else 0) + dicts fs"
  by (simp_all add: structs_def dicts_def)

lemma in_dict_simps [simp]: "\<not> in_dict []" "in_dict (f # fs) \<longleftrightarrow> bracket f = CHR ''{''"
  by (simp_all add: in_dict_def)

lemma good_types_Nil [simp]: "good_types fs []"
  by (simp add: good_types_def)

lemma good_types_append:
  "good_types fs ts \<Longrightarrow> wf_ty t \<Longrightarrow> fits (structs fs) (dicts fs) t \<Longrightarrow>
    (in_dict fs \<and> ts = [] \<longrightarrow> (\<exists>k. t = T k \<and> dbus_type_is_basic k)) \<Longrightarrow> good_types fs (ts @ [t])"
  by (cases ts) (auto simp: good_types_def)

text \<open>One step of a configuration.\<close>

lemma track_simple:
  assumes st: "tracks st fs ts n" and c: "c \<in> set simple_codes"
    and step: "sig_step c d st [] = (Inr st', [])"
  shows "tracks st' fs (ts @ [wrap n (T c)]) 0"
proof -
  have key: "in_dict fs \<and> ts = [] \<longrightarrow> n = 0 \<and> dbus_type_is_basic c"
    using st step c by (auto simp: tracks_def step_simple in_dict_def split: if_splits)
  have "good_types fs (ts @ [wrap n (T c)])"
    using st c key by (intro good_types_append) (auto simp: tracks_def fits_wrap)
  moreover have "st' = st\<lparr>counts := Suc (fst (pop_count st)) # tl (counts st), array_depth := 0, last_code := c\<rparr>"
    using step c by (simp add: step_simple split: if_splits)
  ultimately show ?thesis using st simple_code_facts [OF c] by (auto simp: tracks_def)
qed

lemma track_array:
  assumes st: "tracks st fs ts n" and step: "sig_step CHR ''a'' d st [] = (Inr st', [])"
  shows "tracks st' fs ts (Suc n) \<and> d \<noteq> CHR '')'' \<and> d \<noteq> CHR ''}''"
proof -
  have d: "array_depth st < 32" "d \<noteq> CHR '')''" "d \<noteq> CHR ''}''" "last_code st \<noteq> CHR ''{''"
    and st': "st' = st\<lparr>array_depth := Suc (array_depth st), last_code := CHR ''a''\<rparr>"
    using step unfolding step_array by (simp_all split: if_split_asm)
  have "in_dict fs \<longrightarrow> ts \<noteq> []" using st d(4) unfolding tracks_def in_dict_def by blast
  with st d show ?thesis unfolding st' tracks_def by simp
qed

lemma track_open_struct:
  assumes st: "tracks st fs ts n" and step: "sig_step CHR ''('' d st [] = (Inr st', [])"
  shows "tracks st' ((ts, n, CHR ''('') # fs) [] 0"
proof -
  have d: "struct_depth st < 32" "last_code st \<noteq> CHR ''{''"
    and st': "st' = st\<lparr>struct_depth := Suc (struct_depth st), counts := 0 # counts st, array_depth := 0,
      last_code := CHR ''(''\<rparr>"
    using step unfolding step_open_struct by (simp_all split: if_split_asm)
  have "in_dict fs \<longrightarrow> ts \<noteq> []" using st d(2) unfolding tracks_def in_dict_def by blast
  with st d show ?thesis unfolding st' tracks_def by simp
qed

lemma track_open_dict:
  assumes st: "tracks st fs ts n" and step: "sig_step CHR ''{'' d st [] = (Inr st', [])"
  shows "tracks st' ((ts, n, CHR ''{'') # fs) [] 0"
proof -
  have d: "dict_entry_depth st < 32" "last_code st = CHR ''a''"
    and st': "st' = st\<lparr>dict_entry_depth := Suc (dict_entry_depth st), counts := 0 # counts st,
      array_depth := 0, last_code := CHR ''{''\<rparr>"
    using step unfolding step_open_dict by (simp_all split: if_split_asm)
  have "n > 0" "in_dict fs \<longrightarrow> ts \<noteq> []" using st d(2) unfolding tracks_def by blast+
  with st d show ?thesis unfolding st' tracks_def by simp
qed

lemma track_close_struct:
  assumes st: "tracks st ((us, m, CHR ''('') # fs) ts 0" and step: "sig_step CHR '')'' d st [] = (Inr st', [])"
  shows "tracks st' fs (us @ [wrap m (Str ts)]) 0"
proof -
  have ne: "ts \<noteq> []" using st step by (auto simp: tracks_def step_close_struct split: if_splits)
  have "good_types fs (us @ [wrap m (Str ts)])"
    using st ne by (intro good_types_append) (auto simp: tracks_def fits_wrap good_types_def)
  then show ?thesis using st step ne by (auto simp: tracks_def step_close_struct split: if_splits)
qed

lemma track_close_dict:
  assumes st: "tracks st ((us, m, CHR ''{'') # fs) ts 0" and step: "sig_step CHR ''}'' d st [] = (Inr st', [])"
  shows "\<exists>k v. ts = [T k, v] \<and> tracks st' fs (us @ [wrap (m - 1) (Dict k v)]) 0"
proof -
  have c: "dict_entry_depth st > 0 \<and> fst (pop_count st) = 2 \<and> last_code st \<noteq> CHR ''{''"
    using step step_close_dict_fails [of st d] by (metis Pair_inject sum.distinct(1))
  then have "length ts = 2" using st by (simp add: tracks_def)
  then obtain t v where "ts = [t, v]" by (auto simp: numeral_2_eq_2 length_Suc_conv)
  then obtain k where ts: "ts = [T k, v]" "dbus_type_is_basic k"
    using st by (auto simp: tracks_def good_types_def)
  have "good_types fs (us @ [wrap (m - 1) (Dict k v)])"
    using st ts by (intro good_types_append) (auto simp: tracks_def fits_wrap good_types_def)
  moreover have "st' = st\<lparr>dict_entry_depth := dict_entry_depth st - 1,
      counts := Suc (fst (pop_count (snd (pop_count st)))) # tl (tl (counts st)),
      array_depth := 0, last_code := CHR ''}''\<rparr>"
    using step step_close_dict [of st d] c by auto
  ultimately show ?thesis using st ts by (auto simp: tracks_def)
qed

lemma step_codes:
  "sig_step c d st [] = (Inr st', []) \<Longrightarrow> c \<in> set simple_codes \<or> c \<in> set ''a(){}''"
  using step_other by force

lemma run_matched:
  assumes "sig_loop a s st [] = (Inr st', [])" "tracks st fs ts n" "matched (map bracket fs) s"
    "n > 0 \<and> s \<noteq> [] \<longrightarrow> hd s \<noteq> CHR '')'' \<and> hd s \<noteq> CHR ''}''"
  shows "\<exists>ts' n'. tracks st' [] ts' n' \<and> opened fs @ renders ts @ replicate n CHR ''a'' @ s =
    renders ts' @ replicate n' CHR ''a''"
  using assms
proof (induction s arbitrary: st fs ts n)
  case Nil
  then show ?case by auto
next
  case (Cons c p)
  define d where "d = (case p of [] \<Rightarrow> a | d # _ \<Rightarrow> d)"
  obtain st1 where step: "sig_step c d st [] = (Inr st1, [])" and rest: "sig_loop a p st1 [] = (Inr st', [])"
    using Cons.prems(1) sig_step_Nil [of c d st]
    by (auto simp: d_def split: prod.splits sum.splits)
  consider "c \<in> set simple_codes" | "c = CHR ''a''" | "c = CHR ''(''" | "c = CHR ''{''" | "c = CHR '')''"
    | "c = CHR ''}''" using step_codes [OF step] by auto
  then show ?case
  proof cases
    case 1
    then show ?thesis
      using Cons.IH [OF rest track_simple [OF Cons.prems(2) 1 step]] Cons.prems(3) simple_code_facts [OF 1] by simp
  next
    case 2
    note t = track_array [OF Cons.prems(2) step [unfolded 2]]
    have "p \<noteq> [] \<longrightarrow> hd p = d" by (auto simp: d_def split: list.splits)
    then show ?thesis using Cons.IH [OF rest conjunct1 [OF t]] t Cons.prems(3)
      by (auto simp: 2 replicate_app_Cons_same)
  next
    case 3
    then show ?thesis using Cons.IH [OF rest track_open_struct [OF Cons.prems(2) step [unfolded 3]]] Cons.prems(3)
      by simp
  next
    case 4
    then show ?thesis using Cons.IH [OF rest track_open_dict [OF Cons.prems(2) step [unfolded 4]]] Cons.prems(3)
      by simp
  next
    case 5
    then obtain us m gs where fs: "fs = (us, m, CHR ''('') # gs" using Cons.prems(3) by (cases fs) auto
    have "n = 0" using Cons.prems(4) 5 by auto
    then show ?thesis using Cons.IH [OF rest track_close_struct [OF _ step [unfolded 5]]] Cons.prems(2,3)
      by (simp add: fs 5)
  next
    case 6
    then obtain us m gs where fs: "fs = (us, m, CHR ''{'') # gs" using Cons.prems(3) by (cases fs) auto
    have n: "n = 0" using Cons.prems(4) 6 by auto
    then have st: "tracks st ((us, m, CHR ''{'') # gs) ts 0" using Cons.prems(2) fs by simp
    obtain k v where t: "ts = [T k, v]" "tracks st1 gs (us @ [wrap (m - 1) (Dict k v)]) 0"
      using track_close_dict [OF st step [unfolded 6]] by blast
    obtain m' where m: "m = Suc m'" using st by (cases m) (auto simp: tracks_def)
    have "matched (map bracket gs) p" using Cons.prems(3) by (simp add: fs 6)
    from Cons.IH [OF rest t(2) this] obtain ts' n' where
      "tracks st' [] ts' n'" "opened gs @ renders (us @ [wrap (m - 1) (Dict k v)]) @ p = renders ts' @ replicate n' CHR ''a''"
      by auto
    then show ?thesis by (intro exI [of _ ts'] exI [of _ n']) (simp add: fs n t(1) 6 m replicate_app_Cons_same)
  qed
qed

lemma matched_simple: "set s \<inter> set ''(){}'' = {} \<Longrightarrow> matched ks (s @ p) = matched ks p"
  by (induction s) auto

lemma matched_render: "wf_ty t \<Longrightarrow> matched ks (render t @ p) = matched ks p"
proof (induction t arbitrary: ks p)
  case (T c)
  then show ?case by (auto simp: simple_code_facts)
next
  case (Str ts)
  have "matched ks' (renders us @ p') = matched ks' p'" if "set us \<subseteq> set ts" for us ks' p'
    using that
  proof (induction us)
    case (Cons u us)
    have "wf_ty u" using Cons.prems Str.prems by simp
    then show ?case using Cons Str.IH [of u] by simp
  qed simp
  then show ?case by simp
next
  case (Dict k v)
  then show ?case using simple_code_facts [of k] by simp
qed simp

lemma matched_renders: "\<forall>t \<in> set ts. wf_ty t \<Longrightarrow> matched ks (renders ts) = (ks = [])"
  using matched_render by (induction ts) auto

lemma step_parts_error:
  "fst (push_count n st r) \<noteq> Inl DBUS_VALID" "fst (sig_switch c st r) \<noteq> Inl DBUS_VALID"
  "fst (sig_count c st r) \<noteq> Inl DBUS_VALID" "sig_array c d st \<noteq> Inl DBUS_VALID" "sig_key c st \<noteq> Inl DBUS_VALID"
proof -
  show 1: "fst (push_count n st r) \<noteq> Inl DBUS_VALID" for n st r
    by (simp add: push_count_def split: prod.split)
  show "fst (sig_switch c st r) \<noteq> Inl DBUS_VALID"
    by (simp add: sig_switch_def Let_def 1 split: prod.split)
  show "fst (sig_count c st r) \<noteq> Inl DBUS_VALID"
    by (simp add: sig_count_def 1 split: prod.split)
qed (simp_all add: sig_array_def sig_key_def)

lemma sig_step_error: "fst (sig_step c d st r) \<noteq> Inl DBUS_VALID"
  using step_parts_error
  by (auto simp: sig_step_def split: prod.splits sum.splits) (metis fst_conv)+

lemma sig_loop_error: "fst (sig_loop a s st r) \<noteq> Inl DBUS_VALID"
proof (induction s arbitrary: st r)
  case (Cons c p)
  then show ?case using sig_step_error [of c "case p of [] \<Rightarrow> a | d # _ \<Rightarrow> d" st r]
    by (auto split: prod.splits sum.splits)
qed simp

lemma valid_matched_signature:
  assumes "dbus_validate_signature_with_reason str pos len [] = (DBUS_VALID, [])"
    "matched [] (range_of str pos len)" "pos + len \<le> length str"
  shows "signature (range_of str pos len)"
proof -
  let ?s = "range_of str pos len"
  have len: "len \<le> 255" using assms(1)
    by (simp add: dbus_validate_signature_with_reason_def dbus_maximum_signature_length_def split: if_splits)
  then obtain st' where run: "sig_loop (byte_at str (pos + len)) ?s sig_init [] = (Inr st', [])"
    and fin: "sig_finish st' = DBUS_VALID"
    using assms(1) sig_loop_error [of "byte_at str (pos + len)" ?s sig_init "[]"]
    by (auto simp: dbus_validate_signature_with_reason_def dbus_maximum_signature_length_def
        split: prod.splits sum.splits)
  have "tracks sig_init [] [] 0" by (simp add: tracks_def sig_init_def)
  from run_matched [OF run this] assms(2) obtain ts n
    where ts: "tracks st' [] ts n" "?s = renders ts @ replicate n CHR ''a''" by auto
  have "n = 0" using fin ts(1) by (simp add: sig_finish_def tracks_def split: if_splits)
  moreover have "length ?s \<le> 255" using len assms(3) by (simp add: range_of_def)
  ultimately show ?thesis using ts by (auto simp: signature_def tracks_def good_types_def)
qed

text \<open>Allocation failures never turn a verdict around.\<close>

lemma sig_loop_script:
  "fst (sig_loop a s st r) = Inl DBUS_VALIDITY_UNKNOWN_OOM_ERROR \<or> fst (sig_loop a s st r) = fst (sig_loop a s st [])"
proof (induction s arbitrary: st r)
  case (Cons c p)
  let ?d = "case p of [] \<Rightarrow> a | d # _ \<Rightarrow> d"
  consider "fst (sig_step c ?d st r) = Inl DBUS_VALIDITY_UNKNOWN_OOM_ERROR"
    | "fst (sig_step c ?d st r) = fst (sig_step c ?d st [])" using sig_step_script by blast
  then show ?case
  proof cases
    case 1
    then obtain r1 where "sig_step c ?d st r = (Inl DBUS_VALIDITY_UNKNOWN_OOM_ERROR, r1)"
      by (metis prod.collapse)
    then show ?thesis by simp
  next
    case 2
    obtain x where x: "sig_step c ?d st [] = (x, [])" using sig_step_Nil by (metis prod.collapse)
    obtain r1 where r1: "sig_step c ?d st r = (x, r1)" using 2 x by (metis fst_conv prod.collapse)
    show ?thesis using Cons.IH by (cases x) (simp_all add: x r1)
  qed
qed simp

lemma sig_loop_Nil: "snd (sig_loop a s st []) = []"
proof (induction s arbitrary: st)
  case (Cons c p)
  show ?case using sig_step_Nil [of c "case p of [] \<Rightarrow> a | d # _ \<Rightarrow> d" st] Cons.IH
    by (auto split: prod.splits sum.splits)
qed simp

lemma validate_script:
  "fst (dbus_validate_signature_with_reason str pos len r) = DBUS_VALIDITY_UNKNOWN_OOM_ERROR \<or>
   fst (dbus_validate_signature_with_reason str pos len r) = fst (dbus_validate_signature_with_reason str pos len [])"
  using sig_loop_script [of "byte_at str (pos + len)" "range_of str pos len" sig_init "snd (malloc r)"]
  by (auto simp: dbus_validate_signature_with_reason_def split: prod.splits sum.splits)

lemma validate_Nil: "snd (dbus_validate_signature_with_reason str pos len []) = []"
  using sig_loop_Nil [of "byte_at str (pos + len)" "range_of str pos len" sig_init]
  by (auto simp: dbus_validate_signature_with_reason_def split: prod.splits sum.splits)

text \<open>C10: for every pattern of allocation failures, the signature validator answers out of memory
  or its verdict without failures; and among the byte strings whose brackets match it accepts
  exactly the sequences of complete types (arrays with an element type, structs with a field, dict
  entries with a basic key and one value, only in arrays) of at most 255 bytes whose nesting stays
  within 32 structs, 32 dict entries and 32 array codes in a row.\<close>

theorem signature_grammar:
  assumes "pos + len \<le> length str"
  shows "(fst (dbus_validate_signature_with_reason str pos len []) = DBUS_VALID \<and>
            matched [] (range_of str pos len)) = signature (range_of str pos len) \<and>
    (fst (dbus_validate_signature_with_reason str pos len r) = DBUS_VALIDITY_UNKNOWN_OOM_ERROR \<or>
      fst (dbus_validate_signature_with_reason str pos len r) =
      fst (dbus_validate_signature_with_reason str pos len []))"
proof -
  have "fst (dbus_validate_signature_with_reason str pos len []) = DBUS_VALID \<Longrightarrow>
      dbus_validate_signature_with_reason str pos len [] = (DBUS_VALID, [])"
    using validate_Nil by (metis prod.collapse)
  moreover have "matched [] (range_of str pos len)" if "signature (range_of str pos len)"
    using that matched_renders by (auto simp: signature_def)
  ultimately show ?thesis
    using signature_accepted [OF _ assms] valid_matched_signature [OF _ _ assms] validate_script by fastforce
qed

lemma signature_grammar_witness:
  "signature ''a{sv}(i)'' \<and> fst (dbus_validate_signature_with_reason ''a{sv}(i)'' 0 8 [True, False]) = DBUS_VALIDITY_UNKNOWN_OOM_ERROR"
proof -
  have "fst (dbus_validate_signature_with_reason ''a{sv}(i)'' 0 8 []) = DBUS_VALID \<and>
      matched [] (range_of ''a{sv}(i)'' 0 8)" by code_simp
  moreover have "fst (dbus_validate_signature_with_reason ''a{sv}(i)'' 0 8 [True, False]) = DBUS_VALIDITY_UNKNOWN_OOM_ERROR"
    by code_simp
  ultimately show ?thesis
    using signature_grammar [of 0 8 "''a{sv}(i)''" "[True, False]"] by (simp add: range_of_def)
qed

text \<open>C11: the bracket check is really missing. The validator accepts a string that closes a dict
  entry with a parenthesis and a struct with a brace, which no sequence of complete types renders,
  and whose dict entry the iterator then finds to hold a key and no value; and since any code but
  an array code restarts the count of array codes, it accepts 40 nested arrays where 32 is the
  documented limit.\<close>

lemma signature_mismatched_brackets:
  "dbus_validate_signature_with_reason ''(ia{s)}'' 0 7 [] = (DBUS_VALID, []) \<and>
   \<not> signature ''(ia{s)}'' \<and>
   map_option fst (dbus_signature_iter_next (dbus_signature_iter_init ''s)}'')) = Some False \<and>
   dbus_validate_signature_with_reason
     (replicate 20 CHR ''a'' @ ''('' @ replicate 20 CHR ''a'' @ ''i)'') 0 43 [] = (DBUS_VALID, [])"
proof -
  have "\<not> matched [] ''(ia{s)}''" by simp
  then have "\<not> signature ''(ia{s)}''"
    unfolding signature_def using matched_renders by metis
  moreover have "dbus_validate_signature_with_reason ''(ia{s)}'' 0 7 [] = (DBUS_VALID, [])" by code_simp
  moreover have "map_option fst (dbus_signature_iter_next (dbus_signature_iter_init ''s)}'')) = Some False"
    by code_simp
  moreover have "dbus_validate_signature_with_reason
     (replicate 20 CHR ''a'' @ ''('' @ replicate 20 CHR ''a'' @ ''i)'') 0 43 [] = (DBUS_VALID, [])" by code_simp
  ultimately show ?thesis by blast
qed

section \<open>The iterator\<close>

fun type_code :: "ty \<Rightarrow> char" where
  "type_code (T c) = c"
| "type_code (Arr t) = CHR ''a''"
| "type_code (Str ts) = CHR ''r''"
| "type_code (Dict k v) = CHR ''a''"

lemma skip_nested_free:
  "opn \<notin> set s \<Longrightarrow> cls \<notin> set s \<Longrightarrow> skip_nested opn cls d (s @ p) n = skip_nested opn cls d p (n + length s)"
  by (induction s arbitrary: n) auto

lemma skip_nested_render:
  assumes "(opn, cls) = (CHR ''('', CHR '')'') \<or> (opn, cls) = (CHR ''{'', CHR ''}'')" "d > 0" "wf_ty t"
  shows "skip_nested opn cls d (render t @ p) n = skip_nested opn cls d p (n + length (render t))"
  using assms(2,3)
proof (induction t arbitrary: d p n)
  case (T c)
  then show ?case using assms(1) simple_code_facts [of c] by auto
next
  case (Arr t)
  then show ?case using assms(1) by auto
next
  case (Str ts)
  have run: "skip_nested opn cls e (renders us @ q) m = skip_nested opn cls e q (m + length (renders us))"
    if "set us \<subseteq> set ts" "e > 0" for us e q m
    using that
  proof (induction us arbitrary: m)
    case (Cons u us)
    then have "wf_ty u" "u \<in> set ts" using Str.prems(2) by auto
    then show ?case using Cons Str.IH [of u e "renders us @ q" m] by (simp add: add.assoc)
  qed simp
  show ?case using assms(1) run [of ts] Str.prems by auto
next
  case (Dict k v)
  then show ?case using assms(1) simple_code_facts [of k] by auto
qed

lemma skip_nested_renders:
  assumes "(opn, cls) = (CHR ''('', CHR '')'') \<or> (opn, cls) = (CHR ''{'', CHR ''}'')" "d > 0" "\<forall>t \<in> set ts. wf_ty t"
  shows "skip_nested opn cls d (renders ts @ p) n = skip_nested opn cls d p (n + length (renders ts))"
  using assms(3)
proof (induction ts arbitrary: n)
  case (Cons t ts)
  then show ?case using skip_nested_render [OF assms(1,2), of t] by (simp add: add.assoc)
qed simp

lemma signature_next_here:
  assumes "wf_ty t"
  shows "dbus_type_signature_next (u @ render t @ p) (length u) = Some (length u + length (render t))"
proof -
  have "(case skip_arrays (render t @ p) n of
        (n, []) \<Rightarrow> Some (Suc n)
      | (n, c # p) \<Rightarrow>
          if c = DBUS_STRUCT_END_CHAR \<or> c = DBUS_DICT_ENTRY_END_CHAR then None
          else if c = DBUS_STRUCT_BEGIN_CHAR
          then skip_nested DBUS_STRUCT_BEGIN_CHAR DBUS_STRUCT_END_CHAR 1 p (Suc n)
          else if c = DBUS_DICT_ENTRY_BEGIN_CHAR
          then skip_nested DBUS_DICT_ENTRY_BEGIN_CHAR DBUS_DICT_ENTRY_END_CHAR 1 p (Suc n)
          else Some (Suc n)) = Some (n + length (render t))" for n
    using assms
  proof (induction t arbitrary: n)
    case (T c)
    then show ?case by (simp add: simple_code_facts)
  next
    case (Str ts)
    then show ?case by (simp add: skip_nested_renders)
  next
    case (Dict k v)
    then show ?case using simple_code_facts [of k] by (simp add: skip_nested_render)
  qed simp
  then show ?thesis by (simp add: dbus_type_signature_next_def)
qed

lemma signature_next_0 [simp]:
  "wf_ty t \<Longrightarrow> dbus_type_signature_next (render t @ p) 0 = Some (length (render t))"
  "wf_ty t \<Longrightarrow> dbus_type_signature_next (render t) 0 = Some (length (render t))"
  using signature_next_here [of t "[]" p] signature_next_here [of t "[]" "[]"] by simp_all

text \<open>C12: the iterator over a well-formed signature reports the code of the next complete type,
  steps over exactly that type, answers FALSE at the end of the signature and at the bracket that
  closes the enclosing container, and copies exactly the type's text; it never runs into the
  assertion of the scan.\<close>

theorem iterator_steps_over_a_type:
  assumes "wf_ty t" "\<forall>u \<in> set ts. wf_ty u" "rest = [] \<or> hd rest = CHR '')'' \<or> hd rest = CHR ''}''"
    "it = \<lparr>it_pos = render t @ renders ts @ rest, it_finished = False, it_in_array = False\<rparr>"
  shows "dbus_signature_iter_get_current_type it = type_code t \<and>
    dbus_signature_iter_get_signature it [] = Some (Some (render t), []) \<and>
    dbus_signature_iter_next it =
      (if ts \<noteq> [] then Some (True, it\<lparr>it_pos := renders ts @ rest\<rparr>)
       else if rest = [] then Some (False, it\<lparr>it_pos := []\<rparr>)
       else Some (False, it\<lparr>it_pos := rest, it_finished := True\<rparr>))"
proof -
  have next_pos: "dbus_type_signature_next (render t @ renders ts @ rest) 0 = Some (length (render t))"
    using signature_next_here [OF assms(1), of "[]" "renders ts @ rest"] by simp
  have "dbus_signature_iter_get_current_type it = type_code t"
    using assms(1) simple_code_facts
    by (cases t) (auto simp: assms(4) dbus_signature_iter_get_current_type_def
        dbus_first_type_in_signature_def map_type_char_to_type_def byte_at_def)
  moreover have "dbus_signature_iter_get_signature it [] = Some (Some (render t), [])"
    by (simp add: assms(4) dbus_signature_iter_get_signature_def next_pos)
  moreover have "dbus_signature_iter_next it =
      (if ts \<noteq> [] then Some (True, it\<lparr>it_pos := renders ts @ rest\<rparr>)
       else if rest = [] then Some (False, it\<lparr>it_pos := []\<rparr>)
       else Some (False, it\<lparr>it_pos := rest, it_finished := True\<rparr>))"
  proof (cases ts)
    case Nil
    then show ?thesis using assms(1,3)
      by (cases rest) (auto simp: assms(4) dbus_signature_iter_next_def byte_at_def Let_def)
  next
    case (Cons u us)
    then obtain c cs where c: "render u = c # cs" "c \<noteq> CHR '')''" "c \<noteq> CHR ''}''"
      using hd_render assms(2) by fastforce
    moreover have "c \<noteq> CHR 0x00" using c(1) assms(2) Cons simple_code_facts(7)
      by (cases u) auto
    ultimately show ?thesis using assms(1)
      by (simp add: assms(4) dbus_signature_iter_next_def byte_at_def Let_def Cons)
  qed
  ultimately show ?thesis by blast
qed

lemma iterator_steps_over_a_type_witness:
  "dbus_signature_iter_next (dbus_signature_iter_init ''a{sv}(ii)'') =
     Some (True, dbus_signature_iter_init ''(ii)'')"
proof -
  have "wf_ty (Dict CHR ''s'' (T CHR ''v''))" "\<forall>u \<in> set [Str [T CHR ''i'', T CHR ''i'']]. wf_ty u"
    by (simp_all add: simple_codes_def dbus_type_is_basic_def dbus_type_is_valid_def type_is_container_def)
  from iterator_steps_over_a_type [OF this, of "[]", OF _ refl] show ?thesis
    by (simp add: dbus_signature_iter_init_def)
qed

text \<open>Recursing into an array or a struct.\<close>

lemma iterator_recurse:
  assumes "it = \<lparr>it_pos = render t @ p, it_finished = False, it_in_array = b\<rparr>"
  shows "t = Str ts \<Longrightarrow> dbus_signature_iter_recurse it =
      Some \<lparr>it_pos = renders ts @ '')'' @ p, it_finished = False, it_in_array = False\<rparr>"
    and "t = Arr u \<Longrightarrow> dbus_signature_iter_recurse it =
      Some \<lparr>it_pos = render u @ p, it_finished = False, it_in_array = True\<rparr>"
    and "t = Dict k v \<Longrightarrow> dbus_signature_iter_recurse it =
      Some \<lparr>it_pos = ''{'' @ k # render v @ ''}'' @ p, it_finished = False, it_in_array = True\<rparr>"
  by (auto simp: assms dbus_signature_iter_recurse_def dbus_signature_iter_get_current_type_def
      dbus_first_type_in_signature_def map_type_char_to_type_def byte_at_def dbus_type_is_container_def
      dbus_type_is_valid_def type_is_container_def Let_def)

text \<open>C13: \<open>dbus_signature_validate_single\<close> accepts, among strings whose brackets match, exactly the
  renderings of one complete type, and it always answers.\<close>

theorem validate_single_is_one_type:
  assumes "matched [] s"
  shows "(dbus_signature_validate_single s [] = Some (Inr (), []) \<longleftrightarrow>
      (\<exists>t. s = render t \<and> length s \<le> 255 \<and> wf_ty t \<and> fits 0 0 t)) \<and>
    dbus_signature_validate_single s [] \<noteq> None"
proof (cases "signature s")
  case True
  then obtain ts where ts: "s = renders ts" "\<forall>t \<in> set ts. wf_ty t \<and> fits 0 0 t" "length s \<le> 255"
    by (auto simp: signature_def)
  have "dbus_validate_signature_with_reason s 0 (length s) [] = (DBUS_VALID, [])"
    using signature_accepted [of s 0 "length s"] True by (simp add: range_of_def)
  then have valid: "dbus_signature_validate s [] = (Inr (), [])"
    by (simp add: dbus_signature_validate_def)
  have step: "us = [] \<and> dbus_signature_validate_single s [] = Some (Inr (), []) \<or>
      us \<noteq> [] \<and> dbus_signature_validate_single s [] = Some (Inl ''Exactly one complete type required in signature'', [])"
    if "ts = t # us" for t us
  proof -
    have wf: "wf_ty t" "\<forall>u \<in> set us. wf_ty u" using ts(2) that by auto
    have "byte_at (renders us) 0 = CHR 0x00 \<longleftrightarrow> us = []"
      "byte_at (renders us) 0 \<noteq> CHR '')''" "byte_at (renders us) 0 \<noteq> CHR ''}''"
      using wf(2) simple_code_facts(7) hd_render
      by (cases us; cases "hd us"; fastforce simp: byte_at_def)+
    moreover have "map_type_char_to_type (byte_at (renders ts) 0) \<noteq> CHR 0x00"
      using wf(1) simple_code_facts(7) that
      by (cases t) (auto simp: byte_at_def map_type_char_to_type_def)
    ultimately show ?thesis using that ts(1) wf(1) valid
      by (simp add: dbus_signature_validate_single_def dbus_signature_iter_init_def
          dbus_signature_iter_get_current_type_def dbus_first_type_in_signature_def
          dbus_signature_iter_next_def Let_def)
  qed
  show ?thesis
  proof (cases ts)
    case Nil
    then have "s = []" using ts(1) by simp
    then show ?thesis
      using valid render_not_Nil [symmetric] by (simp add: dbus_signature_validate_single_def dbus_signature_iter_init_def
          dbus_signature_iter_get_current_type_def dbus_first_type_in_signature_def
          map_type_char_to_type_def byte_at_def)
  next
    case (Cons t us)
    have "\<not> (\<exists>u. s = render u \<and> wf_ty u)" if "us \<noteq> []"
    proof
      assume "\<exists>u. s = render u \<and> wf_ty u"
      then obtain u where u: "s = render u" "wf_ty u" by blast
      have "dbus_type_signature_next s 0 = Some (length (render t))"
        using signature_next_here [of t "[]" "renders us"] ts(1,2) Cons by simp
      moreover have "dbus_type_signature_next s 0 = Some (length s)"
        using signature_next_here [OF u(2), of "[]" "[]"] u(1) by simp
      ultimately show False using ts(1) Cons that by (cases us) auto
    qed
    then show ?thesis using step [OF Cons] ts Cons by auto
  qed
next
  case False
  then have "fst (dbus_validate_signature_with_reason s 0 (length s) []) \<noteq> DBUS_VALID"
    using valid_matched_signature [of s 0 "length s"] assms validate_Nil [of s 0 "length s"]
    by (auto simp: range_of_def) (metis prod.collapse)
  then obtain e where e: "dbus_signature_validate s [] = (Inl e, [])"
    using validate_Nil [of s 0 "length s"]
    by (cases "dbus_validate_signature_with_reason s 0 (length s) []") (simp add: dbus_signature_validate_def)
  have "\<not> (\<exists>t. s = render t \<and> length s \<le> 255 \<and> wf_ty t \<and> fits 0 0 t)"
  proof
    assume "\<exists>t. s = render t \<and> length s \<le> 255 \<and> wf_ty t \<and> fits 0 0 t"
    then obtain t where "s = renders [t]" "length s \<le> 255" "wf_ty t" "fits 0 0 t" by auto
    then have "signature s" unfolding signature_def by (intro conjI exI [of _ "[t]"]) auto
    with False show False ..
  qed
  then show ?thesis by (simp add: dbus_signature_validate_single_def e)
qed

lemma validate_single_is_one_type_witness:
  "dbus_signature_validate_single ''a{sv}'' [] = Some (Inr (), [])"
proof -
  let ?t = "Dict CHR ''s'' (T CHR ''v'')"
  have "\<exists>t. ''a{sv}'' = render t \<and> length ''a{sv}'' \<le> 255 \<and> wf_ty t \<and> fits 0 0 t"
    by (rule exI [of _ ?t]) (simp add: simple_codes_def dbus_type_is_basic_def dbus_type_is_valid_def type_is_container_def)
  then show ?thesis using validate_single_is_one_type [of "''a{sv}''"] by simp
qed

end
