(* ===== verification/Transaction.thy ===== *)
theory Transaction
  imports Prelude
begin

text \<open>
  Transactions of the message bus (\<open>bus/connection.c\<close>, from "Transactions" on). While the bus
  handles one incoming message it queues the messages it wants to send per connection, tagged
  with the transaction, and collects cancel hooks that undo what it changed; at the end the
  transaction is either executed, which sends the messages, or cancelled, which drops them and
  runs the hooks. Connections and transactions are named by numbers; a \<open>MessageToSend\<close> is the pair
  of its transaction and its message; \<open>outgoing\<close> is what \<open>dbus_connection_send_preallocated\<close> was
  given. Each allocation consumes one outcome of the script.
\<close>

section \<open>The code\<close>

type_synonym cid = nat
type_synonym tid = nat

record ('m, 'h) trans =
  connected :: "cid \<Rightarrow> bool"
  transaction_messages :: "cid \<Rightarrow> (tid \<times> 'm) list"
  t_connections :: "tid \<Rightarrow> cid list"
  cancel_hooks :: "tid \<Rightarrow> 'h list"
  outgoing :: "cid \<Rightarrow> 'm list"

definition bus_transaction_send ::
    "tid \<Rightarrow> cid \<Rightarrow> 'm \<Rightarrow> ('m, 'h) trans \<Rightarrow> script \<Rightarrow> bool \<times> ('m, 'h) trans \<times> script" where
  "bus_transaction_send tx c m t r =
     (if \<not> connected t c then (True, t, r)
      else let (ok, r) = malloc r in if \<not> ok then (False, t, r)
      else let (ok, r) = malloc r in if \<not> ok then (False, t, r)
      else let (ok, r) = malloc r in if \<not> ok then (False, t, r)
      else let queue = transaction_messages t c;
               t1 = t\<lparr>transaction_messages := (transaction_messages t)(c := (tx, m) # queue)\<rparr> in
        if \<exists>n \<in> set queue. fst n = tx then (True, t1, r)
        else let (ok, r) = malloc r in
          if \<not> ok then (False, t1\<lparr>transaction_messages := (transaction_messages t1)(c := queue)\<rparr>, r)
          else (True, t1\<lparr>t_connections := (t_connections t1)(tx := c # t_connections t1 tx)\<rparr>, r))"

text \<open>The scan of one connection's queue that drops the transaction's messages, and the scan from
  its last link back that sends them.\<close>

fun cancel_scan :: "tid \<Rightarrow> (tid \<times> 'm) list \<Rightarrow> (tid \<times> 'm) list" where
  "cancel_scan tx [] = []"
| "cancel_scan tx (m # ms) = (if fst m = tx then cancel_scan tx ms else m # cancel_scan tx ms)"

definition connection_cancel_transaction :: "cid \<Rightarrow> tid \<Rightarrow> ('m, 'h) trans \<Rightarrow> ('m, 'h) trans" where
  "connection_cancel_transaction c tx t =
     t\<lparr>transaction_messages := (transaction_messages t)(c := cancel_scan tx (transaction_messages t c))\<rparr>"

fun execute_scan :: "tid \<Rightarrow> (tid \<times> 'm) list \<Rightarrow> 'm list \<Rightarrow> 'm list \<times> (tid \<times> 'm) list" where
  "execute_scan tx [] out = (out, [])"
| "execute_scan tx (m # ms) out =
     (let (out, ms) = execute_scan tx ms out in
      if fst m = tx then (out @ [snd m], ms) else (out, m # ms))"

definition connection_execute_transaction :: "cid \<Rightarrow> tid \<Rightarrow> ('m, 'h) trans \<Rightarrow> ('m, 'h) trans" where
  "connection_execute_transaction c tx t =
     (let (out, ms) = execute_scan tx (transaction_messages t c) (outgoing t c) in
      t\<lparr>transaction_messages := (transaction_messages t)(c := ms), outgoing := (outgoing t)(c := out)\<rparr>)"

text \<open>The loops that pop the transaction's connections.\<close>

fun pop_connections :: "(cid \<Rightarrow> tid \<Rightarrow> ('m, 'h) trans \<Rightarrow> ('m, 'h) trans) \<Rightarrow> tid \<Rightarrow> cid list \<Rightarrow>
    ('m, 'h) trans \<Rightarrow> ('m, 'h) trans" where
  "pop_connections f tx [] t = t\<lparr>t_connections := (t_connections t)(tx := [])\<rparr>"
| "pop_connections f tx (c # cs) t =
     pop_connections f tx cs (f c tx (t\<lparr>t_connections := (t_connections t)(tx := cs)\<rparr>))"

definition bus_transaction_cancel_messages :: "tid \<Rightarrow> ('m, 'h) trans \<Rightarrow> ('m, 'h) trans" where
  "bus_transaction_cancel_messages tx t =
     pop_connections connection_cancel_transaction tx (t_connections t tx) t"

definition bus_transaction_execute_messages :: "tid \<Rightarrow> ('m, 'h) trans \<Rightarrow> ('m, 'h) trans" where
  "bus_transaction_execute_messages tx t =
     pop_connections connection_execute_transaction tx (t_connections t tx) t"

definition bus_transaction_add_cancel_hook ::
    "tid \<Rightarrow> 'h \<Rightarrow> ('m, 'h) trans \<Rightarrow> script \<Rightarrow> bool \<times> ('m, 'h) trans \<times> script" where
  "bus_transaction_add_cancel_hook tx h t r =
     (let (ok, r) = malloc r in if \<not> ok then (False, t, r)
      else let (ok, r) = malloc r in if \<not> ok then (False, t, r)
      else (True, t\<lparr>cancel_hooks := (cancel_hooks t)(tx := h # cancel_hooks t tx)\<rparr>, r))"

text \<open>\<open>bus_connection_remove_transactions\<close>: the loop takes the first message each time.\<close>

fun remove_transactions_loop :: "cid \<Rightarrow> (tid \<times> 'm) list \<Rightarrow> ('m, 'h) trans \<Rightarrow> ('m, 'h) trans" where
  "remove_transactions_loop c [] t = t\<lparr>transaction_messages := (transaction_messages t)(c := [])\<rparr>"
| "remove_transactions_loop c (m # ms) t =
     remove_transactions_loop c ms
       (t\<lparr>t_connections := (t_connections t)(fst m := remove1 c (t_connections t (fst m))),
          transaction_messages := (transaction_messages t)(c := ms)\<rparr>)"

definition bus_connection_remove_transactions :: "cid \<Rightarrow> ('m, 'h) trans \<Rightarrow> ('m, 'h) trans" where
  "bus_connection_remove_transactions c t = remove_transactions_loop c (transaction_messages t c) t"

section \<open>The invariant\<close>

text \<open>A connection is in a transaction's list exactly when a message of that transaction waits in
  its queue, and only once.\<close>

definition trans_ok :: "('m, 'h) trans \<Rightarrow> bool" where
  "trans_ok t \<longleftrightarrow> (\<forall>tx c. c \<in> set (t_connections t tx) \<longleftrightarrow> tx \<in> fst ` set (transaction_messages t c)) \<and>
     (\<forall>tx. distinct (t_connections t tx))"

text \<open>The messages of a transaction that wait for a connection, oldest first.\<close>

definition waiting :: "('m, 'h) trans \<Rightarrow> tid \<Rightarrow> cid \<Rightarrow> 'm list" where
  "waiting t tx c = rev (map snd (filter (\<lambda>m. fst m = tx) (transaction_messages t c)))"

lemma cancel_scan_filter [simp]: "cancel_scan tx ms = filter (\<lambda>m. fst m \<noteq> tx) ms"
  by (induction ms) auto

lemma execute_scan_filter [simp]:
  "execute_scan tx ms out =
     (out @ rev (map snd (filter (\<lambda>m. fst m = tx) ms)), filter (\<lambda>m. fst m \<noteq> tx) ms)"
  by (induction ms) (auto simp: Let_def)

lemma send_fails:
  "bus_transaction_send tx c m t r = (False, t', r') \<Longrightarrow> t' = t"
  by (auto simp: bus_transaction_send_def Let_def split: prod.splits if_splits)

lemma send_ok:
  assumes "bus_transaction_send tx c m t r = (True, t', r')"
  shows "t' = (if connected t c then
      t\<lparr>transaction_messages := (transaction_messages t)(c := (tx, m) # transaction_messages t c),
        t_connections := (if tx \<in> fst ` set (transaction_messages t c) then t_connections t
          else (t_connections t)(tx := c # t_connections t tx))\<rparr> else t)"
  using assms by (auto simp: bus_transaction_send_def Let_def split: prod.splits if_splits)

lemma send_preserves [invs]:
  assumes "trans_ok t" "bus_transaction_send tx c m t r = (b, t', r')"
  shows "trans_ok t'"
proof (cases b)
  case True
  with assms(2) have "bus_transaction_send tx c m t r = (True, t', r')" by simp
  then have t': "t' = (if connected t c then
      t\<lparr>transaction_messages := (transaction_messages t)(c := (tx, m) # transaction_messages t c),
        t_connections := (if tx \<in> fst ` set (transaction_messages t c) then t_connections t
          else (t_connections t)(tx := c # t_connections t tx))\<rparr> else t)"
    by (rule send_ok)
  show ?thesis using assms(1) unfolding t' trans_ok_def by auto
next
  case False
  with assms(2) have "t' = t" by (simp add: send_fails)
  with assms(1) show ?thesis by simp
qed

lemma send_waiting:
  assumes "bus_transaction_send tx c m t r = (True, t', r')"
  shows "waiting t' tx' c' = (if connected t c \<and> tx' = tx \<and> c' = c then waiting t tx c @ [m] else waiting t tx' c')"
    and "connected t' = connected t" "outgoing t' = outgoing t" "cancel_hooks t' = cancel_hooks t"
  unfolding send_ok [OF assms] waiting_def by auto

lemma pop_connections_execute:
  "pop_connections connection_execute_transaction tx cs t =
     t\<lparr>t_connections := (t_connections t)(tx := []),
       transaction_messages := (\<lambda>c. if c \<in> set cs then filter (\<lambda>m. fst m \<noteq> tx) (transaction_messages t c)
         else transaction_messages t c),
       outgoing := (\<lambda>c. if c \<in> set cs then outgoing t c @ waiting t tx c else outgoing t c)\<rparr>"
proof (induction cs arbitrary: t)
  case (Cons c cs)
  show ?case
    unfolding pop_connections.simps Cons
    by (cases t) (auto simp: connection_execute_transaction_def waiting_def fun_eq_iff)
qed simp

lemma pop_connections_cancel:
  "pop_connections connection_cancel_transaction tx cs t =
     t\<lparr>t_connections := (t_connections t)(tx := []),
       transaction_messages := (\<lambda>c. if c \<in> set cs then filter (\<lambda>m. fst m \<noteq> tx) (transaction_messages t c)
         else transaction_messages t c)\<rparr>"
proof (induction cs arbitrary: t)
  case (Cons c cs)
  show ?case
    unfolding pop_connections.simps Cons
    by (cases t) (auto simp: connection_cancel_transaction_def fun_eq_iff)
qed simp

lemma not_waiting:
  "trans_ok t \<Longrightarrow> c \<notin> set (t_connections t tx) \<Longrightarrow>
    waiting t tx c = [] \<and> filter (\<lambda>m. fst m \<noteq> tx) (transaction_messages t c) = transaction_messages t c"
  unfolding trans_ok_def waiting_def by (force simp: filter_id_conv filter_empty_conv)

lemma execute_messages:
  assumes "trans_ok t"
  shows "bus_transaction_execute_messages tx t =
    t\<lparr>t_connections := (t_connections t)(tx := []),
      transaction_messages := (\<lambda>c. filter (\<lambda>m. fst m \<noteq> tx) (transaction_messages t c)),
      outgoing := (\<lambda>c. outgoing t c @ waiting t tx c)\<rparr>"
  using not_waiting [OF assms]
  by (auto simp: bus_transaction_execute_messages_def pop_connections_execute fun_eq_iff
      intro!: trans.equality)

lemma cancel_messages:
  assumes "trans_ok t"
  shows "bus_transaction_cancel_messages tx t =
    t\<lparr>t_connections := (t_connections t)(tx := []),
      transaction_messages := (\<lambda>c. filter (\<lambda>m. fst m \<noteq> tx) (transaction_messages t c))\<rparr>"
  using not_waiting [OF assms]
  by (auto simp: bus_transaction_cancel_messages_def pop_connections_cancel fun_eq_iff
      intro!: trans.equality)

lemma finish_preserves [invs]:
  assumes "trans_ok t"
  shows "trans_ok (bus_transaction_execute_messages tx t)" "trans_ok (bus_transaction_cancel_messages tx t)"
  using assms unfolding execute_messages [OF assms] cancel_messages [OF assms] trans_ok_def
  by (force split: if_splits)+

lemma remove_transactions_loop:
  assumes "\<forall>tx. distinct (t_connections t tx)"
  shows "remove_transactions_loop c ms t =
      t\<lparr>transaction_messages := (transaction_messages t)(c := []),
        t_connections := (\<lambda>tx. if tx \<in> fst ` set ms then removeAll c (t_connections t tx) else t_connections t tx)\<rparr>"
  using assms
proof (induction ms arbitrary: t)
  case (Cons m ms)
  let ?t = "t\<lparr>t_connections := (t_connections t)(fst m := remove1 c (t_connections t (fst m))),
      transaction_messages := (transaction_messages t)(c := ms)\<rparr>"
  have "\<forall>tx. distinct (t_connections ?t tx)" using Cons.prems by simp
  from Cons.IH [OF this] Cons.prems show ?case
    by (cases t) (auto simp: fun_eq_iff distinct_remove1_removeAll)
qed simp

lemma remove_transactions_ok:
  assumes "trans_ok t"
  shows "bus_connection_remove_transactions c t =
      t\<lparr>transaction_messages := (transaction_messages t)(c := []),
        t_connections := (\<lambda>tx. removeAll c (t_connections t tx))\<rparr>"
  using assms unfolding bus_connection_remove_transactions_def trans_ok_def
  by (auto simp: remove_transactions_loop fun_eq_iff intro!: trans.equality)

lemma remove_transactions_preserves [invs]:
  "trans_ok t \<Longrightarrow> trans_ok (bus_connection_remove_transactions c t)"
  by (simp add: remove_transactions_ok) (auto simp: trans_ok_def distinct_removeAll split: if_splits)

section \<open>Properties\<close>

text \<open>A run of sends of one transaction, stopping at the first failure.\<close>

fun send_all :: "tid \<Rightarrow> (cid \<times> 'm) list \<Rightarrow> ('m, 'h) trans \<Rightarrow> script \<Rightarrow> bool \<times> ('m, 'h) trans \<times> script" where
  "send_all tx [] t r = (True, t, r)"
| "send_all tx (cm # ms) t r =
     (case bus_transaction_send tx (fst cm) (snd cm) t r of
        (True, t, r) \<Rightarrow> send_all tx ms t r
      | (False, t, r) \<Rightarrow> (False, t, r))"

lemma send_all_preserves [invs]:
  "trans_ok t \<Longrightarrow> send_all tx ms t r = (b, t', r') \<Longrightarrow>
    trans_ok t' \<and> connected t' = connected t \<and> outgoing t' = outgoing t"
proof (induction ms arbitrary: t r)
  case (Cons cm ms)
  obtain b1 t1 r1 where s: "bus_transaction_send tx (fst cm) (snd cm) t r = (b1, t1, r1)"
    by (metis prod_cases3)
  have ok: "trans_ok t1" using send_preserves [OF Cons.prems(1) s] .
  show ?case
  proof (cases b1)
    case True
    then show ?thesis using Cons.IH [OF ok] Cons.prems(2) s send_waiting(2,3) [of tx "fst cm" "snd cm" t r t1 r1]
      by simp
  next
    case False
    then show ?thesis using Cons.prems s send_fails [of tx "fst cm" "snd cm" t r t1 r1] by auto
  qed
qed simp

lemma send_all_other:
  "send_all tx ms t r = (b, t', r') \<Longrightarrow> tx' \<noteq> tx \<Longrightarrow> waiting t' tx' c = waiting t tx' c"
proof (induction ms arbitrary: t r)
  case (Cons cm ms)
  obtain b1 t1 r1 where s: "bus_transaction_send tx (fst cm) (snd cm) t r = (b1, t1, r1)"
    by (metis prod_cases3)
  show ?case
  proof (cases b1)
    case True
    with s Cons.prems have rest: "send_all tx ms t1 r1 = (b, t', r')" by simp
    show ?thesis using Cons.IH [OF rest] Cons.prems(2) send_waiting(1) [of tx "fst cm" "snd cm" t r t1 r1 tx' c] s True
      by simp
  next
    case False
    with s Cons.prems send_fails [of tx "fst cm" "snd cm" t r t1 r1] show ?thesis by auto
  qed
qed simp

lemma send_all_waiting:
  "send_all tx ms t r = (True, t', r') \<Longrightarrow>
    waiting t' tx c = waiting t tx c @ [m. (d, m) \<leftarrow> ms, d = c \<and> connected t c]"
proof (induction ms arbitrary: t r)
  case (Cons cm ms)
  obtain b1 t1 r1 where s: "bus_transaction_send tx (fst cm) (snd cm) t r = (b1, t1, r1)"
    by (metis prod_cases3)
  with Cons.prems have b1: "b1" by (cases b1) auto
  with Cons.prems s have rest: "send_all tx ms t1 r1 = (True, t', r')" by simp
  show ?case using Cons.IH [OF rest] send_waiting [OF s [unfolded b1 [THEN eqTrueI]]]
    by (cases cm) auto
qed simp

lemma finish_waiting:
  assumes "trans_ok t"
  shows "waiting (bus_transaction_execute_messages tx t) tx' c = (if tx' = tx then [] else waiting t tx' c)"
    "waiting (bus_transaction_cancel_messages tx t) tx' c = (if tx' = tx then [] else waiting t tx' c)"
  using assms by (auto simp: execute_messages cancel_messages waiting_def filter_empty_conv
      intro!: arg_cong [of _ _ "map snd"] filter_cong)

text \<open>C14: what a transaction sends is all or nothing. From a consistent state, when every send of
  the run succeeded, executing the transaction gives each connected client exactly the messages
  sent to it, in the order they were sent, after what it was given before, and nothing to
  the others; when a send failed for want of memory, or the transaction is cancelled for
  another reason, no client gets anything; in both cases nothing of the transaction stays
  queued, and the messages other transactions have queued are untouched.\<close>

theorem transaction_all_or_nothing:
  assumes "trans_ok t" "waiting t tx = (\<lambda>c. [])" "send_all tx ms t r = (ok, t1, r1)"
    "t' = (if ok \<and> \<not> cancel then bus_transaction_execute_messages tx t1
           else bus_transaction_cancel_messages tx t1)"
  shows "trans_ok t' \<and> t_connections t' tx = [] \<and>
    (\<forall>c. outgoing t' c = (if ok \<and> \<not> cancel then outgoing t c @ [m. (d, m) \<leftarrow> ms, d = c \<and> connected t c]
                       else outgoing t c)) \<and>
    (\<forall>c tx'. waiting t' tx' c = (if tx' = tx then [] else waiting t tx' c))"
proof -
  note t1 = send_all_preserves [OF assms(1,3)]
  have w: "ok \<Longrightarrow> waiting t1 tx c = [m. (d, m) \<leftarrow> ms, d = c \<and> connected t c]" for c
    using send_all_waiting [of tx ms t r t1 r1 c] assms(2,3) by simp
  have "t_connections t' tx = []" "\<forall>c. outgoing t' c =
      (if ok \<and> \<not> cancel then outgoing t c @ [m. (d, m) \<leftarrow> ms, d = c \<and> connected t c] else outgoing t c)"
    using t1 w unfolding assms(4) by (auto simp: execute_messages cancel_messages)
  moreover have "trans_ok t'" using t1 finish_preserves unfolding assms(4) by auto
  moreover have "\<forall>c tx'. waiting t' tx' c = (if tx' = tx then [] else waiting t tx' c)"
    using t1 finish_waiting [of t1 tx] send_all_other [OF assms(3)] unfolding assms(4) by auto
  ultimately show ?thesis by blast
qed

text \<open>Two clients, one of them gone: the one that is there gets both its messages in order.\<close>

definition idle_trans :: "(nat, unit) trans" where
  "idle_trans = \<lparr>connected = (\<lambda>c. c < 2), transaction_messages = (\<lambda>c. []), t_connections = (\<lambda>tx. []),
     cancel_hooks = (\<lambda>tx. []), outgoing = (\<lambda>c. [])\<rparr>"

lemma transaction_all_or_nothing_witness:
  "outgoing (bus_transaction_execute_messages 7
     (fst (snd (send_all 7 [(0, 10), (5, 11), (0, 12), (1, 13)] idle_trans [])))) 0 = [10, 12]"
proof -
  have ok: "trans_ok idle_trans" "waiting idle_trans 7 = (\<lambda>c. [])"
    by (simp_all add: trans_ok_def waiting_def idle_trans_def fun_eq_iff)
  obtain t1 r1 where run: "send_all 7 [(0, 10), (5, 11), (0, 12), (1, 13)] idle_trans [] = (True, t1, r1)"
    by (simp add: bus_transaction_send_def idle_trans_def)
  show ?thesis
    using transaction_all_or_nothing [OF ok run refl, of False] run by (simp add: idle_trans_def)
qed

end
