(* ===== verification/Services.thy ===== *)
theory Services
  imports Names Transaction
begin

text \<open>
  Ownership of bus names (\<open>bus/services.c\<close>): the registry of services, the queue of owners of
  each, and the transaction hooks that undo changes when a request fails. Owners and services
  live in memory pools with reference counts, so both are modelled by address; a freed address
  is never used again, and dereferencing it is \<open>None\<close>, as is a failed assertion when the
  library is built with assertions. Owner lists are lists of addresses (the list operations
  themselves are in the list theory). Allocations consume the script \<open>mem\<close>.
\<close>

unbundle bit_operations_syntax

section \<open>Data\<close>

type_synonym sid = nat
type_synonym oid = nat

record owner =
  o_refs :: nat
  o_service :: sid
  o_conn :: cid
  allow_replacement :: bool
  do_not_queue :: bool

record service =
  s_refs :: nat
  s_name :: string
  s_owners :: "oid list"

text \<open>What a transaction sends here: the driver's signals and the replies to a call, and the
  messages held for a name that was being started.\<close>

datatype notice = NameOwnerChanged string "string option" "string option" | NameLost string
  | NameAcquired string | Reply nat nat | Start_Reply nat | Held nat

record pending_entry =
  e_conn :: cid
  e_auto :: bool
  e_message :: nat

datatype hook = Cancel_Ownership sid oid | Restore_Ownership sid oid "oid option"
  | Restore_Pending string "pending_entry list"

text \<open>The registry with the pools, and what each connection records of the names it owns.\<close>

record registry =
  owner_of :: "oid \<Rightarrow> owner option"
  service_of :: "sid \<Rightarrow> service option"
  service_hash :: "string \<Rightarrow> sid option"
  services_owned :: "cid \<Rightarrow> sid list"
  n_services_owned :: "cid \<Rightarrow> int"
  new_owner :: oid
  new_service :: sid

record bus =
  reg :: registry
  unique_name :: "cid \<Rightarrow> string option"
  pending_activations :: "string \<Rightarrow> pending_entry list option"
  trans :: "(notice, hook) trans"
  mem :: script

text \<open>What the registry asks other parts of the daemon: the limit of the configuration, SELinux and
  the client policy, the security policy on a message for a connection, and the connections with
  a matching rule. \<open>asserts\<close> tells whether assertions are compiled in.\<close>

record bus_env =
  max_services :: int
  selinux_allows :: "cid \<Rightarrow> string \<Rightarrow> bool"
  can_own :: "cid \<Rightarrow> string \<Rightarrow> bool"
  may_receive :: "cid \<Rightarrow> notice \<Rightarrow> bool"
  recipients :: "notice \<Rightarrow> cid list"
  asserts :: bool

datatype bus_error = Error_Unset | No_Memory | Invalid_Args | Access_Denied | Limits_Exceeded

definition assertion :: "bus_env \<Rightarrow> bool \<Rightarrow> unit option" where
  "assertion env b = (if asserts env \<and> \<not> b then None else Some ())"

definition name_flag_allow_replacement :: "32 word \<Rightarrow> bool" where
  "name_flag_allow_replacement flags \<longleftrightarrow> flags AND 1 \<noteq> 0"

definition name_flag_replace_existing :: "32 word \<Rightarrow> bool" where
  "name_flag_replace_existing flags \<longleftrightarrow> flags AND 2 \<noteq> 0"

definition name_flag_do_not_queue :: "32 word \<Rightarrow> bool" where
  "name_flag_do_not_queue flags \<longleftrightarrow> flags AND 4 \<noteq> 0"

section \<open>Sending\<close>

definition alloc :: "bus \<Rightarrow> bool \<times> bus" where
  "alloc st = (let (ok, r) = malloc (mem st) in (ok, st\<lparr>mem := r\<rparr>))"

definition send :: "tid \<Rightarrow> cid \<Rightarrow> notice \<Rightarrow> bus \<Rightarrow> bool \<times> bus" where
  "send tx c m st =
     (let (ok, t, r) = bus_transaction_send tx c m (trans st) (mem st) in (ok, st\<lparr>trans := t, mem := r\<rparr>))"

definition add_cancel_hook :: "tid \<Rightarrow> hook \<Rightarrow> bus \<Rightarrow> bool \<times> bus" where
  "add_cancel_hook tx h st =
     (let (ok, t, r) = bus_transaction_add_cancel_hook tx h (trans st) (mem st) in (ok, st\<lparr>trans := t, mem := r\<rparr>))"

text \<open>\<open>bus_transaction_send_from_driver\<close>: sets the sender, and the destination of an active
  connection, and lets the policy eat the message.\<close>

definition bus_transaction_send_from_driver :: "bus_env \<Rightarrow> tid \<Rightarrow> cid \<Rightarrow> notice \<Rightarrow> bus \<Rightarrow> bool \<times> bus" where
  "bus_transaction_send_from_driver env tx c m st =
     (let (ok, st) = alloc st in if \<not> ok then (False, st)
      else let (ok, st) = (if unique_name st c \<noteq> None then alloc st else (True, st)) in
        if \<not> ok then (False, st)
        else if \<not> may_receive env c m then (True, st)
        else send tx c m st)"

text \<open>The body of the driver's signals to one connection: a new message, its destination, its
  argument.\<close>

definition driver_signal :: "bus_env \<Rightarrow> tid \<Rightarrow> cid \<Rightarrow> notice \<Rightarrow> bus \<Rightarrow> bool \<times> bus" where
  "driver_signal env tx c m st =
     (let (ok, st) = alloc st in if \<not> ok then (False, st)
      else let (ok, st) = alloc st in if \<not> ok then (False, st)
      else let (ok, st) = alloc st in if \<not> ok then (False, st)
      else bus_transaction_send_from_driver env tx c m st)"

definition bus_driver_send_service_lost :: "bus_env \<Rightarrow> tid \<Rightarrow> cid \<Rightarrow> string \<Rightarrow> bus \<Rightarrow> bool \<times> bus" where
  "bus_driver_send_service_lost env tx c name st = driver_signal env tx c (NameLost name) st"

definition bus_driver_send_service_acquired :: "bus_env \<Rightarrow> tid \<Rightarrow> cid \<Rightarrow> string \<Rightarrow> bus \<Rightarrow> bool \<times> bus" where
  "bus_driver_send_service_acquired env tx c name st = driver_signal env tx c (NameAcquired name) st"

text \<open>\<open>bus_dispatch_matches\<close>: first the addressed recipient if there is one, then everyone with a
  matching rule.\<close>

definition send_one_message :: "bus_env \<Rightarrow> tid \<Rightarrow> cid \<Rightarrow> notice \<Rightarrow> bus \<Rightarrow> bool \<times> bus" where
  "send_one_message env tx c m st = (if \<not> may_receive env c m then (True, st) else send tx c m st)"

fun dispatch_loop :: "bus_env \<Rightarrow> tid \<Rightarrow> notice \<Rightarrow> cid list \<Rightarrow> bus \<Rightarrow> bool \<times> bus" where
  "dispatch_loop env tx m [] st = (True, st)"
| "dispatch_loop env tx m (c # cs) st =
     (let (ok, st) = send_one_message env tx c m st in
      if \<not> ok then (False, st) else dispatch_loop env tx m cs st)"

definition dispatch_addressed ::
    "bus_env \<Rightarrow> tid \<Rightarrow> cid option \<Rightarrow> notice \<Rightarrow> bus \<Rightarrow> (bus_error + unit) \<times> bus" where
  "dispatch_addressed env tx addressed m st =
     (case addressed of
        None \<Rightarrow> (Inr (), st)
      | Some c \<Rightarrow>
          if \<not> may_receive env c m then (Inl Access_Denied, st)
          else let (ok, st) = send tx c m st in (if \<not> ok then Inl No_Memory else Inr (), st))"

definition bus_dispatch_matches ::
    "bus_env \<Rightarrow> tid \<Rightarrow> cid option \<Rightarrow> notice \<Rightarrow> bus \<Rightarrow> (bus_error + unit) \<times> bus" where
  "bus_dispatch_matches env tx addressed m st =
     (let (res, st) = dispatch_addressed env tx addressed m st in
      if res \<noteq> Inr () then (res, st)
      else let (ok, st) = alloc st in if \<not> ok then (Inl No_Memory, st)
      else let (ok, st) = dispatch_loop env tx m (recipients env m) st in
        (if \<not> ok then Inl No_Memory else Inr (), st))"

definition bus_driver_send_service_owner_changed ::
    "bus_env \<Rightarrow> tid \<Rightarrow> string \<Rightarrow> string option \<Rightarrow> string option \<Rightarrow> bus \<Rightarrow> bool \<times> bus" where
  "bus_driver_send_service_owner_changed env tx name old new st =
     (let (ok, st) = alloc st in if \<not> ok then (False, st)
      else let (ok, st) = alloc st in if \<not> ok then (False, st)
      else let (ok, st) = alloc st in if \<not> ok then (False, st)
      else let (res, st) = bus_dispatch_matches env tx None (NameOwnerChanged name old new) st in
        (res = Inr (), st))"

section \<open>Owners and services\<close>

definition bus_registry_lookup :: "registry \<Rightarrow> string \<Rightarrow> sid option" where
  "bus_registry_lookup g name = service_hash g name"

fun find_owner :: "registry \<Rightarrow> cid \<Rightarrow> oid list \<Rightarrow> oid option option" where
  "find_owner g c [] = Some None"
| "find_owner g c (x # xs) =
     (case owner_of g x of
        None \<Rightarrow> None
      | Some ow \<Rightarrow> if o_conn ow = c then Some (Some x) else find_owner g c xs)"

definition bus_service_find_owner_link :: "registry \<Rightarrow> sid \<Rightarrow> cid \<Rightarrow> oid option option" where
  "bus_service_find_owner_link g s c =
     (case service_of g s of None \<Rightarrow> None | Some sv \<Rightarrow> find_owner g c (s_owners sv))"

definition bus_owner_set_flags :: "oid \<Rightarrow> 32 word \<Rightarrow> registry \<Rightarrow> registry option" where
  "bus_owner_set_flags x flags g =
     (case owner_of g x of
        None \<Rightarrow> None
      | Some ow \<Rightarrow> Some (g\<lparr>owner_of := (owner_of g)(x \<mapsto>
          ow\<lparr>allow_replacement := name_flag_allow_replacement flags,
             do_not_queue := name_flag_do_not_queue flags\<rparr>)\<rparr>))"

definition bus_connection_add_owned_service_link :: "cid \<Rightarrow> sid \<Rightarrow> registry \<Rightarrow> registry" where
  "bus_connection_add_owned_service_link c s g =
     g\<lparr>services_owned := (services_owned g)(c := services_owned g c @ [s]),
       n_services_owned := (n_services_owned g)(c := n_services_owned g c + 1)\<rparr>"

definition remove_last :: "'a \<Rightarrow> 'a list \<Rightarrow> 'a list" where
  "remove_last x xs = rev (remove1 x (rev xs))"

definition bus_connection_remove_owned_service :: "bus_env \<Rightarrow> cid \<Rightarrow> sid \<Rightarrow> registry \<Rightarrow> registry option" where
  "bus_connection_remove_owned_service env c s g =
     do {
       let g = g\<lparr>services_owned := (services_owned g)(c := remove_last s (services_owned g c)),
                 n_services_owned := (n_services_owned g)(c := n_services_owned g c - 1)\<rparr>;
       assertion env (n_services_owned g c \<ge> 0);
       Some g
     }"

definition bus_owner_new :: "sid \<Rightarrow> cid \<Rightarrow> 32 word \<Rightarrow> bus \<Rightarrow> oid option \<times> bus" where
  "bus_owner_new s c flags st =
     (let (ok, st) = alloc st in if \<not> ok then (None, st)
      else let x = new_owner (reg st); st = st\<lparr>reg := (reg st)\<lparr>new_owner := Suc x\<rparr>\<rparr>;
               (ok, st) = alloc st in
        if \<not> ok then (None, st)
        else (Some x, st\<lparr>reg := bus_connection_add_owned_service_link c s
          ((reg st)\<lparr>owner_of := (owner_of (reg st))(x \<mapsto>
             \<lparr>o_refs = 1, o_service = s, o_conn = c,
              allow_replacement = name_flag_allow_replacement flags,
              do_not_queue = name_flag_do_not_queue flags\<rparr>)\<rparr>)\<rparr>))"

definition bus_owner_ref :: "oid \<Rightarrow> registry \<Rightarrow> registry option" where
  "bus_owner_ref x g =
     (case owner_of g x of
        None \<Rightarrow> None
      | Some ow \<Rightarrow> Some (g\<lparr>owner_of := (owner_of g)(x \<mapsto> ow\<lparr>o_refs := o_refs ow + 1\<rparr>)\<rparr>))"

definition bus_owner_unref :: "bus_env \<Rightarrow> oid \<Rightarrow> registry \<Rightarrow> registry option" where
  "bus_owner_unref env x g =
     (case owner_of g x of
        None \<Rightarrow> None
      | Some ow \<Rightarrow>
          if o_refs ow - 1 = 0 then
            do {
              g \<leftarrow> bus_connection_remove_owned_service env (o_conn ow) (o_service ow) g;
              Some (g\<lparr>owner_of := (owner_of g)(x := None)\<rparr>)
            }
          else Some (g\<lparr>owner_of := (owner_of g)(x \<mapsto> ow\<lparr>o_refs := o_refs ow - 1\<rparr>)\<rparr>))"

definition bus_service_ref :: "sid \<Rightarrow> registry \<Rightarrow> registry option" where
  "bus_service_ref s g =
     (case service_of g s of
        None \<Rightarrow> None
      | Some sv \<Rightarrow> Some (g\<lparr>service_of := (service_of g)(s \<mapsto> sv\<lparr>s_refs := s_refs sv + 1\<rparr>)\<rparr>))"

definition bus_service_unref :: "bus_env \<Rightarrow> sid \<Rightarrow> registry \<Rightarrow> registry option" where
  "bus_service_unref env s g =
     (case service_of g s of
        None \<Rightarrow> None
      | Some sv \<Rightarrow>
          if s_refs sv - 1 = 0 then
            do { assertion env (s_owners sv = []); Some (g\<lparr>service_of := (service_of g)(s := None)\<rparr>) }
          else Some (g\<lparr>service_of := (service_of g)(s \<mapsto> sv\<lparr>s_refs := s_refs sv - 1\<rparr>)\<rparr>))"

definition set_owners :: "sid \<Rightarrow> oid list \<Rightarrow> registry \<Rightarrow> registry option" where
  "set_owners s xs g =
     (case service_of g s of
        None \<Rightarrow> None
      | Some sv \<Rightarrow> Some (g\<lparr>service_of := (service_of g)(s \<mapsto> sv\<lparr>s_owners := xs\<rparr>)\<rparr>))"

definition owners :: "registry \<Rightarrow> sid \<Rightarrow> oid list option" where
  "owners g s = map_option s_owners (service_of g s)"

definition bus_service_unlink_owner :: "bus_env \<Rightarrow> sid \<Rightarrow> oid \<Rightarrow> registry \<Rightarrow> registry option" where
  "bus_service_unlink_owner env s x g =
     do {
       xs \<leftarrow> owners g s;
       g \<leftarrow> set_owners s (remove_last x xs) g;
       bus_owner_unref env x g
     }"

definition bus_service_unlink :: "bus_env \<Rightarrow> sid \<Rightarrow> registry \<Rightarrow> registry option" where
  "bus_service_unlink env s g =
     do {
       sv \<leftarrow> service_of g s;
       assertion env (s_owners sv = []);
       bus_service_unref env s (g\<lparr>service_hash := (service_hash g)(s_name sv := None)\<rparr>)
     }"

definition bus_service_relink :: "bus_env \<Rightarrow> sid \<Rightarrow> registry \<Rightarrow> registry option" where
  "bus_service_relink env s g =
     do {
       sv \<leftarrow> service_of g s;
       assertion env (s_owners sv = []);
       bus_service_ref s (g\<lparr>service_hash := (service_hash g)(s_name sv \<mapsto> s)\<rparr>)
     }"

definition bus_service_get_primary_owner :: "registry \<Rightarrow> sid \<Rightarrow> oid option option" where
  "bus_service_get_primary_owner g s =
     map_option (\<lambda>xs. case xs of [] \<Rightarrow> None | x # _ \<Rightarrow> Some x) (owners g s)"

definition bus_service_get_primary_owners_connection :: "registry \<Rightarrow> sid \<Rightarrow> cid option option" where
  "bus_service_get_primary_owners_connection g s =
     (case bus_service_get_primary_owner g s of
        None \<Rightarrow> None
      | Some None \<Rightarrow> Some None
      | Some (Some x) \<Rightarrow> map_option (\<lambda>ow. Some (o_conn ow)) (owner_of g x))"

definition bus_service_get_allow_replacement :: "registry \<Rightarrow> sid \<Rightarrow> bool option" where
  "bus_service_get_allow_replacement g s =
     do { xs \<leftarrow> owners g s; if xs = [] then None else map_option allow_replacement (owner_of g (hd xs)) }"

definition bus_service_has_owner :: "registry \<Rightarrow> sid \<Rightarrow> cid \<Rightarrow> bool option" where
  "bus_service_has_owner g s c = map_option (\<lambda>l. l \<noteq> None) (bus_service_find_owner_link g s c)"

text \<open>\<open>bus_service_list_queued_owners\<close> appends the unique names of the owners to a list.\<close>

fun queued_loop :: "bus \<Rightarrow> oid list \<Rightarrow> string option list \<Rightarrow> script \<Rightarrow> (string option list option \<times> script) option" where
  "queued_loop st [] acc r = Some (Some acc, r)"
| "queued_loop st (x # xs) acc r =
     (case owner_of (reg st) x of
        None \<Rightarrow> None
      | Some ow \<Rightarrow>
          let (ok, r) = malloc r in
          if \<not> ok then Some (None, r) else queued_loop st xs (acc @ [unique_name st (o_conn ow)]) r)"

definition bus_service_list_queued_owners :: "sid \<Rightarrow> bus \<Rightarrow> (string option list option \<times> bus) option" where
  "bus_service_list_queued_owners s st =
     do {
       xs \<leftarrow> owners (reg st) s;
       (res, r) \<leftarrow> queued_loop st xs [] (mem st);
       Some (res, st\<lparr>mem := r\<rparr>)
     }"

section \<open>Cancel hooks\<close>

text \<open>Changing the registry inside a state.\<close>

definition on_reg :: "(registry \<Rightarrow> registry option) \<Rightarrow> bus \<Rightarrow> bus option" where
  "on_reg f st = map_option (\<lambda>g. st\<lparr>reg := g\<rparr>) (f (reg st))"

definition cancel_ownership :: "bus_env \<Rightarrow> sid \<Rightarrow> oid \<Rightarrow> registry \<Rightarrow> registry option" where
  "cancel_ownership env s x g =
     do {
       g \<leftarrow> bus_service_unlink_owner env s x g;
       xs \<leftarrow> owners g s;
       if xs = [] then bus_service_unlink env s g else Some g
     }"

definition free_ownership_cancel_data :: "bus_env \<Rightarrow> sid \<Rightarrow> oid \<Rightarrow> registry \<Rightarrow> registry option" where
  "free_ownership_cancel_data env s x g =
     do { g \<leftarrow> bus_owner_unref env x g; bus_service_unref env s g }"

definition add_cancel_ownership_to_transaction :: "tid \<Rightarrow> sid \<Rightarrow> oid \<Rightarrow> bus \<Rightarrow> (bool \<times> bus) option" where
  "add_cancel_ownership_to_transaction tx s x st =
     (let (ok, st) = alloc st in
      if \<not> ok then Some (False, st)
      else let (ok, st) = add_cancel_hook tx (Cancel_Ownership s x) st in
        if \<not> ok then Some (False, st)
        else do { st \<leftarrow> on_reg (bus_service_ref s) st; st \<leftarrow> on_reg (bus_owner_ref x) st; Some (True, st) })"

text \<open>The restore hook holds two preallocated links and a preallocated hash entry. It inserts the
  owner before the one that followed it (\<open>_dbus_list_insert_before_link\<close> with no such link
  appends).\<close>

definition insert_before :: "'a option \<Rightarrow> 'a \<Rightarrow> 'a list \<Rightarrow> 'a list" where
  "insert_before b x xs =
     (case b of
        None \<Rightarrow> xs @ [x]
      | Some y \<Rightarrow> takeWhile (\<lambda>z. z \<noteq> y) xs @ x # dropWhile (\<lambda>z. z \<noteq> y) xs)"

definition restore_ownership :: "bus_env \<Rightarrow> sid \<Rightarrow> oid \<Rightarrow> oid option \<Rightarrow> registry \<Rightarrow> registry option" where
  "restore_ownership env s x follower g =
     do {
       xs \<leftarrow> owners g s;
       g \<leftarrow> (if xs = [] then bus_service_relink env s g
            else do { assertion env False; Some g });
       g \<leftarrow> set_owners s (insert_before follower x xs) g;
       ow \<leftarrow> owner_of g x;
       Some (bus_connection_add_owned_service_link (o_conn ow) s g)
     }"

definition free_ownership_restore_data :: "bus_env \<Rightarrow> sid \<Rightarrow> oid \<Rightarrow> registry \<Rightarrow> registry option" where
  "free_ownership_restore_data env s x g =
     do { g \<leftarrow> bus_owner_unref env x g; bus_service_unref env s g }"

text \<open>The owner after \<open>x\<close> in the queue; the three preallocations are tried in any case.\<close>

fun owner_after :: "oid \<Rightarrow> oid list \<Rightarrow> oid option" where
  "owner_after x [] = None"
| "owner_after x (y # ys) = (if y = x then (case ys of [] \<Rightarrow> None | z # _ \<Rightarrow> Some z) else owner_after x ys)"

definition add_restore_ownership_to_transaction ::
    "bus_env \<Rightarrow> tid \<Rightarrow> sid \<Rightarrow> oid \<Rightarrow> bus \<Rightarrow> (bool \<times> bus) option" where
  "add_restore_ownership_to_transaction env tx s x st =
     (let (ok, st) = alloc st in
      if \<not> ok then Some (False, st)
      else let (service_link, st) = alloc st; (owner_link, st) = alloc st; (hash_entry, st) = alloc st in
        do {
          st \<leftarrow> on_reg (bus_service_ref s) st;
          st \<leftarrow> on_reg (bus_owner_ref x) st;
          xs \<leftarrow> owners (reg st) s;
          let (ok, st) = (if service_link \<and> owner_link \<and> hash_entry
                          then add_cancel_hook tx (Restore_Ownership s x (owner_after x xs)) st
                          else (False, st));
          if \<not> ok then do { st \<leftarrow> on_reg (free_ownership_restore_data env s x) st; Some (False, st) }
          else Some (True, st)
        })"

definition restore_pending :: "string \<Rightarrow> pending_entry list \<Rightarrow> bus \<Rightarrow> bus" where
  "restore_pending name es st = st\<lparr>pending_activations := (pending_activations st)(name \<mapsto> es)\<rparr>"

definition add_restore_pending_to_transaction :: "tid \<Rightarrow> string \<Rightarrow> pending_entry list \<Rightarrow> bus \<Rightarrow> bool \<times> bus" where
  "add_restore_pending_to_transaction tx name es st =
     (let (ok, st) = alloc st in
      if \<not> ok then (False, st)
      else let (hash_entry, st) = alloc st in
        if \<not> hash_entry then (False, st) else add_cancel_hook tx (Restore_Pending name es) st)"

section \<open>The ends of a transaction\<close>

definition cancel_hook_cancel :: "bus_env \<Rightarrow> hook \<Rightarrow> bus \<Rightarrow> bus option" where
  "cancel_hook_cancel env h st =
     (case h of
        Cancel_Ownership s x \<Rightarrow> on_reg (cancel_ownership env s x) st
      | Restore_Ownership s x follower \<Rightarrow> on_reg (restore_ownership env s x follower) st
      | Restore_Pending name es \<Rightarrow> Some (restore_pending name es st))"

definition cancel_hook_free :: "bus_env \<Rightarrow> hook \<Rightarrow> bus \<Rightarrow> bus option" where
  "cancel_hook_free env h st =
     (case h of
        Cancel_Ownership s x \<Rightarrow> on_reg (free_ownership_cancel_data env s x) st
      | Restore_Ownership s x follower \<Rightarrow> on_reg (free_ownership_restore_data env s x) st
      | Restore_Pending name es \<Rightarrow> Some st)"

fun each_hook :: "(hook \<Rightarrow> bus \<Rightarrow> bus option) \<Rightarrow> hook list \<Rightarrow> bus \<Rightarrow> bus option" where
  "each_hook f [] st = Some st"
| "each_hook f (h # hs) st = do { st \<leftarrow> f h st; each_hook f hs st }"

definition free_cancel_hooks :: "bus_env \<Rightarrow> tid \<Rightarrow> bus \<Rightarrow> bus option" where
  "free_cancel_hooks env tx st =
     do {
       st \<leftarrow> each_hook (cancel_hook_free env) (cancel_hooks (trans st) tx) st;
       Some (st\<lparr>trans := (trans st)\<lparr>cancel_hooks := (cancel_hooks (trans st))(tx := [])\<rparr>\<rparr>)
     }"

definition bus_transaction_cancel_and_free :: "bus_env \<Rightarrow> tid \<Rightarrow> bus \<Rightarrow> bus option" where
  "bus_transaction_cancel_and_free env tx st =
     do {
       let st = st\<lparr>trans := bus_transaction_cancel_messages tx (trans st)\<rparr>;
       st \<leftarrow> each_hook (cancel_hook_cancel env) (cancel_hooks (trans st) tx) st;
       free_cancel_hooks env tx st
     }"

definition bus_transaction_execute_and_free :: "bus_env \<Rightarrow> tid \<Rightarrow> bus \<Rightarrow> bus option" where
  "bus_transaction_execute_and_free env tx st =
     free_cancel_hooks env tx (st\<lparr>trans := bus_transaction_execute_messages tx (trans st)\<rparr>)"

section \<open>Queue operations\<close>

text \<open>Inserting after the first owner, and moving an owner there.\<close>

definition insert_after_first :: "'a \<Rightarrow> 'a list \<Rightarrow> 'a list" where
  "insert_after_first x xs = (case xs of [] \<Rightarrow> [x] | y # ys \<Rightarrow> y # x # ys)"

definition bus_service_add_owner :: "bus_env \<Rightarrow> tid \<Rightarrow> sid \<Rightarrow> cid \<Rightarrow> 32 word \<Rightarrow> bus \<Rightarrow> (bool \<times> bus) option" where
  "bus_service_add_owner env tx s c flags st =
     do {
       sv \<leftarrow> service_of (reg st) s;
       let (ok, st) = (if s_owners sv = [] then bus_driver_send_service_acquired env tx c (s_name sv) st
                       else (True, st));
       if \<not> ok then Some (False, st)
       else do {
         link \<leftarrow> bus_service_find_owner_link (reg st) s c;
         case link of
           None \<Rightarrow>
             (case bus_owner_new s c flags st of
                (None, st) \<Rightarrow> Some (False, st)
              | (Some x, st) \<Rightarrow>
                  do {
                    st \<leftarrow> on_reg (bus_owner_set_flags x flags) st;
                    let (ok, st) = alloc st;
                    if \<not> ok then do { st \<leftarrow> on_reg (bus_owner_unref env x) st; Some (False, st) }
                    else do {
                      st \<leftarrow> on_reg (set_owners s
                        (if \<not> name_flag_replace_existing flags \<or> s_owners sv = [] then s_owners sv @ [x]
                         else insert_after_first x (s_owners sv))) st;
                      (ok, st) \<leftarrow> add_cancel_ownership_to_transaction tx s x st;
                      if \<not> ok then do { st \<leftarrow> on_reg (bus_service_unlink_owner env s x) st; Some (False, st) }
                      else Some (True, st)
                    }
                  })
         | Some x \<Rightarrow>
             do {
               st \<leftarrow> (if name_flag_replace_existing flags
                      then do {
                        let rest = remove1 x (s_owners sv);
                        assertion env (rest \<noteq> []);
                        on_reg (set_owners s (insert_after_first x rest)) st
                      }
                      else Some st);
               st \<leftarrow> on_reg (bus_owner_set_flags x flags) st;
               Some (True, st)
             }
       }
     }"

text \<open>The two notifications of a new primary owner, \<open>next\<close> in the queue.\<close>

definition notify_next_owner :: "bus_env \<Rightarrow> tid \<Rightarrow> cid \<Rightarrow> service \<Rightarrow> oid \<Rightarrow> bus \<Rightarrow> (bool \<times> bus) option" where
  "notify_next_owner env tx c sv x st =
     do {
       ow \<leftarrow> owner_of (reg st) x;
       let (ok, st) = bus_driver_send_service_owner_changed env tx (s_name sv)
                        (unique_name st c) (unique_name st (o_conn ow)) st;
       if \<not> ok then Some (False, st)
       else Some (bus_driver_send_service_acquired env tx (o_conn ow) (s_name sv) st)
     }"

definition bus_service_swap_owner :: "bus_env \<Rightarrow> tid \<Rightarrow> sid \<Rightarrow> cid \<Rightarrow> bus \<Rightarrow> (bool \<times> bus) option" where
  "bus_service_swap_owner env tx s c st =
     do {
       sv \<leftarrow> service_of (reg st) s;
       case s_owners sv of
         x # y # rest \<Rightarrow>
           do {
             ow \<leftarrow> owner_of (reg st) x;
             assertion env (o_conn ow = c);
             let (ok, st) = bus_driver_send_service_lost env tx c (s_name sv) st;
             if \<not> ok then Some (False, st)
             else do {
               (ok, st) \<leftarrow> notify_next_owner env tx c sv y st;
               if \<not> ok then Some (False, st)
               else do {
                 (ok, st) \<leftarrow> add_restore_ownership_to_transaction env tx s x st;
                 if \<not> ok then Some (False, st)
                 else do { st \<leftarrow> on_reg (set_owners s (insert_after_first x (y # rest))) st; Some (True, st) }
               }
             }
           }
       | _ \<Rightarrow> None
     }"

definition bus_service_remove_owner :: "bus_env \<Rightarrow> tid \<Rightarrow> sid \<Rightarrow> cid \<Rightarrow> bus \<Rightarrow> (bool \<times> bus) option" where
  "bus_service_remove_owner env tx s c st =
     do {
       sv \<leftarrow> service_of (reg st) s;
       primary \<leftarrow> bus_service_get_primary_owners_connection (reg st) s;
       if primary = Some c then
         do {
           let (ok, st) = bus_driver_send_service_lost env tx c (s_name sv) st;
           if \<not> ok then Some (False, st)
           else do {
             (ok, st) \<leftarrow> (case s_owners sv of
                 x # y # _ \<Rightarrow> notify_next_owner env tx c sv y st
               | _ \<Rightarrow> Some (bus_driver_send_service_owner_changed env tx (s_name sv) (unique_name st c) None st));
             if \<not> ok then Some (False, st)
             else do {
               let x = hd (s_owners sv);
               (ok, st) \<leftarrow> add_restore_ownership_to_transaction env tx s x st;
               if \<not> ok then Some (False, st)
               else do {
                 st \<leftarrow> on_reg (bus_service_unlink_owner env s x) st;
                 xs \<leftarrow> owners (reg st) s;
                 st \<leftarrow> (if xs = [] then on_reg (bus_service_unlink env s) st else Some st);
                 Some (True, st)
               }
             }
           }
         }
       else
         do {
           link \<leftarrow> bus_service_find_owner_link (reg st) s c;
           case link of
             None \<Rightarrow> None
           | Some x \<Rightarrow>
               do {
                 st \<leftarrow> on_reg (set_owners s (remove1 x (s_owners sv))) st;
                 st \<leftarrow> on_reg (bus_owner_unref env x) st;
                 Some (True, st)
               }
         }
     }"

section \<open>Pending activations of a name\<close>

text \<open>The reply to each client that asked for the name to be started (three allocations and the
  send), and the messages held for automatic starts, which go to the new owner.\<close>

fun service_created_loop :: "bus_env \<Rightarrow> tid \<Rightarrow> pending_entry list \<Rightarrow> bus \<Rightarrow> bool \<times> bus" where
  "service_created_loop env tx [] st = (True, st)"
| "service_created_loop env tx (e # es) st =
     (if connected (trans st) (e_conn e) \<and> \<not> e_auto e then
        (let (ok, st) = alloc st in if \<not> ok then (False, st)
         else let (ok, st) = alloc st in if \<not> ok then (False, st)
         else let (ok, st) = bus_transaction_send_from_driver env tx (e_conn e) (Start_Reply (e_message e)) st in
           if \<not> ok then (False, st) else service_created_loop env tx es st)
      else service_created_loop env tx es st)"

definition bus_activation_service_created :: "bus_env \<Rightarrow> tid \<Rightarrow> string \<Rightarrow> bus \<Rightarrow> bool \<times> bus" where
  "bus_activation_service_created env tx name st =
     (case pending_activations st name of
        None \<Rightarrow> (True, st)
      | Some es \<Rightarrow> service_created_loop env tx es st)"

fun auto_activation_loop :: "bus_env \<Rightarrow> tid \<Rightarrow> cid option \<Rightarrow> pending_entry list \<Rightarrow> bus \<Rightarrow> (bus_error + unit) \<times> bus" where
  "auto_activation_loop env tx addressed [] st = (Inr (), st)"
| "auto_activation_loop env tx addressed (e # es) st =
     (if e_auto e \<and> connected (trans st) (e_conn e) then
        (case bus_dispatch_matches env tx addressed (Held (e_message e)) st of
           (Inl err, st) \<Rightarrow> (Inl err, st)
         | (Inr _, st) \<Rightarrow> auto_activation_loop env tx addressed es st)
      else auto_activation_loop env tx addressed es st)"

definition bus_activation_send_pending_auto_activation_messages ::
    "bus_env \<Rightarrow> tid \<Rightarrow> sid \<Rightarrow> bus \<Rightarrow> ((bus_error + unit) \<times> bus) option" where
  "bus_activation_send_pending_auto_activation_messages env tx s st =
     do {
       sv \<leftarrow> service_of (reg st) s;
       case pending_activations st (s_name sv) of
         None \<Rightarrow> Some (Inr (), st)
       | Some es \<Rightarrow>
           do {
             addressed \<leftarrow> bus_service_get_primary_owners_connection (reg st) s;
             case auto_activation_loop env tx addressed es st of
               (Inl e, st) \<Rightarrow> Some (Inl e, st)
             | (Inr _, st) \<Rightarrow>
                 let (ok, st) = add_restore_pending_to_transaction tx (s_name sv) es st in
                 if \<not> ok then Some (Inl No_Memory, st)
                 else Some (Inr (), st\<lparr>pending_activations := (pending_activations st)(s_name sv := None)\<rparr>)
           }
     }"

section \<open>The registry\<close>

definition bus_registry_ensure ::
    "bus_env \<Rightarrow> tid \<Rightarrow> string \<Rightarrow> cid \<Rightarrow> 32 word \<Rightarrow> bus \<Rightarrow> (sid option \<times> bus) option" where
  "bus_registry_ensure env tx name c flags st =
     (case bus_registry_lookup (reg st) name of
        Some s \<Rightarrow> Some (Some s, st)
      | None \<Rightarrow>
          let (ok, st) = alloc st in if \<not> ok then Some (None, st)
          else let s = new_service (reg st); st = st\<lparr>reg := (reg st)\<lparr>new_service := Suc s\<rparr>\<rparr>;
                   (ok, st) = alloc st in
            if \<not> ok then Some (None, st)
            else let st = st\<lparr>reg := (reg st)\<lparr>service_of := (service_of (reg st))(s \<mapsto>
                            \<lparr>s_refs = 1, s_name = name, s_owners = []\<rparr>)\<rparr>\<rparr>;
                     (ok, st) = bus_driver_send_service_owner_changed env tx name None (unique_name st c) st in
              if \<not> ok then do { st \<leftarrow> on_reg (bus_service_unref env s) st; Some (None, st) }
              else let (ok, st) = bus_activation_service_created env tx name st in
                if \<not> ok then do { st \<leftarrow> on_reg (bus_service_unref env s) st; Some (None, st) }
                else do {
                  (ok, st) \<leftarrow> bus_service_add_owner env tx s c flags st;
                  if \<not> ok then do { st \<leftarrow> on_reg (bus_service_unref env s) st; Some (None, st) }
                  else let (ok, st) = alloc st in
                    if \<not> ok then Some (None, st)
                    else Some (Some s, st\<lparr>reg := (reg st)\<lparr>service_hash := (service_hash (reg st))(name \<mapsto> s)\<rparr>\<rparr>)
                })"

datatype request_reply = Primary_Owner | In_Queue | Exists | Already_Owner

definition DBUS_SERVICE_DBUS :: string where
  "DBUS_SERVICE_DBUS = ''org.freedesktop.DBus''"

text \<open>The checks before the registry is touched.\<close>

definition acquire_checks :: "bus_env \<Rightarrow> cid \<Rightarrow> string \<Rightarrow> bus \<Rightarrow> bus_error option" where
  "acquire_checks env c name st =
     (if \<not> dbus_validate_bus_name name 0 (length name) then Some Invalid_Args
      else if hd name = CHR '':'' then Some Invalid_Args
      else if name = DBUS_SERVICE_DBUS then Some Invalid_Args
      else if \<not> selinux_allows env c name then Some Access_Denied
      else if \<not> can_own env c name then Some Access_Denied
      else if n_services_owned (reg st) c \<ge> max_services env then Some Limits_Exceeded
      else None)"

text \<open>What is done once there is a primary owner \<open>x\<close>; \<open>old\<close> is the connection that was the primary
  owner before.\<close>

definition acquire_decide ::
    "bus_env \<Rightarrow> tid \<Rightarrow> sid \<Rightarrow> oid \<Rightarrow> cid option \<Rightarrow> cid \<Rightarrow> 32 word \<Rightarrow> bus \<Rightarrow> ((bus_error + request_reply) \<times> bus) option" where
  "acquire_decide env tx s x old c flags st =
     do {
       ow \<leftarrow> owner_of (reg st) x;
       may_replace \<leftarrow> bus_service_get_allow_replacement (reg st) s;
       case old of
         None \<Rightarrow> do { assertion env (o_conn ow = c); Some (Inr Primary_Owner, st) }
       | Some oc \<Rightarrow>
           if oc = c then do { st \<leftarrow> on_reg (bus_owner_set_flags x flags) st; Some (Inr Already_Owner, st) }
           else if name_flag_do_not_queue flags \<and> \<not> may_replace \<or>
                   name_flag_do_not_queue flags \<and> \<not> name_flag_replace_existing flags then
             do {
               link \<leftarrow> bus_service_find_owner_link (reg st) s c;
               st \<leftarrow> (case link of
                   None \<Rightarrow> Some st
                 | Some y \<Rightarrow>
                     do {
                       xs \<leftarrow> owners (reg st) s;
                       st \<leftarrow> on_reg (set_owners s (remove1 y xs)) st;
                       on_reg (bus_owner_unref env y) st
                     });
               Some (Inr Exists, st)
             }
           else if \<not> name_flag_do_not_queue flags \<and> (\<not> name_flag_replace_existing flags \<or> \<not> may_replace) then
             do {
               (ok, st) \<leftarrow> bus_service_add_owner env tx s c flags st;
               Some (if \<not> ok then Inl No_Memory else Inr In_Queue, st)
             }
           else
             do {
               (ok, st) \<leftarrow> bus_service_add_owner env tx s c flags st;
               if \<not> ok then Some (Inl No_Memory, st)
               else do {
                 pw \<leftarrow> owner_of (reg st) x;
                 (ok, st) \<leftarrow> (if do_not_queue pw then bus_service_remove_owner env tx s oc st
                              else bus_service_swap_owner env tx s oc st);
                 if \<not> ok then Some (Inl No_Memory, st)
                 else do {
                   pc \<leftarrow> bus_service_get_primary_owners_connection (reg st) s;
                   assertion env (pc = Some c);
                   Some (Inr Primary_Owner, st)
                 }
               }
             }
     }"

definition bus_registry_acquire_service ::
    "bus_env \<Rightarrow> tid \<Rightarrow> cid \<Rightarrow> string \<Rightarrow> 32 word \<Rightarrow> bus \<Rightarrow> ((bus_error + request_reply) \<times> bus) option" where
  "bus_registry_acquire_service env tx c name flags st =
     (case acquire_checks env c name st of
        Some e \<Rightarrow> Some (Inl e, st)
      | None \<Rightarrow>
          do {
            old \<leftarrow> (case bus_registry_lookup (reg st) name of
                None \<Rightarrow> Some None
              | Some s \<Rightarrow> bus_service_get_primary_owners_connection (reg st) s);
            (service, st) \<leftarrow> (case bus_registry_lookup (reg st) name of
                None \<Rightarrow> bus_registry_ensure env tx name c flags st
              | Some s \<Rightarrow> Some (Some s, st));
            case service of
              None \<Rightarrow> Some (Inl No_Memory, st)
            | Some s \<Rightarrow>
                do {
                  primary \<leftarrow> bus_service_get_primary_owner (reg st) s;
                  case primary of
                    None \<Rightarrow> Some (Inl Error_Unset, st)
                  | Some x \<Rightarrow>
                      do {
                        (res, st) \<leftarrow> acquire_decide env tx s x old c flags st;
                        case res of
                          Inl e \<Rightarrow> Some (Inl e, st)
                        | Inr reply \<Rightarrow>
                            do {
                              (sent, st) \<leftarrow> bus_activation_send_pending_auto_activation_messages env tx s st;
                              Some (case sent of Inl e \<Rightarrow> Inl e | Inr _ \<Rightarrow> Inr reply, st)
                            }
                      }
                }
          })"

datatype release_reply = Released | Non_Existent | Not_Owner

definition release_checks :: "string \<Rightarrow> bus_error option" where
  "release_checks name =
     (if \<not> dbus_validate_bus_name name 0 (length name) then Some Invalid_Args
      else if hd name = CHR '':'' then Some Invalid_Args
      else if name = DBUS_SERVICE_DBUS then Some Invalid_Args
      else None)"

definition bus_registry_release_service ::
    "bus_env \<Rightarrow> tid \<Rightarrow> cid \<Rightarrow> string \<Rightarrow> bus \<Rightarrow> ((bus_error + release_reply) \<times> bus) option" where
  "bus_registry_release_service env tx c name st =
     (case release_checks name of
        Some e \<Rightarrow> Some (Inl e, st)
      | None \<Rightarrow>
          (case bus_registry_lookup (reg st) name of
             None \<Rightarrow> Some (Inr Non_Existent, st)
           | Some s \<Rightarrow>
               do {
                 has \<leftarrow> bus_service_has_owner (reg st) s c;
                 if \<not> has then Some (Inr Not_Owner, st)
                 else do {
                   (ok, st) \<leftarrow> bus_service_remove_owner env tx s c st;
                   if \<not> ok then Some (Inl No_Memory, st)
                   else Some (Inr Released, st)
                 }
               }))"

text \<open>\<open>RequestName\<close> and \<open>ReleaseName\<close> reply to the caller: a method return, its argument, the send.\<close>

definition send_reply :: "bus_env \<Rightarrow> tid \<Rightarrow> cid \<Rightarrow> notice \<Rightarrow> bus \<Rightarrow> bool \<times> bus" where
  "send_reply env tx c m st =
     (let (ok, st) = alloc st in if \<not> ok then (False, st)
      else let (ok, st) = alloc st in if \<not> ok then (False, st)
      else bus_transaction_send_from_driver env tx c m st)"

definition request_code :: "request_reply \<Rightarrow> nat" where
  "request_code a = (case a of Primary_Owner \<Rightarrow> 1 | In_Queue \<Rightarrow> 2 | Exists \<Rightarrow> 3 | Already_Owner \<Rightarrow> 4)"

definition release_code :: "release_reply \<Rightarrow> nat" where
  "release_code a = (case a of Released \<Rightarrow> 1 | Non_Existent \<Rightarrow> 2 | Not_Owner \<Rightarrow> 3)"

definition bus_driver_handle_acquire_service ::
    "bus_env \<Rightarrow> tid \<Rightarrow> cid \<Rightarrow> nat \<Rightarrow> string \<Rightarrow> 32 word \<Rightarrow> bus \<Rightarrow> ((bus_error + request_reply) \<times> bus) option" where
  "bus_driver_handle_acquire_service env tx c serial name flags st =
     do {
       (res, st) \<leftarrow> bus_registry_acquire_service env tx c name flags st;
       case res of
         Inl e \<Rightarrow> Some (Inl e, st)
       | Inr reply \<Rightarrow>
           let (ok, st) = send_reply env tx c (Reply serial (request_code reply)) st in
           Some (if \<not> ok then Inl No_Memory else Inr reply, st)
     }"

definition bus_driver_handle_release_service ::
    "bus_env \<Rightarrow> tid \<Rightarrow> cid \<Rightarrow> nat \<Rightarrow> string \<Rightarrow> bus \<Rightarrow> ((bus_error + release_reply) \<times> bus) option" where
  "bus_driver_handle_release_service env tx c serial name st =
     do {
       (res, st) \<leftarrow> bus_registry_release_service env tx c name st;
       case res of
         Inl e \<Rightarrow> Some (Inl e, st)
       | Inr reply \<Rightarrow>
           let (ok, st) = send_reply env tx c (Reply serial (release_code reply)) st in
           Some (if \<not> ok then Inl No_Memory else Inr reply, st)
     }"

text \<open>The part of \<open>bus_connection_disconnected\<close> that drops the names of a connection: one
  transaction per name, the last one first, tried again until there is memory. Waiting for
  memory is the script running on.\<close>

partial_function (option) drop_names :: "bus_env \<Rightarrow> tid \<Rightarrow> cid \<Rightarrow> bus \<Rightarrow> bus option" where
  "drop_names env tx c st =
     (if services_owned (reg st) c = [] then Some st
      else let (ok, st) = alloc st in
        if \<not> ok then drop_names env tx c st
        else do {
          (ok, st) \<leftarrow> bus_service_remove_owner env tx (last (services_owned (reg st) c)) c st;
          st \<leftarrow> (if ok then bus_transaction_execute_and_free env tx st
                 else bus_transaction_cancel_and_free env tx st);
          drop_names env tx c st
        })"

text \<open>\<open>bus_registry_list_services\<close> over the names the hash iteration yields: an array, then a copy of
  each name. The error exit frees \<open>retval[i]\<close>, which is NULL, once per copy made; the last
  component is the copies nobody frees.\<close>

fun strdup_loop :: "string list \<Rightarrow> string list \<Rightarrow> script \<Rightarrow> (string list + string list) \<times> script" where
  "strdup_loop [] acc r = (Inr acc, r)"
| "strdup_loop (n # ns) acc r =
     (let (ok, r) = malloc r in if \<not> ok then (Inl acc, r) else strdup_loop ns (acc @ [n]) r)"

definition bus_registry_list_services :: "string list \<Rightarrow> script \<Rightarrow> string list option \<times> string list \<times> script" where
  "bus_registry_list_services names r =
     (let (ok, r) = malloc r in
      if \<not> ok then (None, [], r)
      else case strdup_loop names [] r of
        (Inr copies, r) \<Rightarrow> (Some copies, [], r)
      | (Inl copies, r) \<Rightarrow> (None, copies, r))"

section \<open>Sending leaves the registry alone\<close>

definition quiet :: "bus \<Rightarrow> bus \<Rightarrow> bool" where
  "quiet st st' \<longleftrightarrow> reg st' = reg st \<and> unique_name st' = unique_name st \<and>
     pending_activations st' = pending_activations st \<and>
     cancel_hooks (trans st') = cancel_hooks (trans st) \<and> connected (trans st') = connected (trans st)"

named_theorems quiets

lemma quiet_refl [simp]: "quiet st st"
  by (simp add: quiet_def)

lemma quiet_trans: "quiet a b \<Longrightarrow> quiet b c \<Longrightarrow> quiet a c"
  by (simp add: quiet_def)

lemma quiet_alloc [quiets]: "alloc st = (ok, st') \<Longrightarrow> quiet st st'"
  by (auto simp: alloc_def quiet_def split: prod.splits)

lemma quiet_send [quiets]: "send tx c m st = (ok, st') \<Longrightarrow> quiet st st'"
proof -
  assume *: "send tx c m st = (ok, st')"
  obtain b t r where s: "bus_transaction_send tx c m (trans st) (mem st) = (b, t, r)" by (metis prod_cases3)
  have "cancel_hooks t = cancel_hooks (trans st) \<and> connected t = connected (trans st)"
  proof (cases b)
    case True
    then show ?thesis using s send_waiting(2,4) by (metis (full_types))
  next
    case False
    then show ?thesis using s send_fails by (metis (full_types))
  qed
  then show ?thesis using * s by (auto simp: send_def quiet_def)
qed

text \<open>Steps in a row: if every step that may run is quiet, so is the whole.\<close>

definition hushed :: "(bus \<Rightarrow> 'a \<times> bus) \<Rightarrow> bool" where
  "hushed f \<longleftrightarrow> (\<forall>st. quiet st (snd (f st)))"

lemma hushed_quiet: "hushed f \<Longrightarrow> f st = (x, st') \<Longrightarrow> quiet st st'"
  by (metis hushed_def snd_conv)

lemma hushed_return: "hushed (\<lambda>st. (x, st))"
  by (simp add: hushed_def)

lemma hushed_bind:
  assumes "hushed f" "\<And>x. hushed (g x)"
  shows "hushed (\<lambda>st. let (x, st) = f st in g x st)"
proof -
  have "quiet st (snd (let (x, st) = f st in g x st))" for st
  proof (cases "f st")
    case (Pair x st1)
    then have "quiet st st1" "quiet st1 (snd (g x st1))" using assms by (auto simp: hushed_def) (metis snd_conv)
    with Pair show ?thesis using quiet_trans by auto
  qed
  then show ?thesis by (simp add: hushed_def)
qed

lemma hushed_if: "hushed f \<Longrightarrow> hushed g \<Longrightarrow> hushed (\<lambda>st. if b st then f st else g st)"
  by (simp add: hushed_def)

lemma hushed_alloc: "hushed alloc"
  using quiet_alloc by (metis hushed_def prod.collapse)

lemma hushed_send: "hushed (send tx c m)"
  using quiet_send by (metis hushed_def prod.collapse)

lemma hushed_from_driver: "hushed (bus_transaction_send_from_driver env tx c m)"
  unfolding bus_transaction_send_from_driver_def
  by (intro hushed_bind hushed_if hushed_return hushed_alloc hushed_send)

lemma hushed_driver_signal: "hushed (driver_signal env tx c m)"
  unfolding driver_signal_def
  by (intro hushed_bind hushed_if hushed_return hushed_alloc hushed_from_driver)

lemma hushed_lost: "hushed (bus_driver_send_service_lost env tx c n)"
  and hushed_acquired: "hushed (bus_driver_send_service_acquired env tx c n)"
  unfolding bus_driver_send_service_lost_def bus_driver_send_service_acquired_def
  by (rule hushed_driver_signal)+

lemma hushed_one: "hushed (send_one_message env tx c m)"
  unfolding send_one_message_def by (intro hushed_if hushed_return hushed_send)

lemma hushed_dispatch_loop: "hushed (dispatch_loop env tx m cs)"
proof (induction cs)
  case Nil
  then show ?case by (simp add: hushed_def)
next
  case (Cons c cs)
  have "dispatch_loop env tx m (c # cs) =
      (\<lambda>st. let (ok, st) = send_one_message env tx c m st in
        if \<not> ok then (False, st) else dispatch_loop env tx m cs st)"
    by (simp add: fun_eq_iff)
  then show ?case using Cons by (simp only:) (intro hushed_bind hushed_if hushed_return hushed_one)
qed

lemma hushed_dispatch: "hushed (bus_dispatch_matches env tx addressed m)"
proof -
  have "hushed (dispatch_addressed env tx addressed m)"
  proof (cases addressed)
    case None
    then show ?thesis by (simp add: dispatch_addressed_def hushed_def)
  next
    case (Some c)
    show ?thesis
      unfolding dispatch_addressed_def Some option.case
      by (intro hushed_bind hushed_if hushed_return hushed_send)
  qed
  then show ?thesis
    unfolding bus_dispatch_matches_def
    by (intro hushed_bind hushed_if hushed_return hushed_alloc hushed_dispatch_loop)
qed

lemma hushed_owner_changed: "hushed (bus_driver_send_service_owner_changed env tx n old new)"
  unfolding bus_driver_send_service_owner_changed_def
  by (intro hushed_bind hushed_if hushed_return hushed_alloc hushed_dispatch)

lemma hushed_reply: "hushed (send_reply env tx c m)"
  unfolding send_reply_def by (intro hushed_bind hushed_if hushed_return hushed_alloc hushed_from_driver)

lemma hushed_service_created: "hushed (bus_activation_service_created env tx n)"
proof -
  have loop: "hushed (service_created_loop env tx es)" for es
  proof (induction es)
    case Nil
    then show ?case by (simp add: hushed_def)
  next
    case (Cons e es)
    show ?case
      unfolding service_created_loop.simps [abs_def]
      by (intro hushed_bind hushed_if hushed_return hushed_alloc hushed_from_driver Cons)
  qed
  then show ?thesis
    by (auto simp: hushed_def bus_activation_service_created_def split: option.split)
qed

lemma hook_adds:
  assumes "add_cancel_hook tx h st = (ok, st')"
  shows "reg st' = reg st \<and> unique_name st' = unique_name st \<and>
    pending_activations st' = pending_activations st \<and> connected (trans st') = connected (trans st) \<and>
    cancel_hooks (trans st') = (if ok then (cancel_hooks (trans st))(tx := h # cancel_hooks (trans st) tx)
      else cancel_hooks (trans st))"
  using assms by (auto simp: add_cancel_hook_def bus_transaction_add_cancel_hook_def Let_def
      split: prod.splits if_splits)

section \<open>What each step does to the registry and to the hooks\<close>

definition moves :: "tid \<Rightarrow> hook list \<Rightarrow> registry \<Rightarrow> bus \<Rightarrow> bus \<Rightarrow> bool" where
  "moves tx hs g st st' \<longleftrightarrow> reg st' = g \<and>
     cancel_hooks (trans st') = (cancel_hooks (trans st))(tx := hs @ cancel_hooks (trans st) tx) \<and>
     unique_name st' = unique_name st \<and> pending_activations st' = pending_activations st \<and>
     connected (trans st') = connected (trans st)"

lemma quiet_moves: "quiet st st' = moves tx [] (reg st) st st'"
  by (auto simp: quiet_def moves_def)

lemma moves_trans: "moves tx hs g a b \<Longrightarrow> moves tx hs' g' b c \<Longrightarrow> moves tx (hs' @ hs) g' a c"
  by (auto simp: moves_def)

lemma quiet_moves_trans: "quiet a b \<Longrightarrow> moves tx hs g b c \<Longrightarrow> moves tx hs g a c"
  by (auto simp: moves_def quiet_def)

lemma moves_quiet_trans: "moves tx hs g a b \<Longrightarrow> quiet b c \<Longrightarrow> moves tx hs g a c"
  by (auto simp: moves_def quiet_def)

lemma on_reg_moves: "f (reg st) = Some g \<Longrightarrow> \<exists>st'. on_reg f st = Some st' \<and> moves tx [] g st st'"
  by (auto simp: on_reg_def moves_def)

lemma quiet_reg: "quiet a b \<Longrightarrow> reg b = reg a"
  by (simp add: quiet_def)

lemma moves_reg: "moves tx hs g a b \<Longrightarrow> reg b = g"
  by (simp add: moves_def)

text \<open>One more reference to an owner and to its service.\<close>

definition hold :: "sid \<Rightarrow> oid \<Rightarrow> registry \<Rightarrow> registry" where
  "hold s x g = g\<lparr>
     owner_of := (owner_of g)(x := map_option (\<lambda>ow. ow\<lparr>o_refs := o_refs ow + 1\<rparr>) (owner_of g x)),
     service_of := (service_of g)(s := map_option (\<lambda>sv. sv\<lparr>s_refs := s_refs sv + 1\<rparr>) (service_of g s))\<rparr>"

lemma hold_simps [simp]:
  "owner_of (hold s x g) = (owner_of g)(x := map_option (\<lambda>ow. ow\<lparr>o_refs := o_refs ow + 1\<rparr>) (owner_of g x))"
  "service_of (hold s x g) = (service_of g)(s := map_option (\<lambda>sv. sv\<lparr>s_refs := s_refs sv + 1\<rparr>) (service_of g s))"
  "service_hash (hold s x g) = service_hash g" "services_owned (hold s x g) = services_owned g"
  "n_services_owned (hold s x g) = n_services_owned g" "new_owner (hold s x g) = new_owner g"
  "new_service (hold s x g) = new_service g"
  by (simp_all add: hold_def)

lemma hold_free:
  assumes "owner_of g x = Some ow" "service_of g s = Some sv" "o_refs ow > 0" "s_refs sv > 0"
  shows "do { g \<leftarrow> bus_owner_unref env x (hold s x g); bus_service_unref env s g } = Some g"
  using assms by (simp add: bus_owner_unref_def bus_service_unref_def hold_def fun_upd_idem)

lemma hold_refs:
  assumes "owner_of g x = Some ow" "service_of g s = Some sv"
  shows "do { g \<leftarrow> bus_service_ref s g; bus_owner_ref x g } = Some (hold s x g)"
  using assms by (simp add: bus_owner_ref_def bus_service_ref_def hold_def)

lemma add_cancel_effect:
  assumes "owner_of (reg st) x = Some ow" "service_of (reg st) s = Some sv"
  shows "\<exists>ok st'. add_cancel_ownership_to_transaction tx s x st = Some (ok, st') \<and>
    (if ok then moves tx [Cancel_Ownership s x] (hold s x (reg st)) st st' else quiet st st')"
proof -
  obtain ok1 st1 where 1: "alloc st = (ok1, st1)" by (metis prod.collapse)
  obtain ok2 st2 where 2: "add_cancel_hook tx (Cancel_Ownership s x) st1 = (ok2, st2)" by (metis prod.collapse)
  note q = quiet_alloc [OF 1] hook_adds [OF 2]
  show ?thesis using q assms
    by (auto simp: add_cancel_ownership_to_transaction_def 1 2 on_reg_def bus_owner_ref_def
        bus_service_ref_def hold_def moves_def quiet_def)
qed

lemma add_restore_effect:
  assumes x: "owner_of (reg st) x = Some ow" "o_refs ow > 0" and s: "service_of (reg st) s = Some sv" "s_refs sv > 0"
  shows "\<exists>ok st'. add_restore_ownership_to_transaction env tx s x st = Some (ok, st') \<and>
    (if ok then moves tx [Restore_Ownership s x (owner_after x (s_owners sv))] (hold s x (reg st)) st st'
     else quiet st st')"
proof -
  obtain ok1 st1 where 1: "alloc st = (ok1, st1)" by (metis prod.collapse)
  obtain ok2 st2 where 2: "alloc st1 = (ok2, st2)" by (metis prod.collapse)
  obtain ok3 st3 where 3: "alloc st2 = (ok3, st3)" by (metis prod.collapse)
  obtain ok4 st4 where 4: "alloc st3 = (ok4, st4)" by (metis prod.collapse)
  note q = quiet_alloc [OF 1] quiet_alloc [OF 2] quiet_alloc [OF 3] quiet_alloc [OF 4]
  let ?st = "st4\<lparr>reg := hold s x (reg st)\<rparr>"
  let ?h = "Restore_Ownership s x (owner_after x (s_owners sv))"
  obtain ok5 st5 where 5: "(if ok2 \<and> ok3 \<and> ok4 then add_cancel_hook tx ?h ?st else (False, ?st)) = (ok5, st5)"
    by (metis prod.collapse)
  have q5: "reg st5 = hold s x (reg st) \<and> unique_name st5 = unique_name st4 \<and>
      pending_activations st5 = pending_activations st4 \<and> connected (trans st5) = connected (trans st4) \<and>
      cancel_hooks (trans st5) = (if ok5 then (cancel_hooks (trans st4))(tx := ?h # cancel_hooks (trans st4) tx)
        else cancel_hooks (trans st4))"
    using 5 hook_adds [of tx ?h ?st] by (auto split: if_splits)
  obtain y where y: "on_reg (bus_service_ref s) st4 = Some y" "on_reg (bus_owner_ref x) y = Some ?st"
    using x s q by (simp add: on_reg_def bus_owner_ref_def bus_service_ref_def hold_def quiet_def)
  have free: "on_reg (free_ownership_restore_data env s x) st5 = Some (st5\<lparr>reg := reg st\<rparr>)"
    using hold_free [OF x(1) s(1) x(2) s(2)] q5 by (simp add: on_reg_def free_ownership_restore_data_def)
  have own: "owners (reg ?st) s = Some (s_owners sv)" using s by (simp add: owners_def)
  show ?thesis
  proof (cases ok1)
    case True
    have "add_restore_ownership_to_transaction env tx s x st =
        (if ok5 then Some (True, st5) else Some (False, st5\<lparr>reg := reg st\<rparr>))"
      using True own 5 free
      by (cases "ok2 \<and> ok3 \<and> ok4")
        (auto simp: add_restore_ownership_to_transaction_def 1 2 3 4 y)
    then show ?thesis using q q5 by (auto simp: moves_def quiet_def)
  next
    case False
    then show ?thesis using q
      by (intro exI [of _ False] exI [of _ st1]) (simp add: add_restore_ownership_to_transaction_def 1)
  qed
qed

text \<open>A new owner in the queue, before the hook takes its references; new flags on an owner; the
  registry without an owner, and without a service.\<close>

definition flagged :: "32 word \<Rightarrow> owner \<Rightarrow> owner" where
  "flagged flags ow = ow\<lparr>allow_replacement := name_flag_allow_replacement flags,
     do_not_queue := name_flag_do_not_queue flags\<rparr>"

definition fresh_owner :: "sid \<Rightarrow> cid \<Rightarrow> 32 word \<Rightarrow> owner" where
  "fresh_owner s c flags = \<lparr>o_refs = 1, o_service = s, o_conn = c,
     allow_replacement = name_flag_allow_replacement flags, do_not_queue = name_flag_do_not_queue flags\<rparr>"

definition put_queue :: "sid \<Rightarrow> oid list \<Rightarrow> registry \<Rightarrow> registry" where
  "put_queue s xs g = g\<lparr>service_of := (service_of g)(s := map_option (\<lambda>sv. sv\<lparr>s_owners := xs\<rparr>) (service_of g s))\<rparr>"

definition put_owner :: "sid \<Rightarrow> cid \<Rightarrow> 32 word \<Rightarrow> registry \<Rightarrow> registry" where
  "put_owner s c flags g = bus_connection_add_owned_service_link c s
     (g\<lparr>new_owner := Suc (new_owner g), owner_of := (owner_of g)(new_owner g \<mapsto> fresh_owner s c flags)\<rparr>)"

definition put_flags :: "oid \<Rightarrow> 32 word \<Rightarrow> registry \<Rightarrow> registry" where
  "put_flags x flags g = g\<lparr>owner_of := (owner_of g)(x := map_option (flagged flags) (owner_of g x))\<rparr>"

definition drop_owner :: "oid \<Rightarrow> registry \<Rightarrow> registry" where
  "drop_owner x g =
     (let ow = the (owner_of g x); c = o_conn ow; s = o_service ow in
      g\<lparr>services_owned := (services_owned g)(c := remove_last s (services_owned g c)),
        n_services_owned := (n_services_owned g)(c := n_services_owned g c - 1),
        owner_of := (owner_of g)(x := None)\<rparr>)"

lemma set_owners_put: "service_of g s = Some sv \<Longrightarrow> set_owners s xs g = Some (put_queue s xs g)"
  by (simp add: set_owners_def put_queue_def)

lemma set_flags_put: "owner_of g x = Some ow \<Longrightarrow> bus_owner_set_flags x flags g = Some (put_flags x flags g)"
  by (simp add: bus_owner_set_flags_def put_flags_def flagged_def)

lemma unref_drop:
  assumes "owner_of g x = Some ow" "o_refs ow = 1" "n_services_owned g (o_conn ow) > 0"
  shows "bus_owner_unref env x g = Some (drop_owner x g)"
  using assms by (simp add: bus_owner_unref_def bus_connection_remove_owned_service_def drop_owner_def
      assertion_def Let_def)

lemma remove_last_append [simp]: "remove_last x (xs @ [x]) = xs"
  by (simp add: remove_last_def)

text \<open>The registry up to the addresses that were handed out in vain.\<close>

definition same_reg :: "registry \<Rightarrow> registry \<Rightarrow> bool" where
  "same_reg g g' \<longleftrightarrow> new_owner g \<le> new_owner g' \<and> new_service g \<le> new_service g' \<and>
     g' = g\<lparr>new_owner := new_owner g', new_service := new_service g'\<rparr>"

lemma same_reg_refl [simp]: "same_reg g g"
  by (simp add: same_reg_def)

lemma same_reg_trans: "same_reg a b \<Longrightarrow> same_reg b c \<Longrightarrow> same_reg a c"
  by (cases a; cases b; cases c) (auto simp: same_reg_def)

lemma owner_new_effect:
  "\<exists>x st'. bus_owner_new s c flags st = (x, st') \<and>
    (case x of
       None \<Rightarrow> \<exists>g. same_reg (reg st) g \<and> moves tx [] g st st'
     | Some x \<Rightarrow> x = new_owner (reg st) \<and> moves tx [] (put_owner s c flags (reg st)) st st')"
proof -
  obtain ok1 st1 where 1: "alloc st = (ok1, st1)" by (metis prod.collapse)
  note q1 = quiet_alloc [OF 1]
  let ?st = "st1\<lparr>reg := (reg st1)\<lparr>new_owner := Suc (new_owner (reg st1))\<rparr>\<rparr>"
  obtain ok2 st2 where 2: "alloc ?st = (ok2, st2)" by (metis prod.collapse)
  note q2 = quiet_alloc [OF 2]
  let ?x = "new_owner (reg st1)"
  let ?g = "bus_connection_add_owned_service_link c s
    ((reg st2)\<lparr>owner_of := (owner_of (reg st2))(?x \<mapsto> fresh_owner s c flags)\<rparr>)"
  have run: "bus_owner_new s c flags st =
      (if \<not> ok1 then (None, st1) else if \<not> ok2 then (None, st2) else (Some ?x, st2\<lparr>reg := ?g\<rparr>))"
    by (simp add: bus_owner_new_def 1 2 Let_def fresh_owner_def)
  have g: "?g = put_owner s c flags (reg st)" "?x = new_owner (reg st)"
    using q1 q2 by (simp_all add: quiet_def put_owner_def)
  show ?thesis
    unfolding run g using q1 q2 by (cases ok1; cases ok2) (auto simp: moves_def quiet_def same_reg_def put_owner_def)
qed

lemma moves_on_reg:
  assumes "moves tx hs g st st1" "f g = Some g'"
  shows "\<exists>st2. on_reg f st1 = Some st2 \<and> moves tx hs g' st st2"
  using assms by (auto simp: on_reg_def moves_def)

lemma add_owner_new_effect:
  assumes s: "service_of (reg st) s = Some sv" "s_refs sv > 0"
    and c: "find_owner (reg st) c (s_owners sv) = Some None" "n_services_owned (reg st) c \<ge> 0"
    and fresh: "owner_of (reg st) (new_owner (reg st)) = None" "new_owner (reg st) \<notin> set (s_owners sv)"
    and xs: "xs = (if \<not> name_flag_replace_existing flags \<or> s_owners sv = [] then s_owners sv @ [new_owner (reg st)]
                   else insert_after_first (new_owner (reg st)) (s_owners sv))"
  shows "\<exists>ok st'. bus_service_add_owner env tx s c flags st = Some (ok, st') \<and>
    (if ok then moves tx [Cancel_Ownership s (new_owner (reg st))]
         (hold s (new_owner (reg st)) (put_queue s xs (put_owner s c flags (reg st)))) st st'
     else \<exists>g. same_reg (reg st) g \<and> moves tx [] g st st')"
proof -
  let ?x = "new_owner (reg st)" and ?g = "put_owner s c flags (reg st)"
  obtain ok1 st1 where 1: "(if s_owners sv = [] then bus_driver_send_service_acquired env tx c (s_name sv) st
      else (True, st)) = (ok1, st1)" by (metis prod.collapse)
  have q1: "quiet st st1" using 1 hushed_quiet [OF hushed_acquired] by (auto split: if_splits)
  then have r1: "reg st1 = reg st" by (rule quiet_reg)
  obtain x st2 where 2: "bus_owner_new s c flags st1 = (x, st2)" and
    q2: "case x of None \<Rightarrow> \<exists>g. same_reg (reg st) g \<and> moves tx [] g st1 st2
     | Some x \<Rightarrow> x = ?x \<and> moves tx [] ?g st1 st2"
    using owner_new_effect [of s c flags st1 tx] unfolding r1 by blast
  show ?thesis
  proof (cases "ok1 \<and> x \<noteq> None")
    case False
    have "bus_service_add_owner env tx s c flags st = Some (False, if ok1 then st2 else st1)"
      using False s c r1 by (cases x) (auto simp: bus_service_add_owner_def 1 2 bus_service_find_owner_link_def)
    moreover have "\<exists>g. same_reg (reg st) g \<and> moves tx [] g st (if ok1 then st2 else st1)"
    proof (cases ok1)
      case True
      with False q2 obtain g where "same_reg (reg st) g" "moves tx [] g st1 st2" by auto
      with True show ?thesis using quiet_moves_trans [OF q1] by auto
    next
      case False
      with q1 have "moves tx [] (reg st) st (if ok1 then st2 else st1)" by (simp add: quiet_moves [of _ _ tx])
      then show ?thesis using same_reg_refl by blast
    qed
    ultimately show ?thesis by (intro exI conjI) (assumption, simp)
  next
    case True
    then obtain x' where "x = Some x'" by auto
    with q2 have x: "x = Some ?x" and m1: "moves tx [] ?g st1 st2" by simp_all
    note m2 = quiet_moves_trans [OF q1 m1]
    have own: "owner_of ?g ?x = Some (fresh_owner s c flags)"
      by (simp add: put_owner_def bus_connection_add_owned_service_link_def)
    have flag: "put_flags ?x flags ?g = ?g"
      by (simp add: put_flags_def put_owner_def bus_connection_add_owned_service_link_def
          flagged_def fresh_owner_def)
    obtain st3 where 3: "on_reg (bus_owner_set_flags ?x flags) st2 = Some st3" and m3: "moves tx [] ?g st st3"
      using moves_on_reg [where f = "bus_owner_set_flags ?x flags", OF m2 set_flags_put [OF own]] flag by auto
    obtain ok4 st4 where 4: "alloc st3 = (ok4, st4)" by (metis prod.collapse)
    have m4: "moves tx [] ?g st st4" using moves_quiet_trans [OF m3 quiet_alloc [OF 4]] .
    have sg: "service_of ?g s = Some sv" using s
      by (simp add: put_owner_def bus_connection_add_owned_service_link_def)
    have drop: "same_reg (reg st) (drop_owner ?x ?g)"
      using fresh by (cases "reg st") (auto simp: same_reg_def drop_owner_def put_owner_def
          bus_connection_add_owned_service_link_def fresh_owner_def Let_def fun_upd_idem)
    obtain st4' where u4: "on_reg (bus_owner_unref env ?x) st4 = Some st4'" and m4': "moves tx [] (drop_owner ?x ?g) st st4'"
      using moves_on_reg [where f = "bus_owner_unref env ?x", OF m4 unref_drop [OF own]] c(2)
      by (auto simp: fresh_owner_def put_owner_def bus_connection_add_owned_service_link_def)
    obtain st5 where 5: "on_reg (set_owners s xs) st4 = Some st5" and m5: "moves tx [] (put_queue s xs ?g) st st5"
      using moves_on_reg [where f = "set_owners s xs", OF m4 set_owners_put [OF sg]] by auto
    have r5: "reg st5 = put_queue s xs ?g" using m5 by (rule moves_reg)
    have own5: "owner_of (reg st5) ?x = Some (fresh_owner s c flags)"
      and s5: "service_of (reg st5) s = Some (sv\<lparr>s_owners := xs\<rparr>)"
      using own sg by (simp_all add: r5 put_queue_def)
    obtain ok6 st6 where 6: "add_cancel_ownership_to_transaction tx s ?x st5 = Some (ok6, st6)"
      and m6: "if ok6 then moves tx [Cancel_Ownership s ?x] (hold s ?x (reg st5)) st5 st6 else quiet st5 st6"
      using add_cancel_effect [OF own5 s5] by blast
    show ?thesis
    proof (cases "ok4 \<and> ok6")
      case True
      have "bus_service_add_owner env tx s c flags st = Some (True, st6)"
        using True \<open>ok1 \<and> x \<noteq> None\<close> s c r1 3 4 5 6 xs
        by (simp add: bus_service_add_owner_def 1 2 x bus_service_find_owner_link_def)
      moreover have "moves tx [Cancel_Ownership s ?x] (hold s ?x (put_queue s xs ?g)) st st6"
        using moves_trans [OF m5] m6 True r5 by fastforce
      ultimately show ?thesis by auto
    next
      case False
      have rl: "remove_last ?x xs = s_owners sv"
        using fresh(2) xs by (auto simp: remove_last_def insert_after_first_def remove1_append split: list.splits)
      have undo: "put_queue s (s_owners sv) (put_queue s xs ?g) = ?g"
        using sg by (simp add: put_queue_def fun_upd_idem)
      have unlink: "bus_service_unlink_owner env s ?x (reg st5) = Some (drop_owner ?x ?g)"
        using s5 set_owners_put [OF s5, of "s_owners sv"] rl undo unref_drop [OF own, of env] c(2)
        by (simp add: bus_service_unlink_owner_def owners_def r5 fresh_owner_def put_owner_def
            bus_connection_add_owned_service_link_def)
      show ?thesis
      proof (cases ok4)
        case False
        have "bus_service_add_owner env tx s c flags st = Some (False, st4')"
          using False \<open>ok1 \<and> x \<noteq> None\<close> s c r1 3 4 u4
          by (simp add: bus_service_add_owner_def 1 2 x bus_service_find_owner_link_def)
        then show ?thesis using m4' drop by auto
      next
        case True
        with False have ok6: "\<not> ok6" by simp
        have m6': "moves tx [] (reg st5) st st6" using moves_quiet_trans [OF m5] m6 ok6 r5 by simp
        obtain st7 where 7: "on_reg (bus_service_unlink_owner env s ?x) st6 = Some st7"
          and m7: "moves tx [] (drop_owner ?x ?g) st st7"
          using moves_on_reg [where f = "bus_service_unlink_owner env s ?x", OF m6' unlink] by blast
        have "bus_service_add_owner env tx s c flags st = Some (False, st7)"
          using True ok6 \<open>ok1 \<and> x \<noteq> None\<close> s c r1 3 4 5 6 7 xs
          by (simp add: bus_service_add_owner_def 1 2 x bus_service_find_owner_link_def)
        then show ?thesis using m7 drop by auto
      qed
    qed
  qed
qed

end
