(* ===== verification/Registry.thy ===== *)
theory Registry
  imports Services
begin

text \<open>
  The registry of bus names (\<open>bus/services.c\<close>) between transactions: the invariant \<open>reg_ok\<close>, the
  queue of a name as clients see it (\<open>queue_of\<close>), what each operation does to the registry and to
  the hooks of its transaction, and that every update preserves the invariant. \<open>commit_reg\<close> and
  \<open>rollback_reg\<close> are the two ends of a transaction seen on the registry alone. The written rules of
  a request and of a release are \<open>request\<close> and \<open>release\<close>.
\<close>

definition conn_of :: "registry \<Rightarrow> oid \<Rightarrow> cid" where
  "conn_of g x = o_conn (the (owner_of g x))"

lemma find_owner_find:
  "\<forall>x \<in> set xs. owner_of g x \<noteq> None \<Longrightarrow> find_owner g c xs = Some (find (\<lambda>x. conn_of g x = c) xs)"
  by (induction xs) (auto simp: conn_of_def)

lemma quiet_step:
  assumes "hushed f" "f st = (ok, st1)"
  shows "quiet st st1"
  using assms by (rule hushed_quiet)

lemma add_owner_old_effect:
  assumes s: "service_of (reg st) s = Some sv"
    and x: "find_owner (reg st) c (s_owners sv) = Some (Some x)" "owner_of (reg st) x = Some ow"
    and ne: "remove1 x (s_owners sv) \<noteq> []"
  shows "\<exists>st'. bus_service_add_owner env tx s c flags st = Some (True, st') \<and>
    moves tx [] (put_flags x flags (if name_flag_replace_existing flags
      then put_queue s (insert_after_first x (remove1 x (s_owners sv))) (reg st) else reg st)) st st'"
proof -
  let ?xs = "insert_after_first x (remove1 x (s_owners sv))"
  let ?g = "if name_flag_replace_existing flags then put_queue s ?xs (reg st) else reg st"
  have own: "s_owners sv \<noteq> []" using x(1) by auto
  have m0: "moves tx [] (reg st) st st" by (simp add: moves_def)
  obtain st1 where 1: "(if name_flag_replace_existing flags then on_reg (set_owners s ?xs) st else Some st) = Some st1"
    and m1: "moves tx [] ?g st st1"
    using moves_on_reg [where f = "set_owners s ?xs", OF m0 set_owners_put [OF s]] m0
    by (cases "name_flag_replace_existing flags") auto
  have "owner_of ?g x = Some ow" using x(2) by (simp add: put_queue_def)
  from moves_on_reg [where f = "bus_owner_set_flags x flags", OF m1 set_flags_put [OF this]]
  obtain st2 where 2: "on_reg (bus_owner_set_flags x flags) st1 = Some st2"
    and m2: "moves tx [] (put_flags x flags ?g) st st2" by blast
  have "bus_service_add_owner env tx s c flags st = Some (True, st2)"
    using s x own ne 1 2
    by (cases "name_flag_replace_existing flags")
      (simp_all add: bus_service_add_owner_def bus_service_find_owner_link_def assertion_def)
  with m2 show ?thesis by blast
qed

lemma primary_conn:
  "service_of g s = Some sv \<Longrightarrow> s_owners sv = x # xs \<Longrightarrow> owner_of g x = Some ow \<Longrightarrow>
    bus_service_get_primary_owners_connection g s = Some (Some (o_conn ow))"
  by (simp add: bus_service_get_primary_owners_connection_def bus_service_get_primary_owner_def owners_def)

lemma remove_other_effect:
  assumes s: "service_of (reg st) s = Some sv" "s_owners sv = y # ys" "owner_of (reg st) y = Some yw" "o_conn yw \<noteq> c"
    and x: "find_owner (reg st) c (s_owners sv) = Some (Some x)" "owner_of (reg st) x = Some ow" "o_refs ow = 1"
      "n_services_owned (reg st) (o_conn ow) > 0"
  shows "\<exists>st'. bus_service_remove_owner env tx s c st = Some (True, st') \<and>
    moves tx [] (drop_owner x (put_queue s (remove1 x (s_owners sv)) (reg st))) st st'"
proof -
  let ?xs = "remove1 x (s_owners sv)"
  have m0: "moves tx [] (reg st) st st" by (simp add: moves_def)
  obtain st1 where 1: "on_reg (set_owners s ?xs) st = Some st1" and m1: "moves tx [] (put_queue s ?xs (reg st)) st st1"
    using moves_on_reg [where f = "set_owners s ?xs", OF m0 set_owners_put [OF s(1)]] by blast
  have "bus_owner_unref env x (put_queue s ?xs (reg st)) = Some (drop_owner x (put_queue s ?xs (reg st)))"
    using x by (intro unref_drop) (auto simp: put_queue_def)
  from moves_on_reg [where f = "bus_owner_unref env x", OF m1 this]
  obtain st2 where 2: "on_reg (bus_owner_unref env x) st1 = Some st2"
    and m2: "moves tx [] (drop_owner x (put_queue s ?xs (reg st))) st st2" by blast
  have "bus_service_remove_owner env tx s c st = Some (True, st2)"
    using s x(1) 1 2 primary_conn [OF s(1-3)]
    by (simp add: bus_service_remove_owner_def bus_service_find_owner_link_def)
  with m2 show ?thesis by blast
qed

definition bump_service :: "sid \<Rightarrow> registry \<Rightarrow> registry" where
  "bump_service s g = g\<lparr>service_of := (service_of g)(s := map_option (\<lambda>sv. sv\<lparr>s_refs := s_refs sv + 1\<rparr>) (service_of g s))\<rparr>"

text \<open>The registry after the primary owner \<open>x\<close> was unlinked, while the hook still holds it.\<close>

definition unlinked :: "sid \<Rightarrow> oid list \<Rightarrow> string \<Rightarrow> registry \<Rightarrow> registry" where
  "unlinked s ys name g =
     (if ys = [] then (put_queue s [] g)\<lparr>service_hash := (service_hash g)(name := None)\<rparr>
      else put_queue s ys (bump_service s g))"

lemma notify_effect:
  assumes "owner_of (reg st) y = Some yw"
  shows "\<exists>ok st'. notify_next_owner env tx c sv y st = Some (ok, st') \<and> quiet st st'"
proof -
  obtain ok1 st1 where 1: "bus_driver_send_service_owner_changed env tx (s_name sv)
      (unique_name st c) (unique_name st (o_conn yw)) st = (ok1, st1)" by (metis prod.collapse)
  obtain ok2 st2 where 2: "bus_driver_send_service_acquired env tx (o_conn yw) (s_name sv) st1 = (ok2, st2)"
    by (metis prod.collapse)
  have "quiet st st1" "quiet st1 st2"
    using quiet_step [OF hushed_owner_changed 1] quiet_step [OF hushed_acquired 2] by auto
  then show ?thesis using assms quiet_trans
    by (cases ok1) (auto simp: notify_next_owner_def 1 2)
qed

lemma remove_primary_effect:
  assumes s: "service_of (reg st) s = Some sv" "s_owners sv = x # ys" "s_refs sv > 0"
    and x: "owner_of (reg st) x = Some ow" "o_conn ow = c" "o_refs ow > 0" "x \<notin> set ys"
    and ys: "\<forall>y \<in> set ys. owner_of (reg st) y \<noteq> None"
  shows "\<exists>ok st'. bus_service_remove_owner env tx s c st = Some (ok, st') \<and>
    (if ok then moves tx [Restore_Ownership s x (owner_after x (s_owners sv))] (unlinked s ys (s_name sv) (reg st)) st st'
     else quiet st st')"
proof -
  let ?g = "reg st" and ?h = "Restore_Ownership s x (owner_after x (s_owners sv))"
  obtain ok1 st1 where 1: "bus_driver_send_service_lost env tx c (s_name sv) st = (ok1, st1)" by (metis prod.collapse)
  note q1 = quiet_step [OF hushed_lost 1]
  have r1: "reg st1 = ?g" using q1 by (rule quiet_reg)
  obtain ok2 st2 where 2: "(case s_owners sv of
        x # y # _ \<Rightarrow> notify_next_owner env tx c sv y st1
      | _ \<Rightarrow> Some (bus_driver_send_service_owner_changed env tx (s_name sv) (unique_name st1 c) None st1)) = Some (ok2, st2)"
    and q2: "quiet st1 st2"
  proof (cases ys)
    case Nil
    obtain ok2 st2 where "bus_driver_send_service_owner_changed env tx (s_name sv) (unique_name st1 c) None st1 = (ok2, st2)"
      by (metis prod.collapse)
    then show thesis using that quiet_step [OF hushed_owner_changed] s(2) Nil by auto
  next
    case (Cons y zs)
    then show thesis using that notify_effect [of st1 y _ env tx c sv] ys r1 s(2) by auto
  qed
  note q12 = quiet_trans [OF q1 q2]
  have r2: "reg st2 = ?g" using q12 by (rule quiet_reg)
  obtain ok3 st3 where 3: "add_restore_ownership_to_transaction env tx s x st2 = Some (ok3, st3)"
    and m3: "if ok3 then moves tx [?h] (hold s x ?g) st2 st3 else quiet st2 st3"
    using add_restore_effect [of st2 x ow s sv env tx] s x unfolding r2 by blast
  let ?u = "put_queue s ys (bump_service s ?g)"
  have unlink: "bus_service_unlink_owner env s x (hold s x ?g) = Some ?u"
    using s x
    by (simp add: bus_service_unlink_owner_def owners_def set_owners_def bus_owner_unref_def
        remove_last_def remove1_append put_queue_def bump_service_def fun_upd_idem hold_def)
  show ?thesis
  proof (cases "ok1 \<and> ok2 \<and> ok3")
    case False
    let ?st = "if \<not> ok1 then st1 else if \<not> ok2 then st2 else st3"
    have "bus_service_remove_owner env tx s c st = Some (False, ?st)"
      using False s x 1 2 3 primary_conn [OF s(1,2) x(1)]
      by (cases ys) (auto simp: bus_service_remove_owner_def)
    moreover have "quiet st ?st" using q1 q12 m3 False quiet_trans [OF q12] by auto
    ultimately show ?thesis by (intro exI conjI) (assumption, simp)
  next
    case True
    then have m3: "moves tx [?h] (hold s x ?g) st st3" using quiet_moves_trans [OF q12] m3 by simp
    obtain st4 where 4: "on_reg (bus_service_unlink_owner env s x) st3 = Some st4" and m4: "moves tx [?h] ?u st st4"
      using moves_on_reg [where f = "bus_service_unlink_owner env s x", OF m3 unlink] by blast
    have o4: "owners (reg st4) s = Some ys"
      using s(1) by (simp add: moves_reg [OF m4] owners_def put_queue_def bump_service_def)
    have "\<exists>st5. (if ys = [] then on_reg (bus_service_unlink env s) st4 else Some st4) = Some st5 \<and>
        moves tx [?h] (unlinked s ys (s_name sv) ?g) st st5"
    proof (cases "ys = []")
      case True
      have "bus_service_unlink env s ?u = Some (unlinked s ys (s_name sv) ?g)"
        using s True by (cases "reg st") (simp add: bus_service_unlink_def assertion_def bus_service_unref_def
            put_queue_def bump_service_def unlinked_def)
      from moves_on_reg [where f = "bus_service_unlink env s", OF m4 this] True show ?thesis by auto
    next
      case False
      then show ?thesis using m4 by (simp add: unlinked_def)
    qed
    then obtain st5 where 5: "(if ys = [] then on_reg (bus_service_unlink env s) st4 else Some st4) = Some st5"
      and m5: "moves tx [?h] (unlinked s ys (s_name sv) ?g) st st5" by blast
    have "bus_service_remove_owner env tx s c st = Some (True, st5)"
      using True s x(2) 1 2 3 4 5 o4 primary_conn [OF s(1,2) x(1)]
      by (cases ys) (auto simp: bus_service_remove_owner_def)
    then show ?thesis using m5 by (intro exI conjI) (assumption, simp)
  qed
qed

lemma swap_effect:
  assumes s: "service_of (reg st) s = Some sv" "s_owners sv = x # y # ys" "s_refs sv > 0"
    and x: "owner_of (reg st) x = Some ow" "o_conn ow = c" "o_refs ow > 0" and y: "owner_of (reg st) y = Some yw"
  shows "\<exists>ok st'. bus_service_swap_owner env tx s c st = Some (ok, st') \<and>
    (if ok then moves tx [Restore_Ownership s x (owner_after x (s_owners sv))]
         (put_queue s (y # x # ys) (hold s x (reg st))) st st'
     else quiet st st')"
proof -
  let ?g = "reg st" and ?h = "Restore_Ownership s x (owner_after x (s_owners sv))"
  obtain ok1 st1 where 1: "bus_driver_send_service_lost env tx c (s_name sv) st = (ok1, st1)" by (metis prod.collapse)
  note q1 = quiet_step [OF hushed_lost 1]
  have "owner_of (reg st1) y = Some yw" using q1 y by (simp add: quiet_def)
  from notify_effect [OF this, of env tx c sv] obtain ok2 st2
    where 2: "notify_next_owner env tx c sv y st1 = Some (ok2, st2)" and q2: "quiet st1 st2" by blast
  note q12 = quiet_trans [OF q1 q2]
  have r2: "reg st2 = ?g" using q12 by (rule quiet_reg)
  obtain ok3 st3 where 3: "add_restore_ownership_to_transaction env tx s x st2 = Some (ok3, st3)"
    and m3: "if ok3 then moves tx [?h] (hold s x ?g) st2 st3 else quiet st2 st3"
    using add_restore_effect [of st2 x ow s sv env tx] s x unfolding r2 by blast
  show ?thesis
  proof (cases "ok1 \<and> ok2 \<and> ok3")
    case False
    let ?st = "if \<not> ok1 then st1 else if \<not> ok2 then st2 else st3"
    have "bus_service_swap_owner env tx s c st = Some (False, ?st)"
      using False s x 1 2 3 by (auto simp: bus_service_swap_owner_def assertion_def)
    moreover have "quiet st ?st" using q1 q12 m3 False quiet_trans [OF q12] by auto
    ultimately show ?thesis by (intro exI conjI) (assumption, simp)
  next
    case True
    then have m3: "moves tx [?h] (hold s x ?g) st st3" using quiet_moves_trans [OF q12] m3 by simp
    have "service_of (hold s x ?g) s = Some (sv\<lparr>s_refs := s_refs sv + 1\<rparr>)" using s(1) by simp
    from moves_on_reg [where f = "set_owners s (y # x # ys)", OF m3 set_owners_put [OF this]]
    obtain st4 where 4: "on_reg (set_owners s (y # x # ys)) st3 = Some st4"
      and m4: "moves tx [?h] (put_queue s (y # x # ys) (hold s x ?g)) st st4" by blast
    have "bus_service_swap_owner env tx s c st = Some (True, st4)"
      using True s x 1 2 3 4 by (auto simp: bus_service_swap_owner_def assertion_def insert_after_first_def)
    then show ?thesis using m4 by (intro exI conjI) (assumption, simp)
  qed
qed

section \<open>The registry between transactions\<close>

text \<open>Every name in the table has a service with a queue of distinct owners of distinct connections,
  every owner is in the queue of its service, nothing else holds references, and what a connection
  records about the names it owns or waits for is what the queues say.\<close>

definition services_ok :: "registry \<Rightarrow> bool" where
  "services_ok g \<longleftrightarrow>
     (\<forall>n s. service_hash g n = Some s \<longrightarrow> (\<exists>sv. service_of g s = Some sv \<and> s_name sv = n)) \<and>
     (\<forall>s sv. service_of g s = Some sv \<longrightarrow>
        service_hash g (s_name sv) = Some s \<and> s < new_service g \<and> s_refs sv = 1 \<and> s_owners sv \<noteq> [] \<and>
        distinct (s_owners sv) \<and> inj_on (conn_of g) (set (s_owners sv)) \<and>
        (\<forall>x \<in> set (s_owners sv). \<exists>ow. owner_of g x = Some ow \<and> o_service ow = s))"

definition owners_ok :: "registry \<Rightarrow> bool" where
  "owners_ok g \<longleftrightarrow>
     (\<forall>x ow. owner_of g x = Some ow \<longrightarrow> x < new_owner g \<and> o_refs ow = 1 \<and>
        (\<exists>sv. service_of g (o_service ow) = Some sv \<and> x \<in> set (s_owners sv)))"

definition owned_ok :: "registry \<Rightarrow> bool" where
  "owned_ok g \<longleftrightarrow>
     (\<forall>c. distinct (services_owned g c) \<and> n_services_owned g c = int (length (services_owned g c)) \<and>
        (\<forall>s. s \<in> set (services_owned g c) \<longleftrightarrow>
           (\<exists>x ow. owner_of g x = Some ow \<and> o_conn ow = c \<and> o_service ow = s)))"

definition reg_ok :: "registry \<Rightarrow> bool" where
  "reg_ok g \<longleftrightarrow> services_ok g \<and> owners_ok g \<and> owned_ok g"

text \<open>The queue of a name: connection, may be replaced, does not want to be queued.\<close>

type_synonym queue = "(cid \<times> bool \<times> bool) list"

definition entry :: "registry \<Rightarrow> oid \<Rightarrow> cid \<times> bool \<times> bool" where
  "entry g x = (let ow = the (owner_of g x) in (o_conn ow, allow_replacement ow, do_not_queue ow))"

definition queue_of :: "registry \<Rightarrow> string \<Rightarrow> queue" where
  "queue_of g n = (case service_hash g n of None \<Rightarrow> [] | Some s \<Rightarrow> map (entry g) (s_owners (the (service_of g s))))"

lemma reg_ok_service:
  assumes "reg_ok g" "service_hash g n = Some s"
  obtains sv where "service_of g s = Some sv" "s_name sv = n" "s_refs sv = 1" "s_owners sv \<noteq> []"
    "distinct (s_owners sv)" "inj_on (conn_of g) (set (s_owners sv))"
    "\<forall>x \<in> set (s_owners sv). \<exists>ow. owner_of g x = Some ow \<and> o_service ow = s \<and> o_refs ow = 1"
proof -
  obtain sv where sv: "service_of g s = Some sv" "s_name sv = n"
    using assms by (auto simp: reg_ok_def services_ok_def)
  moreover have "s_refs sv = 1 \<and> s_owners sv \<noteq> [] \<and> distinct (s_owners sv) \<and> inj_on (conn_of g) (set (s_owners sv)) \<and>
      (\<forall>x \<in> set (s_owners sv). \<exists>ow. owner_of g x = Some ow \<and> o_service ow = s)"
    using assms sv(1) by (simp add: reg_ok_def services_ok_def)
  moreover have "\<forall>x ow. owner_of g x = Some ow \<longrightarrow> o_refs ow = 1"
    using assms by (simp add: reg_ok_def owners_ok_def)
  ultimately show thesis using that by fastforce
qed

lemma reg_ok_name: "reg_ok g \<Longrightarrow> service_hash g n = Some s \<Longrightarrow> service_of g s = Some sv \<Longrightarrow> s_name sv = n"
  by (erule (1) reg_ok_service) simp

lemma reg_okD:
  assumes "reg_ok g" "service_of g s = Some sv"
  shows "service_hash g (s_name sv) = Some s" "s < new_service g" "s_refs sv = 1" "s_owners sv \<noteq> []"
    "distinct (s_owners sv)" "inj_on (conn_of g) (set (s_owners sv))"
  using assms by (simp_all add: reg_ok_def services_ok_def)

lemma reg_ok_owner:
  assumes "reg_ok g" "service_of g s = Some sv" "x \<in> set (s_owners sv)"
  obtains ow where "owner_of g x = Some ow" "o_service ow = s" "o_refs ow = 1"
proof -
  have "\<forall>x \<in> set (s_owners sv). \<exists>ow. owner_of g x = Some ow \<and> o_service ow = s"
    using assms(1,2) by (simp add: reg_ok_def services_ok_def)
  then obtain ow where "owner_of g x = Some ow" "o_service ow = s" using assms(3) by blast
  with assms(1) that show thesis by (simp add: reg_ok_def owners_ok_def)
qed

lemma reg_ok_in_queue:
  assumes "reg_ok g" "owner_of g x = Some ow"
  obtains sv where "service_of g (o_service ow) = Some sv" "x \<in> set (s_owners sv)"
  using assms that unfolding reg_ok_def owners_ok_def by blast

lemma reg_ok_ownerD:
  assumes "reg_ok g" "owner_of g x = Some ow"
  shows "x < new_owner g" "o_refs ow = 1" "\<exists>sv. service_of g (o_service ow) = Some sv \<and> x \<in> set (s_owners sv)"
  using assms unfolding reg_ok_def owners_ok_def by blast+

lemma reg_ok_counts:
  assumes "reg_ok g"
  shows "distinct (services_owned g c)" "n_services_owned g c = int (length (services_owned g c))"
    "s \<in> set (services_owned g c) \<longleftrightarrow> (\<exists>x ow. owner_of g x = Some ow \<and> o_conn ow = c \<and> o_service ow = s)"
  using assms unfolding reg_ok_def owned_ok_def by blast+

lemma reg_okI:
  assumes "\<And>n s. service_hash g n = Some s \<Longrightarrow> \<exists>sv. service_of g s = Some sv \<and> s_name sv = n"
    and "\<And>s sv. service_of g s = Some sv \<Longrightarrow> service_hash g (s_name sv) = Some s \<and> s < new_service g \<and>
      s_refs sv = 1 \<and> s_owners sv \<noteq> [] \<and> distinct (s_owners sv) \<and> inj_on (conn_of g) (set (s_owners sv))"
    and "\<And>s sv x. service_of g s = Some sv \<Longrightarrow> x \<in> set (s_owners sv) \<Longrightarrow> \<exists>ow. owner_of g x = Some ow \<and> o_service ow = s"
    and "\<And>x ow. owner_of g x = Some ow \<Longrightarrow> x < new_owner g \<and> o_refs ow = 1 \<and>
      (\<exists>sv. service_of g (o_service ow) = Some sv \<and> x \<in> set (s_owners sv))"
    and "\<And>c. distinct (services_owned g c)" "\<And>c. n_services_owned g c = int (length (services_owned g c))"
    and "\<And>c s. s \<in> set (services_owned g c) \<longleftrightarrow> (\<exists>x ow. owner_of g x = Some ow \<and> o_conn ow = c \<and> o_service ow = s)"
  shows "reg_ok g"
  using assms unfolding reg_ok_def services_ok_def owners_ok_def owned_ok_def by blast

lemma reg_ok_hash: "reg_ok g \<Longrightarrow> service_hash g n = Some s \<Longrightarrow> \<exists>sv. service_of g s = Some sv \<and> s_name sv = n"
  by (erule (1) reg_ok_service) blast

lemma reg_ok_alive: "reg_ok g \<Longrightarrow> service_of g s = Some sv \<Longrightarrow> x \<in> set (s_owners sv) \<Longrightarrow> owner_of g x \<noteq> None"
  by (erule (2) reg_ok_owner) simp

lemma reg_ok_fresh:
  assumes "reg_ok g"
  shows "owner_of g (new_owner g) = None" "service_of g (new_service g) = None"
    "service_of g s = Some sv \<Longrightarrow> new_owner g \<notin> set (s_owners sv)"
    "owner_of g x \<noteq> None \<Longrightarrow> x < new_owner g"
    "n_services_owned g c \<ge> 0"
proof -
  show x: "owner_of g x \<noteq> None \<Longrightarrow> x < new_owner g" for x
    using assms by (auto simp: reg_ok_def owners_ok_def)
  then show 1: "owner_of g (new_owner g) = None" by blast
  show "service_of g (new_service g) = None"
    using assms unfolding reg_ok_def services_ok_def by (metis less_irrefl not_None_eq)
  show "service_of g s = Some sv \<Longrightarrow> new_owner g \<notin> set (s_owners sv)"
    using assms 1 unfolding reg_ok_def services_ok_def by (metis option.distinct(1))
  show "n_services_owned g c \<ge> 0" using assms by (simp add: reg_ok_def owned_ok_def)
qed

text \<open>The services a connection is in the queue of are those of its record, so the counter is
  positive for the connection of any owner.\<close>

lemma reg_ok_counter:
  assumes "reg_ok g" "owner_of g x = Some ow"
  shows "n_services_owned g (o_conn ow) > 0" "o_service ow \<in> set (services_owned g (o_conn ow))"
proof -
  show 1: "o_service ow \<in> set (services_owned g (o_conn ow))"
    using assms by (auto simp: reg_ok_def owned_ok_def)
  have "n_services_owned g (o_conn ow) = int (length (services_owned g (o_conn ow)))"
    using assms(1) by (simp add: reg_ok_def owned_ok_def)
  moreover have "length (services_owned g (o_conn ow)) > 0" using 1 by (rule length_pos_if_in_set)
  ultimately show "n_services_owned g (o_conn ow) > 0" by simp
qed

text \<open>At most one owner per service and connection.\<close>

lemma reg_ok_unique:
  assumes "reg_ok g" "owner_of g x = Some ow" "owner_of g y = Some ow'"
    "o_service ow = o_service ow'" "o_conn ow = o_conn ow'"
  shows "x = y"
proof -
  obtain sv where sv: "service_of g (o_service ow) = Some sv" "x \<in> set (s_owners sv)"
    using reg_ok_in_queue [OF assms(1,2)] .
  obtain tv where tv: "service_of g (o_service ow') = Some tv" "y \<in> set (s_owners tv)"
    using reg_ok_in_queue [OF assms(1,3)] .
  have y: "y \<in> set (s_owners sv)" using sv(1) tv assms(4) by simp
  have "conn_of g x = conn_of g y" using assms by (simp add: conn_of_def)
  with reg_okD(6) [OF assms(1) sv(1)] sv(2) y show ?thesis by (simp add: inj_on_eq_iff)
qed

lemma queue_of_other:
  assumes "reg_ok g" "service_hash g' n = service_hash g n"
    "\<And>s. service_hash g n = Some s \<Longrightarrow> service_of g' s = service_of g s"
    "\<And>s x. service_hash g n = Some s \<Longrightarrow> x \<in> set (s_owners (the (service_of g s))) \<Longrightarrow> entry g' x = entry g x"
  shows "queue_of g' n = queue_of g n"
  using assms(2-4) by (cases "service_hash g n") (auto simp: queue_of_def)

lemma same_reg_ok: "same_reg g g' \<Longrightarrow> reg_ok g \<Longrightarrow> reg_ok g' \<and> queue_of g' n = queue_of g n"
proof -
  assume a: "same_reg g g'" "reg_ok g"
  then obtain i j where g': "g' = g\<lparr>new_owner := i, new_service := j\<rparr>" "new_owner g \<le> i" "new_service g \<le> j"
    by (auto simp: same_reg_def)
  have e: "entry g' = entry g" "conn_of g' = conn_of g" by (simp_all add: g' entry_def conn_of_def fun_eq_iff)
  have "reg_ok g'"
  proof (rule reg_okI)
    fix t tv assume "service_of g' t = Some tv"
    then have t: "service_of g t = Some tv" by (simp add: g'(1))
    show "service_hash g' (s_name tv) = Some t \<and> t < new_service g' \<and> s_refs tv = 1 \<and> s_owners tv \<noteq> [] \<and>
        distinct (s_owners tv) \<and> inj_on (conn_of g') (set (s_owners tv))"
      using reg_okD [OF a(2) t] g'(3) e(2) by (simp add: g'(1))
    show "x \<in> set (s_owners tv) \<Longrightarrow> \<exists>ow. owner_of g' x = Some ow \<and> o_service ow = t" for x
      using reg_ok_owner [OF a(2) t] by (auto simp: g'(1))
  next
    fix x ow assume "owner_of g' x = Some ow"
    then have x: "owner_of g x = Some ow" by (simp add: g'(1))
    then show "x < new_owner g' \<and> o_refs ow = 1 \<and> (\<exists>sv. service_of g' (o_service ow) = Some sv \<and> x \<in> set (s_owners sv))"
      using reg_ok_ownerD [OF a(2) x] g'(2) by (auto simp: g'(1))
  qed (simp_all add: g'(1) reg_ok_counts [OF a(2)] reg_ok_hash [OF a(2)])
  then show ?thesis using e by (simp add: g'(1) queue_of_def split: option.split)
qed

subsection \<open>Each update preserves it\<close>

lemma put_flags_ok:
  assumes "reg_ok g"
  shows "reg_ok (put_flags x flags g)"
proof -
  have own: "owner_of (put_flags x flags g) y = map_option (if y = x then flagged flags else id) (owner_of g y)" for y
    by (simp add: put_flags_def option.map_id)
  have same: "o_conn (flagged flags ow) = o_conn ow" "o_service (flagged flags ow) = o_service ow"
    "o_refs (flagged flags ow) = o_refs ow" for ow by (simp_all add: flagged_def)
  have ex: "(\<exists>ow. owner_of (put_flags x flags g) y = Some ow \<and> P (o_conn ow) (o_service ow)) =
      (\<exists>ow. owner_of g y = Some ow \<and> P (o_conn ow) (o_service ow))" for y P
    by (auto simp: own same)
  have conn: "owner_of g y \<noteq> None \<Longrightarrow> conn_of (put_flags x flags g) y = conn_of g y" for y
    by (auto simp: conn_of_def own same)
  have rest: "service_of (put_flags x flags g) = service_of g" "service_hash (put_flags x flags g) = service_hash g"
    "new_owner (put_flags x flags g) = new_owner g" "new_service (put_flags x flags g) = new_service g"
    "services_owned (put_flags x flags g) = services_owned g" "n_services_owned (put_flags x flags g) = n_services_owned g"
    by (simp_all add: put_flags_def)
  show ?thesis
  proof (rule reg_okI, unfold rest)
    fix t tv assume t: "service_of g t = Some tv"
    have "inj_on (conn_of (put_flags x flags g)) (set (s_owners tv)) = inj_on (conn_of g) (set (s_owners tv))"
      using reg_ok_alive [OF assms t] by (intro inj_on_cong conn)
    then show "service_hash g (s_name tv) = Some t \<and> t < new_service g \<and> s_refs tv = 1 \<and> s_owners tv \<noteq> [] \<and>
        distinct (s_owners tv) \<and> inj_on (conn_of (put_flags x flags g)) (set (s_owners tv))"
      using reg_okD [OF assms t] by simp
    fix y assume "y \<in> set (s_owners tv)"
    from reg_ok_owner [OF assms t this] obtain ow where "owner_of g y = Some ow" "o_service ow = t" .
    then show "\<exists>ow. owner_of (put_flags x flags g) y = Some ow \<and> o_service ow = t"
      by (simp add: own same)
  next
    fix y ow assume "owner_of (put_flags x flags g) y = Some ow"
    then obtain ow' where "owner_of g y = Some ow'" "o_refs ow = o_refs ow'" "o_service ow = o_service ow'"
      by (auto simp: own same split: if_splits)
    then show "y < new_owner g \<and> o_refs ow = 1 \<and> (\<exists>sv. service_of g (o_service ow) = Some sv \<and> y \<in> set (s_owners sv))"
      using reg_ok_ownerD [OF assms] by simp
  next
    fix c t
    show "t \<in> set (services_owned g c) \<longleftrightarrow>
        (\<exists>y ow. owner_of (put_flags x flags g) y = Some ow \<and> o_conn ow = c \<and> o_service ow = t)"
      using reg_ok_counts(3) [OF assms] ex [of _ "\<lambda>d u. d = c \<and> u = t"] by simp
  qed (simp_all add: reg_ok_counts [OF assms] reg_ok_hash [OF assms])
qed

lemma put_queue_simps [simp]:
  "owner_of (put_queue s xs g) = owner_of g" "service_hash (put_queue s xs g) = service_hash g"
  "services_owned (put_queue s xs g) = services_owned g" "n_services_owned (put_queue s xs g) = n_services_owned g"
  "new_owner (put_queue s xs g) = new_owner g" "new_service (put_queue s xs g) = new_service g"
  "service_of (put_queue s xs g) = (service_of g)(s := map_option (\<lambda>sv. sv\<lparr>s_owners := xs\<rparr>) (service_of g s))"
  "conn_of (put_queue s xs g) = conn_of g" "entry (put_queue s xs g) = entry g"
  by (simp_all add: put_queue_def conn_of_def entry_def fun_eq_iff)

lemma put_queue_ok:
  assumes "reg_ok g" "service_of g s = Some sv" "set xs = set (s_owners sv)" "distinct xs"
  shows "reg_ok (put_queue s xs g)"
proof -
  show ?thesis
  proof (rule reg_okI, unfold put_queue_simps)
    fix n t assume n: "service_hash g n = Some t"
    obtain tv where "service_of g t = Some tv" "s_name tv = n" by (rule reg_ok_service [OF assms(1) n])
    then show "\<exists>sv'. ((service_of g)(s := map_option (\<lambda>sv. sv\<lparr>s_owners := xs\<rparr>) (service_of g s))) t = Some sv' \<and> s_name sv' = n"
      using assms(2) by auto
  next
    fix t tv assume t: "((service_of g)(s := map_option (\<lambda>sv. sv\<lparr>s_owners := xs\<rparr>) (service_of g s))) t = Some tv"
    define tw where "tw = (if t = s then sv else tv)"
    have tw: "service_of g t = Some tw" using t assms(2) by (auto simp: tw_def split: if_splits)
    have tv: "s_name tv = s_name tw" "s_refs tv = s_refs tw" "set (s_owners tv) = set (s_owners tw)"
      "distinct (s_owners tv)"
      using t assms(2-4) reg_okD(5) [OF assms(1) tw]
      by (cases "t = s"; clarsimp simp: tw_def)+
    have "s_owners tv \<noteq> []" using reg_okD(4) [OF assms(1) tw] tv(3) by force
    then show "service_hash g (s_name tv) = Some t \<and> t < new_service g \<and> s_refs tv = 1 \<and> s_owners tv \<noteq> [] \<and>
        distinct (s_owners tv) \<and> inj_on (conn_of g) (set (s_owners tv))"
      using reg_okD [OF assms(1) tw] tv by simp
    show "x \<in> set (s_owners tv) \<Longrightarrow> \<exists>ow. owner_of g x = Some ow \<and> o_service ow = t" for x
      using reg_ok_owner [OF assms(1) tw, of x] tv(3) by blast
  next
    fix x ow assume x: "owner_of g x = Some ow"
    obtain tv where "service_of g (o_service ow) = Some tv" "x \<in> set (s_owners tv)"
      using reg_ok_ownerD(3) [OF assms(1) x] by blast
    then have "\<exists>sv'. ((service_of g)(s := map_option (\<lambda>sv. sv\<lparr>s_owners := xs\<rparr>) (service_of g s))) (o_service ow) = Some sv' \<and>
        x \<in> set (s_owners sv')"
      using assms(2,3) by (cases "o_service ow = s") simp_all
    then show "x < new_owner g \<and> o_refs ow = 1 \<and> (\<exists>sv'. ((service_of g)(s := map_option (\<lambda>sv. sv\<lparr>s_owners := xs\<rparr>)
        (service_of g s))) (o_service ow) = Some sv' \<and> x \<in> set (s_owners sv'))"
      using reg_ok_ownerD(1,2) [OF assms(1) x] by simp
  qed (simp_all add: reg_ok_counts [OF assms(1)])
qed

lemma put_queue_queue:
  assumes "reg_ok g" "service_of g s = Some sv"
  shows "queue_of (put_queue s xs g) n = (if n = s_name sv then map (entry g) xs else queue_of g n)"
proof -
  note h = reg_okD(1) [OF assms(1,2)]
  have "n = s_name sv" if "service_hash g n = Some s"
    using reg_ok_name [OF assms(1) that assms(2)] by simp
  then have "n \<noteq> s_name sv \<Longrightarrow> queue_of (put_queue s xs g) n = queue_of g n"
    by (intro queue_of_other [OF assms(1)]) auto
  moreover have "queue_of (put_queue s xs g) (s_name sv) = map (entry g) xs"
    using h assms(2) by (simp add: queue_of_def)
  ultimately show ?thesis by simp
qed

lemma put_flags_queue:
  assumes "reg_ok g" "service_of g s = Some sv" "x \<in> set (s_owners sv)"
  shows "queue_of (put_flags x flags g) n =
    (if n = s_name sv then map (\<lambda>y. if y = x then (conn_of g x, name_flag_allow_replacement flags, name_flag_do_not_queue flags)
        else entry g y) (s_owners sv) else queue_of g n)"
proof -
  note h = reg_okD(1) [OF assms(1,2)]
  obtain ow where ow: "owner_of g x = Some ow" "o_service ow = s" using reg_ok_owner [OF assms] by blast
  have e: "entry (put_flags x flags g) y = (if y = x then (conn_of g x, name_flag_allow_replacement flags,
      name_flag_do_not_queue flags) else entry g y)" for y
    using ow by (simp add: entry_def put_flags_def conn_of_def flagged_def)
  have "x \<notin> set (s_owners (the (service_of g t)))" if m: "service_hash g m = Some t" "m \<noteq> s_name sv" for m t
  proof
    assume x: "x \<in> set (s_owners (the (service_of g t)))"
    obtain tv where tv: "service_of g t = Some tv" "s_name tv = m" by (rule reg_ok_service [OF assms(1) m(1)])
    then have "o_service ow = t" using x ow(1) reg_ok_owner [OF assms(1) tv(1), of x] by auto
    then show False using ow tv assms(2) m(2) by simp
  qed
  then have "queue_of (put_flags x flags g) n = queue_of g n" if "n \<noteq> s_name sv"
    using that e by (intro queue_of_other [OF assms(1)]) (auto simp: put_flags_def [of x flags g])
  moreover have "queue_of (put_flags x flags g) (s_name sv) = map (entry (put_flags x flags g)) (s_owners sv)"
    using h assms(2) by (simp add: queue_of_def put_flags_def)
  ultimately show ?thesis by (simp add: e)
qed

lemma remove_last_distinct:
  assumes "distinct l" "s \<in> set l"
  shows "distinct (remove_last s l)" "set (remove_last s l) = set l - {s}"
    "int (length (remove_last s l)) = int (length l) - 1"
proof -
  have r: "remove1 s (rev l) = removeAll s (rev l)" using assms by (simp add: distinct_remove1_removeAll)
  show "distinct (remove_last s l)" "set (remove_last s l) = set l - {s}"
    using assms by (simp_all add: remove_last_def r distinct_removeAll)
  have "length l > 0" using assms(2) by (cases l) auto
  then show "int (length (remove_last s l)) = int (length l) - 1"
    using assms(2) by (cases l) (simp_all add: remove_last_def length_remove1)
qed

text \<open>What a connection owns, after an owner came or went.\<close>

definition owns :: "registry \<Rightarrow> cid \<Rightarrow> sid \<Rightarrow> bool" where
  "owns g c s \<longleftrightarrow> (\<exists>x ow. owner_of g x = Some ow \<and> o_conn ow = c \<and> o_service ow = s)"

lemma owns_put:
  assumes "owner_of g x = None" "owner_of g' = (owner_of g)(x \<mapsto> ow)"
  shows "owns g' c s \<longleftrightarrow> owns g c s \<or> (c = o_conn ow \<and> s = o_service ow)"
proof
  assume "owns g' c s"
  then show "owns g c s \<or> (c = o_conn ow \<and> s = o_service ow)"
    unfolding owns_def assms(2) by (auto split: if_splits)
next
  assume "owns g c s \<or> (c = o_conn ow \<and> s = o_service ow)"
  then show "owns g' c s"
  proof
    assume "owns g c s"
    then obtain y yw where "owner_of g y = Some yw" "o_conn yw = c" "o_service yw = s" by (auto simp: owns_def)
    moreover then have "y \<noteq> x" using assms(1) by auto
    ultimately show ?thesis unfolding owns_def assms(2) by (intro exI [of _ y] exI [of _ yw]) simp
  next
    assume "c = o_conn ow \<and> s = o_service ow"
    then show ?thesis unfolding owns_def assms(2) by (intro exI [of _ x] exI [of _ ow]) simp
  qed
qed

lemma owns_drop:
  assumes "reg_ok g" "owner_of g x = Some ow" "owner_of g' = (owner_of g)(x := None)"
  shows "owns g' c s \<longleftrightarrow> owns g c s \<and> \<not> (c = o_conn ow \<and> s = o_service ow)"
proof
  assume "owns g' c s"
  then obtain y yw where y: "owner_of g y = Some yw" "o_conn yw = c" "o_service yw = s" "y \<noteq> x"
    unfolding owns_def assms(3) by (auto split: if_splits)
  then show "owns g c s \<and> \<not> (c = o_conn ow \<and> s = o_service ow)"
    using reg_ok_unique [OF assms(1,2) y(1)] unfolding owns_def by auto
next
  assume *: "owns g c s \<and> \<not> (c = o_conn ow \<and> s = o_service ow)"
  then obtain y yw where y: "owner_of g y = Some yw" "o_conn yw = c" "o_service yw = s" by (auto simp: owns_def)
  then have "y \<noteq> x" using * assms(2) by auto
  then show "owns g' c s" using y unfolding owns_def assms(3) by (intro exI [of _ y] exI [of _ yw]) simp
qed

lemma owned_drop:
  fixes g g' :: registry
  assumes "reg_ok g" "owner_of g x = Some ow" "owner_of g' = (owner_of g)(x := None)"
    "services_owned g' = (services_owned g)(o_conn ow := remove_last (o_service ow) (services_owned g (o_conn ow)))"
    "n_services_owned g' = (n_services_owned g)(o_conn ow := n_services_owned g (o_conn ow) - 1)"
  shows "distinct (services_owned g' c)" "n_services_owned g' c = int (length (services_owned g' c))"
    "s \<in> set (services_owned g' c) \<longleftrightarrow> (\<exists>x ow. owner_of g' x = Some ow \<and> o_conn ow = c \<and> o_service ow = s)"
proof -
  note d = remove_last_distinct [OF reg_ok_counts(1) [OF assms(1)] reg_ok_counter(2) [OF assms(1,2)]]
  note k = reg_ok_counts [OF assms(1)]
  show "distinct (services_owned g' c)" "n_services_owned g' c = int (length (services_owned g' c))"
    using d(1,3) k(1,2) by (simp_all add: assms(4,5))
  have "s \<in> set (services_owned g' c) \<longleftrightarrow> s \<in> set (services_owned g c) \<and> \<not> (c = o_conn ow \<and> s = o_service ow)"
    using d(2) by (auto simp: assms(4))
  then show "s \<in> set (services_owned g' c) \<longleftrightarrow> (\<exists>x ow. owner_of g' x = Some ow \<and> o_conn ow = c \<and> o_service ow = s)"
    using k(3) owns_drop [OF assms(1-3)] unfolding owns_def by simp
qed

lemma owned_put:
  fixes g g' :: registry
  assumes "reg_ok g" "owner_of g x = None" "owner_of g' = (owner_of g)(x \<mapsto> ow)" "\<not> owns g (o_conn ow) (o_service ow)"
    "services_owned g' = (services_owned g)(o_conn ow := services_owned g (o_conn ow) @ [o_service ow])"
    "n_services_owned g' = (n_services_owned g)(o_conn ow := n_services_owned g (o_conn ow) + 1)"
  shows "distinct (services_owned g' c)" "n_services_owned g' c = int (length (services_owned g' c))"
    "s \<in> set (services_owned g' c) \<longleftrightarrow> (\<exists>x ow. owner_of g' x = Some ow \<and> o_conn ow = c \<and> o_service ow = s)"
proof -
  note k = reg_ok_counts [OF assms(1)]
  have "o_service ow \<notin> set (services_owned g (o_conn ow))" using assms(4) k(3) by (simp add: owns_def)
  then show "distinct (services_owned g' c)" "n_services_owned g' c = int (length (services_owned g' c))"
    using k(1,2) by (simp_all add: assms(5,6))
  have "s \<in> set (services_owned g' c) \<longleftrightarrow> s \<in> set (services_owned g c) \<or> (c = o_conn ow \<and> s = o_service ow)"
    by (auto simp: assms(5))
  then show "s \<in> set (services_owned g' c) \<longleftrightarrow> (\<exists>x ow. owner_of g' x = Some ow \<and> o_conn ow = c \<and> o_service ow = s)"
    using k(3) owns_put [OF assms(2,3)] unfolding owns_def by simp
qed

lemma drop_owner_simps:
  assumes "owner_of g x = Some ow"
  shows "owner_of (drop_owner x g) = (owner_of g)(x := None)"
    "services_owned (drop_owner x g) = (services_owned g)(o_conn ow := remove_last (o_service ow) (services_owned g (o_conn ow)))"
    "n_services_owned (drop_owner x g) = (n_services_owned g)(o_conn ow := n_services_owned g (o_conn ow) - 1)"
    "service_of (drop_owner x g) = service_of g" "service_hash (drop_owner x g) = service_hash g"
    "new_owner (drop_owner x g) = new_owner g" "new_service (drop_owner x g) = new_service g"
  using assms by (simp_all add: drop_owner_def Let_def)

subsection \<open>An owner leaves a queue others stay in\<close>

definition leave :: "sid \<Rightarrow> oid \<Rightarrow> oid list \<Rightarrow> registry \<Rightarrow> registry" where
  "leave s x xs g = drop_owner x (put_queue s xs g)"

lemma leave_simps:
  assumes "owner_of g x = Some ow" "o_service ow = s" "service_of g s = Some sv"
  shows "owner_of (leave s x xs g) = (owner_of g)(x := None)"
    "services_owned (leave s x xs g) = (services_owned g)(o_conn ow := remove_last (o_service ow) (services_owned g (o_conn ow)))"
    "n_services_owned (leave s x xs g) = (n_services_owned g)(o_conn ow := n_services_owned g (o_conn ow) - 1)"
    "service_of (leave s x xs g) = (service_of g)(s \<mapsto> sv\<lparr>s_owners := xs\<rparr>)"
    "service_hash (leave s x xs g) = service_hash g"
    "new_owner (leave s x xs g) = new_owner g" "new_service (leave s x xs g) = new_service g"
    "y \<noteq> x \<Longrightarrow> conn_of (leave s x xs g) y = conn_of g y" "y \<noteq> x \<Longrightarrow> entry (leave s x xs g) y = entry g y"
  using assms by (simp_all add: leave_def drop_owner_simps conn_of_def entry_def)

lemma leave_ok:
  assumes "reg_ok g" "service_of g s = Some sv" "x \<in> set (s_owners sv)" "set xs = set (s_owners sv) - {x}" "distinct xs" "xs \<noteq> []"
  shows "reg_ok (leave s x xs g)"
proof -
  obtain ow where ow: "owner_of g x = Some ow" "o_service ow = s" using reg_ok_owner [OF assms(1-3)] by blast
  note l = leave_simps [OF ow assms(2), where xs = xs]
  show ?thesis
  proof (rule reg_okI)
    fix n t assume "service_hash (leave s x xs g) n = Some t"
    then have "\<exists>tv. service_of g t = Some tv \<and> s_name tv = n" using reg_ok_hash [OF assms(1)] by (simp add: l)
    then show "\<exists>tv. service_of (leave s x xs g) t = Some tv \<and> s_name tv = n"
      using assms(2) by (cases "t = s") (simp_all add: l)
  next
    fix t tv assume t: "service_of (leave s x xs g) t = Some tv"
    define tw where "tw = (if t = s then sv else tv)"
    have tw: "service_of g t = Some tw" using t assms(2) by (simp add: tw_def l split: if_splits)
    have tv: "s_name tv = s_name tw" "s_refs tv = s_refs tw" "set (s_owners tv) = set (s_owners tw) - {x}"
      "distinct (s_owners tv)" "s_owners tv \<noteq> []"
    proof -
      have "x \<notin> set (s_owners tw)" if "t \<noteq> s" using reg_ok_owner [OF assms(1) tw, of x] ow that by auto
      then show "s_name tv = s_name tw" "s_refs tv = s_refs tw" "set (s_owners tv) = set (s_owners tw) - {x}"
        "distinct (s_owners tv)" "s_owners tv \<noteq> []"
        using t assms(4-6) reg_okD(4,5) [OF assms(1) tw] by (cases "t = s"; clarsimp simp: tw_def l)+
    qed
    have "inj_on (conn_of (leave s x xs g)) (set (s_owners tv)) = inj_on (conn_of g) (set (s_owners tv))"
      using tv(3) by (intro inj_on_cong l) auto
    moreover have "inj_on (conn_of g) (set (s_owners tv))"
      using reg_okD(6) [OF assms(1) tw] tv(3) by (auto intro: inj_on_subset)
    ultimately show "service_hash (leave s x xs g) (s_name tv) = Some t \<and> t < new_service (leave s x xs g) \<and>
        s_refs tv = 1 \<and> s_owners tv \<noteq> [] \<and> distinct (s_owners tv) \<and> inj_on (conn_of (leave s x xs g)) (set (s_owners tv))"
      using reg_okD(1-3) [OF assms(1) tw] tv by (simp add: l)
    fix y assume "y \<in> set (s_owners tv)"
    then have y: "y \<noteq> x" "y \<in> set (s_owners tw)" using tv(3) by auto
    from reg_ok_owner [OF assms(1) tw y(2)] obtain yw where "owner_of g y = Some yw" "o_service yw = t" .
    then show "\<exists>yw. owner_of (leave s x xs g) y = Some yw \<and> o_service yw = t" using y(1) by (simp add: l)
  next
    fix y yw assume "owner_of (leave s x xs g) y = Some yw"
    then have y: "y \<noteq> x" "owner_of g y = Some yw" by (auto simp: l split: if_splits)
    obtain tv where tv: "service_of g (o_service yw) = Some tv" "y \<in> set (s_owners tv)"
      using reg_ok_in_queue [OF assms(1) y(2)] .
    have "\<exists>tv. service_of (leave s x xs g) (o_service yw) = Some tv \<and> y \<in> set (s_owners tv)"
      using tv y(1) assms(2,4) by (cases "o_service yw = s") (simp_all add: l)
    then show "y < new_owner (leave s x xs g) \<and> o_refs yw = 1 \<and>
        (\<exists>tv. service_of (leave s x xs g) (o_service yw) = Some tv \<and> y \<in> set (s_owners tv))"
      using reg_ok_ownerD(1,2) [OF assms(1) y(2)] by (simp add: l)
  qed (use owned_drop [OF assms(1) ow(1) l(1-3)] in simp_all)
qed

lemma other_queues:
  assumes "reg_ok g" "owner_of g x = Some ow" "service_hash g n = Some t" "t \<noteq> o_service ow"
  shows "x \<notin> set (s_owners (the (service_of g t)))"
proof -
  obtain tv where "service_of g t = Some tv" using reg_ok_hash [OF assms(1,3)] by blast
  then show ?thesis using reg_ok_owner [OF assms(1), of t tv x] assms(2,4) by auto
qed

lemma leave_queue:
  assumes "reg_ok g" "service_of g s = Some sv" "x \<in> set (s_owners sv)" "x \<notin> set xs"
  shows "queue_of (leave s x xs g) n = (if n = s_name sv then map (entry g) xs else queue_of g n)"
proof -
  obtain ow where ow: "owner_of g x = Some ow" "o_service ow = s" using reg_ok_owner [OF assms(1-3)] by blast
  note l = leave_simps [OF ow assms(2), where xs = xs]
  have "t \<noteq> s" if "service_hash g n = Some t" "n \<noteq> s_name sv" for t
    using reg_ok_name [OF assms(1) that(1)] assms(2) that(2) by auto
  then have "n \<noteq> s_name sv \<Longrightarrow> queue_of (leave s x xs g) n = queue_of g n"
    using other_queues [OF assms(1) ow(1), of n] ow(2)
    by (intro queue_of_other [OF assms(1)] l(9)) (auto simp: l)
  moreover have "map (entry (leave s x xs g)) xs = map (entry g) xs"
    using assms(4) by (intro map_cong refl l(9)) auto
  then have "queue_of (leave s x xs g) (s_name sv) = map (entry g) xs"
    using reg_okD(1) [OF assms(1,2)] by (simp add: queue_of_def l(4,5))
  ultimately show ?thesis by simp
qed

subsection \<open>The last owner leaves, and the name with it\<close>

definition leave_last :: "sid \<Rightarrow> string \<Rightarrow> oid \<Rightarrow> registry \<Rightarrow> registry" where
  "leave_last s name x g = drop_owner x
     (g\<lparr>service_of := (service_of g)(s := None), service_hash := (service_hash g)(name := None)\<rparr>)"

lemma leave_last_simps:
  assumes "owner_of g x = Some ow"
  shows "owner_of (leave_last s n x g) = (owner_of g)(x := None)"
    "services_owned (leave_last s n x g) = (services_owned g)(o_conn ow := remove_last (o_service ow) (services_owned g (o_conn ow)))"
    "n_services_owned (leave_last s n x g) = (n_services_owned g)(o_conn ow := n_services_owned g (o_conn ow) - 1)"
    "service_of (leave_last s n x g) = (service_of g)(s := None)"
    "service_hash (leave_last s n x g) = (service_hash g)(n := None)"
    "new_owner (leave_last s n x g) = new_owner g" "new_service (leave_last s n x g) = new_service g"
    "y \<noteq> x \<Longrightarrow> conn_of (leave_last s n x g) y = conn_of g y" "y \<noteq> x \<Longrightarrow> entry (leave_last s n x g) y = entry g y"
  using assms by (simp_all add: leave_last_def drop_owner_simps conn_of_def entry_def)

lemma leave_last_ok:
  assumes "reg_ok g" "service_of g s = Some sv" "s_owners sv = [x]"
  shows "reg_ok (leave_last s (s_name sv) x g)"
proof -
  have "x \<in> set (s_owners sv)" using assms(3) by simp
  from reg_ok_owner [OF assms(1,2) this] obtain ow where ow: "owner_of g x = Some ow" "o_service ow = s" by blast
  note l = leave_last_simps [OF ow(1), where s = s and n = "s_name sv"]
  show ?thesis
  proof (rule reg_okI)
    fix n t assume "service_hash (leave_last s (s_name sv) x g) n = Some t"
    then have n: "n \<noteq> s_name sv" "service_hash g n = Some t" by (auto simp: l split: if_splits)
    obtain tv where tv: "service_of g t = Some tv" "s_name tv = n" using reg_ok_hash [OF assms(1) n(2)] by blast
    then have "t \<noteq> s" using n(1) assms(2) by auto
    then show "\<exists>tv. service_of (leave_last s (s_name sv) x g) t = Some tv \<and> s_name tv = n"
      using tv by (simp add: l)
  next
    fix t tv assume "service_of (leave_last s (s_name sv) x g) t = Some tv"
    then have t: "t \<noteq> s" "service_of g t = Some tv" by (auto simp: l split: if_splits)
    have name: "s_name tv \<noteq> s_name sv"
      using reg_okD(1) [OF assms(1) t(2)] reg_okD(1) [OF assms(1,2)] t(1) by auto
    have x: "x \<notin> set (s_owners tv)" using reg_ok_owner [OF assms(1) t(2), of x] ow t(1) by auto
    have "inj_on (conn_of (leave_last s (s_name sv) x g)) (set (s_owners tv)) = inj_on (conn_of g) (set (s_owners tv))"
      using x by (intro inj_on_cong l) auto
    then show "service_hash (leave_last s (s_name sv) x g) (s_name tv) = Some t \<and>
        t < new_service (leave_last s (s_name sv) x g) \<and> s_refs tv = 1 \<and> s_owners tv \<noteq> [] \<and>
        distinct (s_owners tv) \<and> inj_on (conn_of (leave_last s (s_name sv) x g)) (set (s_owners tv))"
      using reg_okD [OF assms(1) t(2)] name by (simp add: l)
    fix y assume y: "y \<in> set (s_owners tv)"
    from reg_ok_owner [OF assms(1) t(2) y] obtain yw where "owner_of g y = Some yw" "o_service yw = t" .
    then show "\<exists>yw. owner_of (leave_last s (s_name sv) x g) y = Some yw \<and> o_service yw = t"
      using x y by (auto simp: l)
  next
    fix y yw assume "owner_of (leave_last s (s_name sv) x g) y = Some yw"
    then have y: "y \<noteq> x" "owner_of g y = Some yw" by (auto simp: l split: if_splits)
    obtain tv where tv: "service_of g (o_service yw) = Some tv" "y \<in> set (s_owners tv)"
      using reg_ok_in_queue [OF assms(1) y(2)] .
    then have "o_service yw \<noteq> s" using assms(2,3) y(1) by auto
    then show "y < new_owner (leave_last s (s_name sv) x g) \<and> o_refs yw = 1 \<and>
        (\<exists>tv. service_of (leave_last s (s_name sv) x g) (o_service yw) = Some tv \<and> y \<in> set (s_owners tv))"
      using reg_ok_ownerD(1,2) [OF assms(1) y(2)] tv by (simp add: l)
  qed (use owned_drop [OF assms(1) ow(1) l(1-3)] in simp_all)
qed

lemma leave_last_queue:
  assumes "reg_ok g" "service_of g s = Some sv" "s_owners sv = [x]"
  shows "queue_of (leave_last s (s_name sv) x g) n = (if n = s_name sv then [] else queue_of g n)"
proof -
  have "x \<in> set (s_owners sv)" using assms(3) by simp
  from reg_ok_owner [OF assms(1,2) this] obtain ow where ow: "owner_of g x = Some ow" "o_service ow = s" by blast
  note l = leave_last_simps [OF ow(1), where s = s and n = "s_name sv"]
  have "t \<noteq> s" if "service_hash g n = Some t" "n \<noteq> s_name sv" for t
    using reg_ok_name [OF assms(1) that(1)] assms(2) that(2) by auto
  then have "n \<noteq> s_name sv \<Longrightarrow> queue_of (leave_last s (s_name sv) x g) n = queue_of g n"
    using other_queues [OF assms(1) ow(1), of n] ow(2)
    by (intro queue_of_other [OF assms(1)] l(9)) (auto simp: l(4,5))
  then show ?thesis by (simp add: queue_of_def l(4,5))
qed

subsection \<open>A connection joins a queue\<close>

definition join_queue :: "sid \<Rightarrow> cid \<Rightarrow> 32 word \<Rightarrow> oid list \<Rightarrow> registry \<Rightarrow> registry" where
  "join_queue s c flags xs g = put_queue s xs (put_owner s c flags g)"

lemma join_simps:
  assumes "service_of g s = Some sv"
  shows "owner_of (join_queue s c flags xs g) = (owner_of g)(new_owner g \<mapsto> fresh_owner s c flags)"
    "services_owned (join_queue s c flags xs g) = (services_owned g)(c := services_owned g c @ [s])"
    "n_services_owned (join_queue s c flags xs g) = (n_services_owned g)(c := n_services_owned g c + 1)"
    "service_of (join_queue s c flags xs g) = (service_of g)(s \<mapsto> sv\<lparr>s_owners := xs\<rparr>)"
    "service_hash (join_queue s c flags xs g) = service_hash g"
    "new_owner (join_queue s c flags xs g) = Suc (new_owner g)" "new_service (join_queue s c flags xs g) = new_service g"
    "conn_of (join_queue s c flags xs g) = (conn_of g)(new_owner g := c)"
    "entry (join_queue s c flags xs g) =
       (entry g)(new_owner g := (c, name_flag_allow_replacement flags, name_flag_do_not_queue flags))"
  using assms by (simp_all add: join_queue_def put_owner_def bus_connection_add_owned_service_link_def
      conn_of_def entry_def fresh_owner_def fun_eq_iff)

lemma join_ok:
  assumes g: "reg_ok g"
    and s: "service_of g s = Some sv" and h: "set xs = insert (new_owner g) (set (s_owners sv))" "distinct xs"
    and c: "\<forall>x \<in> set (s_owners sv). conn_of g x \<noteq> c"
  shows "reg_ok (join_queue s c flags xs g)"
proof -
  let ?x = "new_owner g" and ?g = "join_queue s c flags xs g"
  note l = join_simps [OF s, where c = c and flags = flags and xs = xs]
  have nx: "owner_of g ?x = None" using reg_ok_fresh(1) [OF g] .
  have fo: "o_conn (fresh_owner s c flags) = c" "o_service (fresh_owner s c flags) = s" "o_refs (fresh_owner s c flags) = 1"
    by (simp_all add: fresh_owner_def)
  have not_in: "service_of g t = Some tv \<Longrightarrow> ?x \<notin> set (s_owners tv)" for t tv using reg_ok_fresh(3) [OF g] .
  have nowns: "\<not> owns g c s"
  proof
    assume "owns g c s"
    then obtain y yw where y: "owner_of g y = Some yw" "o_conn yw = c" "o_service yw = s" by (auto simp: owns_def)
    obtain tv where "service_of g (o_service yw) = Some tv" "y \<in> set (s_owners tv)" using reg_ok_in_queue [OF g y(1)] .
    with y s c show False by (auto simp: conn_of_def)
  qed
  have put: "owner_of ?g = (owner_of g)(?x \<mapsto> fresh_owner s c flags)"
    "services_owned ?g = (services_owned g)(o_conn (fresh_owner s c flags) :=
       services_owned g (o_conn (fresh_owner s c flags)) @ [o_service (fresh_owner s c flags)])"
    "n_services_owned ?g = (n_services_owned g)(o_conn (fresh_owner s c flags) :=
       n_services_owned g (o_conn (fresh_owner s c flags)) + 1)"
    by (simp_all add: l fo)
  show ?thesis
  proof (rule reg_okI)
    fix n t assume "service_hash ?g n = Some t"
    then have "\<exists>tv. service_of g t = Some tv \<and> s_name tv = n" using reg_ok_hash [OF g] by (simp add: l)
    then show "\<exists>tv. service_of ?g t = Some tv \<and> s_name tv = n" using s by (cases "t = s") (simp_all add: l)
  next
    fix t tv assume t: "service_of ?g t = Some tv"
    define tw where "tw = (if t = s then sv else tv)"
    have tw: "service_of g t = Some tw" using t s by (simp add: tw_def l split: if_splits)
    have tv: "s_name tv = s_name tw" "s_refs tv = s_refs tw" "distinct (s_owners tv)"
      "set (s_owners tv) = (if t = s then insert ?x (set (s_owners tw)) else set (s_owners tw))"
      using t h reg_okD(5) [OF g tw] by (cases "t = s"; clarsimp simp: tw_def l)+
    have same: "inj_on (conn_of ?g) (set (s_owners tw)) = inj_on (conn_of g) (set (s_owners tw))"
      using not_in [OF tw] by (intro inj_on_cong) (auto simp: l)
    have "inj_on (conn_of ?g) (set (s_owners tv))"
    proof (cases "t = s")
      case True
      then have "tw = sv" using tw s by simp
      then show ?thesis using tv(4) True same reg_okD(6) [OF g tw] not_in [OF tw] c
        by (auto simp: l inj_on_insert)
    qed (use same reg_okD(6) [OF g tw] tv(4) in simp)
    moreover have "s_owners tv \<noteq> []" using tv(4) reg_okD(4) [OF g tw] by (auto split: if_splits)
    ultimately show "service_hash ?g (s_name tv) = Some t \<and> t < new_service ?g \<and> s_refs tv = 1 \<and> s_owners tv \<noteq> [] \<and>
        distinct (s_owners tv) \<and> inj_on (conn_of ?g) (set (s_owners tv))"
      using reg_okD(1-3) [OF g tw] tv by (simp add: l)
    fix y assume y: "y \<in> set (s_owners tv)"
    show "\<exists>yw. owner_of ?g y = Some yw \<and> o_service yw = t"
    proof (cases "y = ?x")
      case True
      then have "t = s" using y tv(4) not_in [OF tw] by (simp split: if_splits)
      then show ?thesis using True by (simp add: l fo)
    next
      case False
      then have "y \<in> set (s_owners tw)" using y tv(4) by (simp split: if_splits)
      from reg_ok_owner [OF g tw this] obtain yw where "owner_of g y = Some yw" "o_service yw = t" .
      then show ?thesis using False by (simp add: l)
    qed
  next
    fix y yw assume y: "owner_of ?g y = Some yw"
    show "y < new_owner ?g \<and> o_refs yw = 1 \<and> (\<exists>tv. service_of ?g (o_service yw) = Some tv \<and> y \<in> set (s_owners tv))"
    proof (cases "y = ?x")
      case True
      then show ?thesis using y h by (auto simp: l fo)
    next
      case False
      then have y: "owner_of g y = Some yw" using y by (simp add: l)
      obtain tv where tv: "service_of g (o_service yw) = Some tv" "y \<in> set (s_owners tv)"
        using reg_ok_in_queue [OF g y] .
      have "\<exists>tv. service_of ?g (o_service yw) = Some tv \<and> y \<in> set (s_owners tv)"
        using tv s h(1) by (cases "o_service yw = s") (simp_all add: l)
      then show ?thesis using reg_ok_ownerD(1,2) [OF g y] by (simp add: l)
    qed
  qed (use owned_put [OF g nx put(1) _ put(2,3)] nowns in \<open>simp_all add: fo\<close>)
qed

lemma join_queue_queue:
  assumes "reg_ok g" "service_of g s = Some sv"
  shows "queue_of (join_queue s c flags xs g) n =
    (if n = s_name sv then map ((entry g)(new_owner g := (c, name_flag_allow_replacement flags, name_flag_do_not_queue flags))) xs
     else queue_of g n)"
proof -
  note l = join_simps [OF assms(2), where c = c and flags = flags and xs = xs]
  have "t \<noteq> s" if "service_hash g n = Some t" "n \<noteq> s_name sv" for t
    using reg_ok_name [OF assms(1) that(1)] assms(2) that(2) by auto
  moreover have "x \<noteq> new_owner g" if "service_hash g n = Some t" "x \<in> set (s_owners (the (service_of g t)))" for t x
    using reg_ok_hash [OF assms(1) that(1)] reg_ok_fresh(3) [OF assms(1)] that(2) by fastforce
  ultimately have "n \<noteq> s_name sv \<Longrightarrow> queue_of (join_queue s c flags xs g) n = queue_of g n"
    by (intro queue_of_other [OF assms(1)]) (auto simp: l)
  moreover have "queue_of (join_queue s c flags xs g) (s_name sv) = map (entry (join_queue s c flags xs g)) xs"
    using reg_okD(1) [OF assms] by (simp add: queue_of_def l(4,5))
  ultimately show ?thesis by (simp add: l(9))
qed

subsection \<open>A new name\<close>

definition new_name :: "string \<Rightarrow> cid \<Rightarrow> 32 word \<Rightarrow> registry \<Rightarrow> registry" where
  "new_name name c flags g =
     (let s = new_service g in
      (join_queue s c flags [new_owner g]
        (g\<lparr>new_service := Suc s, service_of := (service_of g)(s \<mapsto> \<lparr>s_refs = 1, s_name = name, s_owners = []\<rparr>)\<rparr>))
      \<lparr>service_hash := (service_hash g)(name \<mapsto> s)\<rparr>)"

lemma new_name_simps:
  "owner_of (new_name name c flags g) = (owner_of g)(new_owner g \<mapsto> fresh_owner (new_service g) c flags)"
  "services_owned (new_name name c flags g) = (services_owned g)(c := services_owned g c @ [new_service g])"
  "n_services_owned (new_name name c flags g) = (n_services_owned g)(c := n_services_owned g c + 1)"
  "service_of (new_name name c flags g) = (service_of g)(new_service g \<mapsto> \<lparr>s_refs = 1, s_name = name, s_owners = [new_owner g]\<rparr>)"
  "service_hash (new_name name c flags g) = (service_hash g)(name \<mapsto> new_service g)"
  "new_owner (new_name name c flags g) = Suc (new_owner g)" "new_service (new_name name c flags g) = Suc (new_service g)"
  "conn_of (new_name name c flags g) = (conn_of g)(new_owner g := c)"
  "entry (new_name name c flags g) =
     (entry g)(new_owner g := (c, name_flag_allow_replacement flags, name_flag_do_not_queue flags))"
  by (simp_all add: new_name_def Let_def join_queue_def put_owner_def bus_connection_add_owned_service_link_def
      conn_of_def entry_def fresh_owner_def fun_eq_iff)

lemma new_name_ok:
  assumes g: "reg_ok g" and n: "service_hash g name = None"
  shows "reg_ok (new_name name c flags g)"
proof -
  let ?x = "new_owner g" and ?s = "new_service g" and ?g = "new_name name c flags g"
  note l = new_name_simps [of name c flags g]
  have nx: "owner_of g ?x = None" using reg_ok_fresh(1) [OF g] .
  have fo: "o_conn (fresh_owner ?s c flags) = c" "o_service (fresh_owner ?s c flags) = ?s" "o_refs (fresh_owner ?s c flags) = 1"
    by (simp_all add: fresh_owner_def)
  have nowns: "\<not> owns g c ?s"
  proof
    assume "owns g c ?s"
    then obtain y yw where y: "owner_of g y = Some yw" "o_service yw = ?s" by (auto simp: owns_def)
    obtain tv where "service_of g (o_service yw) = Some tv" using reg_ok_in_queue [OF g y(1)] .
    with y(2) reg_ok_fresh(2) [OF g] show False by simp
  qed
  have put: "owner_of ?g = (owner_of g)(?x \<mapsto> fresh_owner ?s c flags)"
    "services_owned ?g = (services_owned g)(o_conn (fresh_owner ?s c flags) :=
       services_owned g (o_conn (fresh_owner ?s c flags)) @ [o_service (fresh_owner ?s c flags)])"
    "n_services_owned ?g = (n_services_owned g)(o_conn (fresh_owner ?s c flags) :=
       n_services_owned g (o_conn (fresh_owner ?s c flags)) + 1)"
    by (simp_all add: l fo)
  show ?thesis
  proof (rule reg_okI)
    fix m t assume m: "service_hash ?g m = Some t"
    show "\<exists>tv. service_of ?g t = Some tv \<and> s_name tv = m"
    proof (cases "m = name")
      case False
      then have "service_hash g m = Some t" using m by (simp add: l)
      then obtain tv where tv: "service_of g t = Some tv" "s_name tv = m" using reg_ok_hash [OF g] by blast
      then have "t \<noteq> ?s" using reg_ok_fresh(2) [OF g] by auto
      then show ?thesis using tv by (simp add: l)
    qed (use m in \<open>simp add: l\<close>)
  next
    fix t tv assume t: "service_of ?g t = Some tv"
    show "service_hash ?g (s_name tv) = Some t \<and> t < new_service ?g \<and> s_refs tv = 1 \<and> s_owners tv \<noteq> [] \<and>
        distinct (s_owners tv) \<and> inj_on (conn_of ?g) (set (s_owners tv))"
    proof (cases "t = ?s")
      case False
      then have t: "service_of g t = Some tv" using t by (simp add: l)
      have "inj_on (conn_of ?g) (set (s_owners tv)) = inj_on (conn_of g) (set (s_owners tv))"
        using reg_ok_fresh(3) [OF g t] by (intro inj_on_cong) (auto simp: l)
      then show ?thesis using reg_okD [OF g t] n by (auto simp: l)
    qed (use t in \<open>auto simp: l\<close>)
    fix y assume y: "y \<in> set (s_owners tv)"
    show "\<exists>yw. owner_of ?g y = Some yw \<and> o_service yw = t"
    proof (cases "t = ?s")
      case False
      then have t: "service_of g t = Some tv" using t by (simp add: l)
      from reg_ok_owner [OF g t y] obtain yw where "owner_of g y = Some yw" "o_service yw = t" .
      then show ?thesis using reg_ok_fresh(3) [OF g t] y by (auto simp: l)
    qed (use t y in \<open>auto simp: l fo\<close>)
  next
    fix y yw assume y: "owner_of ?g y = Some yw"
    show "y < new_owner ?g \<and> o_refs yw = 1 \<and> (\<exists>tv. service_of ?g (o_service yw) = Some tv \<and> y \<in> set (s_owners tv))"
    proof (cases "y = ?x")
      case True
      then show ?thesis using y by (auto simp: l fo)
    next
      case False
      then have y: "owner_of g y = Some yw" using y by (simp add: l)
      obtain tv where tv: "service_of g (o_service yw) = Some tv" "y \<in> set (s_owners tv)" using reg_ok_in_queue [OF g y] .
      then have "o_service yw \<noteq> ?s" using reg_ok_fresh(2) [OF g] by auto
      then show ?thesis using reg_ok_ownerD(1,2) [OF g y] tv by (simp add: l)
    qed
  qed (use owned_put [OF g nx put(1) _ put(2,3)] nowns in \<open>simp_all add: fo\<close>)
qed

lemma new_name_queue:
  assumes "reg_ok g"
  shows "queue_of (new_name name c flags g) n =
    (if n = name then [(c, name_flag_allow_replacement flags, name_flag_do_not_queue flags)] else queue_of g n)"
proof -
  note l = new_name_simps [of name c flags g]
  have "t \<noteq> new_service g" if "service_hash g n = Some t" for t
    using reg_ok_hash [OF assms that] reg_ok_fresh(2) [OF assms] by auto
  moreover have "x \<noteq> new_owner g" if "service_hash g n = Some t" "x \<in> set (s_owners (the (service_of g t)))" for t x
    using reg_ok_hash [OF assms that(1)] reg_ok_fresh(3) [OF assms] that(2) by fastforce
  ultimately have "n \<noteq> name \<Longrightarrow> queue_of (new_name name c flags g) n = queue_of g n"
    by (intro queue_of_other [OF assms]) (auto simp: l)
  then show ?thesis by (simp add: queue_of_def l(4,5,9))
qed

section \<open>The end of a transaction on the registry\<close>

definition hook_free_reg :: "bus_env \<Rightarrow> hook \<Rightarrow> registry \<Rightarrow> registry option" where
  "hook_free_reg env h g =
     (case h of
        Cancel_Ownership s x \<Rightarrow> free_ownership_cancel_data env s x g
      | Restore_Ownership s x f \<Rightarrow> free_ownership_restore_data env s x g
      | Restore_Pending n es \<Rightarrow> Some g)"

definition hook_cancel_reg :: "bus_env \<Rightarrow> hook \<Rightarrow> registry \<Rightarrow> registry option" where
  "hook_cancel_reg env h g =
     (case h of
        Cancel_Ownership s x \<Rightarrow> cancel_ownership env s x g
      | Restore_Ownership s x f \<Rightarrow> restore_ownership env s x f g
      | Restore_Pending n es \<Rightarrow> Some g)"

fun all_hooks :: "(hook \<Rightarrow> registry \<Rightarrow> registry option) \<Rightarrow> hook list \<Rightarrow> registry \<Rightarrow> registry option" where
  "all_hooks f [] g = Some g"
| "all_hooks f (h # hs) g = do { g \<leftarrow> f h g; all_hooks f hs g }"

abbreviation commit_reg :: "bus_env \<Rightarrow> hook list \<Rightarrow> registry \<Rightarrow> registry option" where
  "commit_reg env hs g \<equiv> all_hooks (hook_free_reg env) hs g"

abbreviation rollback_reg :: "bus_env \<Rightarrow> hook list \<Rightarrow> registry \<Rightarrow> registry option" where
  "rollback_reg env hs g \<equiv> do { g \<leftarrow> all_hooks (hook_cancel_reg env) hs g; commit_reg env hs g }"

lemma free_hook_reg:
  "cancel_hook_free env h st = map_option (\<lambda>g. st\<lparr>reg := g\<rparr>) (hook_free_reg env h (reg st))"
  by (cases h) (simp_all add: cancel_hook_free_def hook_free_reg_def on_reg_def)

lemma each_free:
  "each_hook (cancel_hook_free env) hs st = map_option (\<lambda>g. st\<lparr>reg := g\<rparr>) (commit_reg env hs (reg st))"
proof (induction hs arbitrary: st)
  case (Cons h hs)
  then show ?case by (cases "hook_free_reg env h (reg st)") (simp_all add: free_hook_reg)
qed simp

lemma each_cancel:
  assumes "all_hooks (hook_cancel_reg env) hs (reg st) = Some g"
  shows "\<exists>p. each_hook (cancel_hook_cancel env) hs st = Some (st\<lparr>reg := g, pending_activations := p\<rparr>)"
  using assms
proof (induction hs arbitrary: st)
  case Nil
  then show ?case by (intro exI [of _ "pending_activations st"]) simp
next
  case (Cons h hs)
  obtain g1 where g1: "hook_cancel_reg env h (reg st) = Some g1" "all_hooks (hook_cancel_reg env) hs g1 = Some g"
    using Cons.prems by (auto simp: bind_eq_Some_conv)
  obtain p1 where 1: "cancel_hook_cancel env h st = Some (st\<lparr>reg := g1, pending_activations := p1\<rparr>)"
    using g1(1) by (cases h; cases st) (auto simp: hook_cancel_reg_def cancel_hook_cancel_def on_reg_def restore_pending_def)
  have "\<exists>p. each_hook (cancel_hook_cancel env) hs (st\<lparr>reg := g1, pending_activations := p1\<rparr>) =
      Some (st\<lparr>reg := g1, pending_activations := p1, reg := g, pending_activations := p\<rparr>)"
    using g1(2) by (intro Cons.IH) simp
  then show ?case using 1 by (cases st) auto
qed

lemma commit_effect:
  assumes "cancel_hooks (trans st) tx = hs" "commit_reg env hs (reg st) = Some g"
  shows "\<exists>st'. bus_transaction_execute_and_free env tx st = Some st' \<and> reg st' = g \<and> mem st' = mem st \<and>
    unique_name st' = unique_name st \<and> pending_activations st' = pending_activations st \<and>
    cancel_hooks (trans st') = (cancel_hooks (trans st))(tx := [])"
  using assms
  by (simp add: bus_transaction_execute_and_free_def free_cancel_hooks_def each_free
      bus_transaction_execute_messages_def pop_connections_execute)

lemma rollback_effect:
  assumes "cancel_hooks (trans st) tx = hs" "rollback_reg env hs (reg st) = Some g"
  shows "\<exists>st'. bus_transaction_cancel_and_free env tx st = Some st' \<and> reg st' = g \<and> mem st' = mem st \<and>
    unique_name st' = unique_name st \<and> cancel_hooks (trans st') = (cancel_hooks (trans st))(tx := [])"
proof -
  obtain g1 where g1: "all_hooks (hook_cancel_reg env) hs (reg st) = Some g1" "commit_reg env hs g1 = Some g"
    using assms(2) by (auto simp: bind_eq_Some_conv)
  let ?st = "st\<lparr>trans := bus_transaction_cancel_messages tx (trans st)\<rparr>"
  have hooks: "cancel_hooks (trans ?st) = cancel_hooks (trans st)"
    by (simp add: bus_transaction_cancel_messages_def pop_connections_cancel)
  obtain p where "each_hook (cancel_hook_cancel env) hs ?st = Some (?st\<lparr>reg := g1, pending_activations := p\<rparr>)"
    using each_cancel [of env hs ?st g1] g1(1) by auto
  then show ?thesis
    using assms(1) g1(2) hooks
    by (simp add: bus_transaction_cancel_and_free_def free_cancel_hooks_def each_free)
qed

lemma commit_append:
  "all_hooks f (hs @ hs') g = do { g \<leftarrow> all_hooks f hs g; all_hooks f hs' g }"
proof (induction hs arbitrary: g)
  case (Cons h hs)
  then show ?case by (cases "f h g") simp_all
qed simp

section \<open>The specification of a request\<close>

text \<open>What the queue of a name becomes, and the answer, when a connection asks for it or gives it
  up.\<close>

definition wish :: "cid \<Rightarrow> 32 word \<Rightarrow> cid \<times> bool \<times> bool" where
  "wish c flags = (c, name_flag_allow_replacement flags, name_flag_do_not_queue flags)"

definition without :: "cid \<Rightarrow> queue \<Rightarrow> queue" where
  "without c q = filter (\<lambda>e. fst e \<noteq> c) q"

definition enqueue :: "cid \<Rightarrow> 32 word \<Rightarrow> queue \<Rightarrow> queue" where
  "enqueue c flags q =
     (if name_flag_replace_existing flags then insert_after_first (wish c flags) (without c q)
      else if c \<in> fst ` set q then map (\<lambda>e. if fst e = c then wish c flags else e) q
      else q @ [wish c flags])"

definition request :: "cid \<Rightarrow> 32 word \<Rightarrow> queue \<Rightarrow> request_reply \<times> queue" where
  "request c flags q =
     (case q of
        [] \<Rightarrow> (Primary_Owner, [wish c flags])
      | (d, may_replace, no_queue) # rest \<Rightarrow>
          if d = c then (Already_Owner, wish c flags # rest)
          else if may_replace \<and> name_flag_replace_existing flags then
            (Primary_Owner, wish c flags # (if no_queue then [] else [(d, may_replace, no_queue)]) @ without c rest)
          else if name_flag_do_not_queue flags then (Exists, without c q)
          else (In_Queue, enqueue c flags q))"

definition release :: "cid \<Rightarrow> queue \<Rightarrow> release_reply \<times> queue" where
  "release c q =
     (if q = [] then (Non_Existent, q) else if c \<notin> fst ` set q then (Not_Owner, q) else (Released, without c q))"

lemma entry_conn: "fst (entry g x) = conn_of g x"
  by (simp add: entry_def conn_of_def Let_def)

lemma queue_conns: "fst ` set (map (entry g) xs) = conn_of g ` set xs"
  by (auto simp: image_iff entry_conn)

lemma without_remove1:
  assumes "inj_on (conn_of g) (set xs)" "distinct xs" "x \<in> set xs" "conn_of g x = c"
  shows "without c (map (entry g) xs) = map (entry g) (remove1 x xs)"
proof -
  have "filter (\<lambda>y. conn_of g y \<noteq> c) xs = filter (\<lambda>y. y \<noteq> x) xs"
    using assms by (intro filter_cong) (auto simp: inj_on_eq_iff)
  then show ?thesis
    using assms(2) by (simp add: without_def filter_map o_def entry_conn distinct_remove1_removeAll removeAll_filter_not_eq)
      (metis (mono_tags, lifting) filter_cong)
qed

lemma without_absent: "c \<notin> conn_of g ` set xs \<Longrightarrow> without c (map (entry g) xs) = map (entry g) xs"
  by (auto simp: without_def filter_id_conv entry_conn)

lemma map_flags:
  assumes "inj_on (conn_of g) (set xs)" "x \<in> set xs" "conn_of g x = c"
  shows "map (\<lambda>y. if y = x then e else entry g y) xs = map (\<lambda>f. if fst f = c then e else f) (map (entry g) xs)"
  using assms by (auto simp: entry_conn inj_on_eq_iff)

lemma find_Some_conn:
  "find (\<lambda>x. conn_of g x = c) xs = Some x \<Longrightarrow> x \<in> set xs \<and> conn_of g x = c"
  by (auto simp: find_Some_iff)

lemma find_None_conn:
  "find (\<lambda>x. conn_of g x = c) xs = None \<longleftrightarrow> c \<notin> conn_of g ` set xs"
  by (auto simp: find_None_iff)

section \<open>Releasing a name\<close>

text \<open>Freeing the hook's references gives the registry without the owner.\<close>

lemma commit_unlinked:
  assumes g: "reg_ok g" and s: "service_of g s = Some sv" "s_owners sv = x # ys"
  shows "commit_reg env [Restore_Ownership s x f] (unlinked s ys (s_name sv) g) =
    Some (if ys = [] then leave_last s (s_name sv) x g else leave s x ys g)"
proof -
  have "x \<in> set (s_owners sv)" using s(2) by simp
  from reg_ok_owner [OF g s(1) this] obtain ow where ow: "owner_of g x = Some ow" "o_service ow = s" "o_refs ow = 1" .
  note n = reg_ok_counter(1) [OF g ow(1)] and r = reg_okD(3) [OF g s(1)]
  show ?thesis
  proof (cases "ys = []")
    case True
    let ?u = "(put_queue s [] g)\<lparr>service_hash := (service_hash g)(s_name sv := None)\<rparr>"
    have "bus_owner_unref env x ?u = Some (drop_owner x ?u)"
      using ow n by (intro unref_drop) auto
    moreover have "bus_service_unref env s (drop_owner x ?u) = Some (leave_last s (s_name sv) x g)"
      using s r ow by (cases g) (simp add: bus_service_unref_def leave_last_def drop_owner_def Let_def assertion_def
          put_queue_def)
    ultimately show ?thesis using True
      by (simp add: hook_free_reg_def free_ownership_restore_data_def unlinked_def)
  next
    case False
    let ?u = "put_queue s ys (bump_service s g)"
    have "bus_owner_unref env x ?u = Some (drop_owner x ?u)"
      using ow n by (intro unref_drop) (auto simp: put_queue_def bump_service_def)
    moreover have "bus_service_unref env s (drop_owner x ?u) = Some (leave s x ys g)"
      using s r ow by (cases g; cases sv) (simp add: bus_service_unref_def leave_def drop_owner_def Let_def
          put_queue_def bump_service_def)
    ultimately show ?thesis using False
      by (simp add: hook_free_reg_def free_ownership_restore_data_def unlinked_def)
  qed
qed

text \<open>Removing the owner of connection \<open>c\<close>, then the end of the transaction.\<close>

lemma remove_owner_effect:
  assumes g: "reg_ok (reg st)" and hooks: "cancel_hooks (trans st) tx = []"
    and s: "service_of (reg st) s = Some sv" and c: "c \<in> conn_of (reg st) ` set (s_owners sv)"
  shows "\<exists>ok st1. bus_service_remove_owner env tx s c st = Some (ok, st1) \<and>
    (if ok then \<exists>hs g'. moves tx hs (reg st1) st st1 \<and> commit_reg env hs (reg st1) = Some g' \<and>
         reg_ok g' \<and> (\<forall>n. queue_of g' n = (if n = s_name sv then without c (queue_of (reg st) n) else queue_of (reg st) n)) \<and>
         (\<forall>d. set (services_owned g' d) = (if d = c then set (services_owned (reg st) d) - {s} else set (services_owned (reg st) d)))
     else quiet st st1)"
proof -
  let ?g = "reg st"
  note k = reg_okD [OF g s]
  obtain x where x: "x \<in> set (s_owners sv)" "conn_of ?g x = c" using c by auto
  from reg_ok_owner [OF g s x(1)] obtain ow where ow: "owner_of ?g x = Some ow" "o_service ow = s" "o_refs ow = 1" .
  have conn: "o_conn ow = c" using x(2) ow by (simp add: conn_of_def)
  have q: "queue_of ?g (s_name sv) = map (entry ?g) (s_owners sv)" using k(1) s by (simp add: queue_of_def)
  have without: "without c (queue_of ?g (s_name sv)) = map (entry ?g) (remove1 x (s_owners sv))"
    unfolding q using without_remove1 [OF k(6,5) x] .
  have owned: "set (services_owned g' d) = (if d = c then set (services_owned ?g d) - {s} else set (services_owned ?g d))"
    if "services_owned g' = (services_owned ?g)(o_conn ow := remove_last (o_service ow) (services_owned ?g (o_conn ow)))" for g' d
    using remove_last_distinct(2) [OF reg_ok_counts(1) [OF g] reg_ok_counter(2) [OF g ow(1)]] ow conn
    by (simp add: that)
  obtain y ys where ys: "s_owners sv = y # ys" using k(4) by (cases "s_owners sv") auto
  have y: "y \<in> set (s_owners sv)" using ys by simp
  from reg_ok_owner [OF g s y] obtain yw where yw: "owner_of ?g y = Some yw" .
  show ?thesis
  proof (cases "y = x")
    case True
    have rm: "remove1 x (s_owners sv) = ys" "x \<notin> set ys" using ys True k(5) by auto
    have alive: "\<forall>z \<in> set ys. owner_of ?g z \<noteq> None" using reg_ok_alive [OF g s] ys by auto
    obtain ok st1 where 1: "bus_service_remove_owner env tx s c st = Some (ok, st1)"
      and m: "if ok then moves tx [Restore_Ownership s x (owner_after x (s_owners sv))] (unlinked s ys (s_name sv) ?g) st st1
        else quiet st st1"
      using remove_primary_effect [of st s sv x ys ow c env tx] s ys True ow conn rm(2) alive k(3) by auto
    show ?thesis
    proof (cases ok)
      case True
      with m have m: "moves tx [Restore_Ownership s x (owner_after x (s_owners sv))] (unlinked s ys (s_name sv) ?g) st st1" by simp
      let ?g' = "if ys = [] then leave_last s (s_name sv) x ?g else leave s x ys ?g"
      have "s_owners sv = x # ys" using ys \<open>y = x\<close> by simp
      note com = commit_unlinked [OF g s this, of env "owner_after x (s_owners sv)"]
      have ok': "reg_ok ?g'"
        using leave_last_ok [OF g s] leave_ok [OF g s x(1), of ys] \<open>s_owners sv = x # ys\<close> k(5) rm by auto
      moreover have "queue_of ?g' n = (if n = s_name sv then without c (queue_of ?g n) else queue_of ?g n)" for n
        using leave_last_queue [OF g s] leave_queue [OF g s x(1) rm(2)] \<open>s_owners sv = x # ys\<close> without rm by auto
      moreover have "set (services_owned ?g' d) = (if d = c then set (services_owned ?g d) - {s} else set (services_owned ?g d))" for d
        by (rule owned) (simp add: leave_simps(2) [OF ow(1,2) s] leave_last_simps(2) [OF ow(1)])
      ultimately show ?thesis
        using 1 True m com by (intro exI [of _ ok] exI [of _ st1]) (auto simp: moves_reg [OF m])
    next
      case False
      then show ?thesis using 1 m by auto
    qed
  next
    case False
    have yc: "o_conn yw \<noteq> c"
      using False inj_onD [OF k(6), of y x] y x yw by (auto simp: conn_of_def)
    have find: "find_owner ?g c (s_owners sv) = Some (Some x)"
    proof -
      have "find (\<lambda>z. conn_of ?g z = c) (s_owners sv) = Some x"
      proof (cases "find (\<lambda>z. conn_of ?g z = c) (s_owners sv)")
        case None
        then show ?thesis using c by (simp add: find_None_conn)
      next
        case (Some z)
        then show ?thesis using find_Some_conn [OF Some] inj_onD [OF k(6), of z x] x by simp
      qed
      then show ?thesis using find_owner_find [of "s_owners sv" ?g c] reg_ok_alive [OF g s] by simp
    qed
    let ?g' = "leave s x (remove1 x (s_owners sv)) ?g"
    obtain st1 where 1: "bus_service_remove_owner env tx s c st = Some (True, st1)" and m: "moves tx [] ?g' st st1"
      using remove_other_effect [OF s ys yw yc find ow(1,3)] reg_ok_counter(1) [OF g ow(1)] unfolding leave_def by blast
    have set: "set (remove1 x (s_owners sv)) = set (s_owners sv) - {x}" "distinct (remove1 x (s_owners sv))"
      "remove1 x (s_owners sv) \<noteq> []"
      using k(5) ys False by (auto simp: set_remove1_eq)
    have "reg_ok ?g'" using leave_ok [OF g s x(1) set] .
    moreover have "queue_of ?g' n = (if n = s_name sv then without c (queue_of ?g n) else queue_of ?g n)" for n
      using leave_queue [OF g s x(1), of "remove1 x (s_owners sv)"] set(1) without by simp
    moreover have "set (services_owned ?g' d) = (if d = c then set (services_owned ?g d) - {s} else set (services_owned ?g d))" for d
      by (rule owned) (rule leave_simps(2) [OF ow(1,2) s])
    ultimately show ?thesis
      using 1 m by (intro exI [of _ True] exI [of _ st1]) (auto simp: moves_reg [OF m] intro!: exI [of _ "[]"])
  qed
qed

end
