(* ===== verification/Ownership.thy ===== *)
theory Ownership
  imports Registry
begin

text \<open>
  Requests for names and their release, proved against the written rules, the loop that drops the
  names of a connection, and the states the daemon reaches: \<open>bus_registry_acquire_service\<close>,
  \<open>bus_registry_release_service\<close> and the part of \<open>bus_connection_disconnected\<close> that concerns names.
\<close>

section \<open>Requesting a name\<close>

text \<open>What an operation leaves for the end of the transaction: nothing, or the references of one
  hook.\<close>

definition holding :: "hook list \<Rightarrow> registry \<Rightarrow> registry \<Rightarrow> bool" where
  "holding hs g g1 \<longleftrightarrow> hs = [] \<and> g = g1 \<or>
     (\<exists>s x ow sv. hs = [Cancel_Ownership s x] \<and> g = hold s x g1 \<and>
        owner_of g1 x = Some ow \<and> o_refs ow > 0 \<and> service_of g1 s = Some sv \<and> s_refs sv > 0)"

lemma holding_commit: "holding hs g g1 \<Longrightarrow> commit_reg env hs g = Some g1"
  using hold_free by (auto simp: holding_def hook_free_reg_def free_ownership_cancel_data_def)

lemma holding_fields:
  assumes "holding hs g g1"
  shows "service_of g s = Some sv \<Longrightarrow> \<exists>sv1. service_of g1 s = Some sv1 \<and> s_owners sv1 = s_owners sv \<and> s_name sv1 = s_name sv"
    and "service_of g1 s = Some sv1 \<Longrightarrow> \<exists>sv. service_of g s = Some sv \<and> s_owners sv = s_owners sv1 \<and> s_name sv = s_name sv1 \<and>
      s_refs sv \<ge> s_refs sv1"
    and "owner_of g1 x = Some ow \<Longrightarrow> \<exists>ow1. owner_of g x = Some ow1 \<and> o_conn ow1 = o_conn ow \<and>
      do_not_queue ow1 = do_not_queue ow \<and> allow_replacement ow1 = allow_replacement ow \<and> o_refs ow1 \<ge> o_refs ow"
  using assms by (auto simp: holding_def split: if_splits)

lemma entry_put_flags:
  "owner_of g x \<noteq> None \<Longrightarrow> entry (put_flags x flags g) = (entry g)(x := wish (conn_of g x) flags)"
  by (auto simp: entry_def put_flags_def conn_of_def flagged_def wish_def fun_eq_iff)

lemma insert_after_first_set: "set (insert_after_first x xs) = insert x (set xs)"
  by (cases xs) (auto simp: insert_after_first_def)

lemma insert_after_first_distinct: "distinct (insert_after_first x xs) \<longleftrightarrow> x \<notin> set xs \<and> distinct xs"
  by (cases xs) (auto simp: insert_after_first_def)

lemma insert_after_first_map: "map f (insert_after_first x xs) = insert_after_first (f x) (map f xs)"
  by (cases xs) (auto simp: insert_after_first_def)

lemma conn_wish [simp]: "fst (wish c flags) = c"
  by (simp add: wish_def)

lemma hold_put_queue: "put_queue s xs (hold t x g) = hold t x (put_queue s xs g)"
  by (cases g; cases "service_of g s"; cases "service_of g t") (auto simp: put_queue_def hold_def fun_eq_iff)

lemma holding_put_queue:
  assumes "holding hs g' g"
  shows "holding hs (put_queue s xs g') (put_queue s xs g)"
proof (cases "hs = []")
  case False
  then obtain t x ow tv where "hs = [Cancel_Ownership t x]" "g' = hold t x g" "owner_of g x = Some ow" "o_refs ow > 0"
    "service_of g t = Some tv" "s_refs tv > 0" using assms by (auto simp: holding_def)
  moreover have "\<exists>tw. service_of (put_queue s xs g) t = Some tw \<and> s_refs tw > 0"
    using calculation by (cases "t = s") auto
  ultimately show ?thesis by (auto simp: holding_def hold_put_queue)
qed (use assms in \<open>simp add: holding_def\<close>)

lemma enqueue_fresh:
  assumes "x \<notin> set zs" "c \<notin> conn_of g ` set zs" and f: "f = (entry g)(x := (c, name_flag_allow_replacement flags, name_flag_do_not_queue flags))"
    and "zs \<noteq> []"
  shows "map f (if \<not> name_flag_replace_existing flags \<or> zs = [] then zs @ [x] else insert_after_first x zs) =
    enqueue c flags (map (entry g) zs)"
proof -
  have e: "map f zs = map (entry g) zs" using assms(1) by (intro map_cong refl) (auto simp: f)
  have n: "c \<notin> fst ` set (map (entry g) zs)" using assms(2) unfolding queue_conns .
  have x: "f x = wish c flags" by (simp add: f wish_def)
  show ?thesis
  proof (cases "name_flag_replace_existing flags")
    case True
    then show ?thesis using assms(4)
      by (simp only: enqueue_def insert_after_first_map e x without_absent [OF assms(2)] if_True simp_thms if_False)
  next
    case False
    then show ?thesis using x e n by (simp add: enqueue_def)
  qed
qed

lemma enqueue_old:
  assumes "inj_on (conn_of g) (set zs)" "distinct zs" "x \<in> set zs" "conn_of g x = c"
  shows "map (\<lambda>y. if y = x then wish c flags else entry g y)
      (if name_flag_replace_existing flags then insert_after_first x (remove1 x zs) else zs) =
    enqueue c flags (map (entry g) zs)"
proof (cases "name_flag_replace_existing flags")
  case True
  have e: "map (\<lambda>y. if y = x then wish c flags else entry g y) (remove1 x zs) = map (entry g) (remove1 x zs)"
    using assms(2) by (intro map_cong refl) (auto simp: set_remove1_eq)
  show ?thesis using True
    by (simp only: if_True insert_after_first_map e enqueue_def without_remove1 [OF assms] simp_thms)
next
  case False
  have "c \<in> fst ` set (map (entry g) zs)" using assms(3,4) unfolding queue_conns by auto
  then show ?thesis using False map_flags [OF assms(1,3,4), of "wish c flags"] by (simp only: if_False enqueue_def if_True)
qed

text \<open>A successful \<open>bus_service_add_owner\<close>: what is registered for the end of the transaction, and
  the registry \<open>g1\<close> once that has happened.\<close>

definition added :: "tid \<Rightarrow> sid \<Rightarrow> cid \<Rightarrow> 32 word \<Rightarrow> service \<Rightarrow> hook list \<Rightarrow> registry \<Rightarrow> bus \<Rightarrow> bus \<Rightarrow> bool" where
  "added tx s c flags sv hs g1 st st1 \<longleftrightarrow> moves tx hs (reg st1) st st1 \<and> holding hs (reg st1) g1 \<and> reg_ok g1 \<and>
     (\<forall>n. queue_of g1 n = (if n = s_name sv then enqueue c flags (queue_of (reg st) n) else queue_of (reg st) n)) \<and>
     (\<exists>sv1. service_of g1 s = Some sv1 \<and> s_name sv1 = s_name sv \<and> hd (s_owners sv1) = hd (s_owners sv)) \<and>
     (if c \<in> conn_of (reg st) ` set (s_owners sv) then hs = []
      else hs = [Cancel_Ownership s (new_owner (reg st))] \<and>
        (\<exists>xs. g1 = join_queue s c flags xs (reg st) \<and> remove_last (new_owner (reg st)) xs = s_owners sv))"

lemma add_owner_effect:
  assumes g: "reg_ok (reg st)" and s: "service_of (reg st) s = Some sv" and h: "conn_of (reg st) (hd (s_owners sv)) \<noteq> c"
  shows "\<exists>ok st1. bus_service_add_owner env tx s c flags st = Some (ok, st1) \<and>
    (if ok then \<exists>hs g1. added tx s c flags sv hs g1 st st1
     else \<exists>g'. same_reg (reg st) g' \<and> moves tx [] g' st st1)"
proof -
  let ?g = "reg st" and ?name = "s_name sv"
  note k = reg_okD [OF g s]
  have alive: "\<forall>x \<in> set (s_owners sv). owner_of ?g x \<noteq> None" using reg_ok_alive [OF g s] by blast
  have q: "queue_of ?g ?name = map (entry ?g) (s_owners sv)" using k(1) s by (simp add: queue_of_def)
  obtain h ys where hy: "s_owners sv = h # ys" using k(4) by (cases "s_owners sv") auto
  show ?thesis
  proof (cases "find (\<lambda>x. conn_of ?g x = c) (s_owners sv)")
    case None
    let ?x = "new_owner ?g"
    define xs where xs: "xs = (if \<not> name_flag_replace_existing flags \<or> s_owners sv = [] then s_owners sv @ [?x]
      else insert_after_first ?x (s_owners sv))"
    have c: "c \<notin> conn_of ?g ` set (s_owners sv)" using None by (simp add: find_None_conn)
    note fresh = reg_ok_fresh(1) [OF g] reg_ok_fresh(3) [OF g s]
    have find: "find_owner ?g c (s_owners sv) = Some None" using find_owner_find [OF alive] None by simp
    have r: "s_refs sv > 0" using k(3) by simp
    obtain ok st1 where 1: "bus_service_add_owner env tx s c flags st = Some (ok, st1)"
      and m: "if ok then moves tx [Cancel_Ownership s ?x] (hold s ?x (join_queue s c flags xs ?g)) st st1
        else \<exists>g'. same_reg ?g g' \<and> moves tx [] g' st st1"
      using add_owner_new_effect [OF s r find reg_ok_fresh(5) [OF g] fresh xs, of env tx]
      unfolding join_queue_def by blast
    have set: "set xs = insert ?x (set (s_owners sv))" "distinct xs"
      using fresh(2) k(5) by (auto simp: xs insert_after_first_set insert_after_first_distinct)
    note l = join_simps [OF s, where c = c and flags = flags and xs = xs]
    have ok: "reg_ok (join_queue s c flags xs ?g)"
      using c by (intro join_ok [OF g s set]) auto
    have "map (entry (join_queue s c flags xs ?g)) xs = enqueue c flags (map (entry ?g) (s_owners sv))"
      unfolding xs [symmetric] using enqueue_fresh [OF fresh(2) c l(9)] k(4) unfolding xs [symmetric] by simp
    then have queue: "queue_of (join_queue s c flags xs ?g) n =
        (if n = ?name then enqueue c flags (queue_of ?g n) else queue_of ?g n)" for n
      using join_queue_queue [OF g s, of c flags xs n] unfolding q [symmetric] l(9) by presburger
    show ?thesis
    proof (cases ok)
      case True
      with m have m: "moves tx [Cancel_Ownership s ?x] (hold s ?x (join_queue s c flags xs ?g)) st st1" by simp
      have "holding [Cancel_Ownership s ?x] (reg st1) (join_queue s c flags xs ?g)"
        unfolding holding_def moves_reg [OF m] using k(3)
        by (intro disjI2 exI conjI) (auto simp: l fresh_owner_def)
      moreover have "hd xs = hd (s_owners sv)" using hy by (simp add: xs insert_after_first_def)
      moreover have "remove_last ?x xs = s_owners sv"
        using fresh(2) hy by (auto simp: xs remove_last_def insert_after_first_def remove1_append)
      ultimately have "added tx s c flags sv [Cancel_Ownership s ?x] (join_queue s c flags xs ?g) st st1"
        using m ok queue moves_reg [OF m] c unfolding added_def by (auto simp: l(4))
      then show ?thesis using 1 True by auto
    next
      case False
      then show ?thesis using 1 m by auto
    qed
  next
    case (Some x)
    then have x: "x \<in> set (s_owners sv)" "conn_of ?g x = c" using find_Some_conn by blast+
    from reg_ok_owner [OF g s x(1)] obtain ow where ow: "owner_of ?g x = Some ow" .
    have find: "find_owner ?g c (s_owners sv) = Some (Some x)" using find_owner_find [OF alive] Some by simp
    have "x \<noteq> h" using h hy x(2) by auto
    then have ne: "remove1 x (s_owners sv) \<noteq> []" using hy by simp
    let ?xs = "insert_after_first x (remove1 x (s_owners sv))"
    let ?gq = "if name_flag_replace_existing flags then put_queue s ?xs ?g else ?g"
    let ?gf = "put_flags x flags ?gq"
    obtain st1 where 1: "bus_service_add_owner env tx s c flags st = Some (True, st1)" and m: "moves tx [] ?gf st st1"
      using add_owner_old_effect [OF s find ow ne] by blast
    have set: "set ?xs = set (s_owners sv)" "distinct ?xs"
      using k(5) x(1) by (auto simp: insert_after_first_set insert_after_first_distinct set_remove1_eq)
    have okq: "reg_ok ?gq" using g put_queue_ok [OF g s set] by simp
    obtain sv0 where s0: "service_of ?gq s = Some sv0" "s_name sv0 = ?name"
        "s_owners sv0 = (if name_flag_replace_existing flags then ?xs else s_owners sv)"
      using s by (cases "name_flag_replace_existing flags") auto
    have x0: "x \<in> set (s_owners sv0)" using s0(3) set x(1) by auto
    have conn0: "conn_of ?gq = conn_of ?g" "entry ?gq = entry ?g" by simp_all
    have queue: "queue_of ?gf n = (if n = ?name then enqueue c flags (queue_of ?g n) else queue_of ?g n)" for n
    proof (cases "n = ?name")
      case True
      have "queue_of ?gf n = map (\<lambda>y. if y = x then wish c flags else entry ?g y) (s_owners sv0)"
        using put_flags_queue [OF okq s0(1) x0, of flags n] True s0(2) x(2) conn0 by (simp add: wish_def)
      also have "\<dots> = enqueue c flags (map (entry ?g) (s_owners sv))"
        unfolding s0(3) using enqueue_old [OF k(6,5) x] .
      finally show ?thesis using True q by simp
    next
      case False
      then show ?thesis using put_flags_queue [OF okq s0(1) x0, of flags n] s0(2) put_queue_queue [OF g s, of ?xs n]
        by simp
    qed
    have hd: "hd (s_owners sv0) = hd (s_owners sv)"
      using s0(3) hy \<open>x \<noteq> h\<close> by (simp add: insert_after_first_def)
    have "holding [] (reg st1) ?gf" using moves_reg [OF m] by (simp add: holding_def)
    moreover have "moves tx [] (reg st1) st st1" using m moves_reg [OF m] by simp
    moreover have "service_of ?gf s = Some sv0" using s0(1) by (simp add: put_flags_def)
    moreover have "c \<in> conn_of ?g ` set (s_owners sv)" using x by auto
    ultimately have "added tx s c flags sv [] ?gf st st1"
      unfolding added_def using put_flags_ok [OF okq, of x flags] queue s0(2) hd by (intro conjI) (blast | simp)+
    then show ?thesis using 1 by auto
  qed
qed

lemma commit_two:
  "commit_reg env (h # hs) g = do { g \<leftarrow> commit_reg env [h] g; commit_reg env hs g }"
  using commit_append [of "hook_free_reg env" "[h]" hs g] by simp

lemma commit_swap:
  assumes "owner_of g x = Some ow" "o_refs ow > 0" "service_of g s = Some sv" "s_refs sv > 0"
  shows "commit_reg env [Restore_Ownership s x f] (put_queue s xs (hold s x g)) = Some (put_queue s xs g)"
  using hold_free [of "put_queue s xs g" x ow s "sv\<lparr>s_owners := xs\<rparr>"] assms
  by (simp add: hook_free_reg_def free_ownership_restore_data_def hold_put_queue)

text \<open>The old primary owner leaves while the hook of the new one holds its references.\<close>

lemma commit_leave:
  assumes "reg_ok g" "service_of g s = Some sv" "s_owners sv = x # ys" "ys \<noteq> []" "holding hs g' g"
    "hs = [] \<or> (\<exists>y. hs = [Cancel_Ownership s y] \<and> y \<noteq> x)"
  shows "commit_reg env (Restore_Ownership s x f # hs) (unlinked s ys name g') = Some (leave s x ys g)"
proof (cases "hs = []")
  case True
  then show ?thesis using commit_unlinked [OF assms(1-3)] assms(4,5) by (simp add: holding_def unlinked_def)
next
  case False
  then obtain y where hs: "hs = [Cancel_Ownership s y]" "y \<noteq> x" using assms(6) by blast
  then obtain yw where g': "g' = hold s y g" "owner_of g y = Some yw" "o_refs yw > 0"
    using assms(5) by (auto simp: holding_def)
  have r: "s_refs sv = 1" using reg_okD(3) [OF assms(1,2)] .
  have "x \<in> set (s_owners sv)" using assms(3) by simp
  from reg_ok_owner [OF assms(1,2) this] obtain ow where ow: "owner_of g x = Some ow" "o_service ow = s" "o_refs ow = 1" .
  let ?u = "put_queue s ys (bump_service s g')"
  have "bus_owner_unref env x ?u = Some (drop_owner x ?u)"
    using ow hs(2) reg_ok_counter(1) [OF assms(1) ow(1)]
    by (intro unref_drop) (auto simp: g' put_queue_def bump_service_def)
  moreover have "bus_service_unref env s (drop_owner x ?u) = Some (hold s y (leave s x ys g))"
    using assms(2) r ow hs(2) g'(2)
    by (cases g; cases sv) (simp add: g' bus_service_unref_def leave_def drop_owner_def Let_def put_queue_def
        bump_service_def hold_def fun_upd_twist)
  moreover have "commit_reg env hs (hold s y (leave s x ys g)) = Some (leave s x ys g)"
    using hs(2) g'(2,3) r leave_simps [OF ow(1,2) assms(2), where xs = ys]
    by (intro holding_commit) (auto simp: holding_def hs(1))
  ultimately show ?thesis using assms(4)
    by (simp add: hook_free_reg_def free_ownership_restore_data_def unlinked_def del: hold_simps)
qed

text \<open>The replacement of the primary owner: the new owner has just been inserted behind it.\<close>

lemma replace_effect:
  assumes g: "reg_ok g1" and hs: "holding hs (reg st) g1" "hs = [] \<or> (\<exists>x. hs = [Cancel_Ownership s x] \<and> x \<noteq> h)"
    and hooks: "cancel_hooks (trans st) tx = hs"
    and s: "service_of g1 s = Some sv" "s_owners sv = h # x # ys"
    and ow: "owner_of g1 h = Some ow" "o_conn ow = oc"
  shows "\<exists>ok st1. (if do_not_queue ow then bus_service_remove_owner env tx s oc st else bus_service_swap_owner env tx s oc st) =
      Some (ok, st1) \<and>
    (if ok then \<exists>f g2. moves tx [Restore_Ownership s h f] (reg st1) st st1 \<and>
         commit_reg env (Restore_Ownership s h f # hs) (reg st1) = Some g2 \<and> reg_ok g2 \<and>
         (\<exists>sv1. service_of (reg st1) s = Some sv1 \<and> s_owners sv1 = x # (if do_not_queue ow then ys else h # ys) \<and> s_name sv1 = s_name sv) \<and>
         (\<forall>y. y \<noteq> h \<longrightarrow> owner_of (reg st1) y = owner_of (reg st) y) \<and>
         (\<forall>n. queue_of g2 n = (if n = s_name sv then map (entry g1) (x # (if do_not_queue ow then ys else h # ys)) else queue_of g1 n))
     else quiet st st1)"
proof -
  note k = reg_okD [OF g s(1)]
  obtain svr where svr: "service_of (reg st) s = Some svr" "s_owners svr = h # x # ys" "s_name svr = s_name sv" "s_refs svr > 0"
    using holding_fields(2) [OF hs(1) s(1)] k(3) s(2) by auto
  have h: "h \<in> set (s_owners sv)" "x \<in> set (s_owners sv)" "distinct (h # x # ys)" using s k(5) by simp_all
  from reg_ok_owner [OF g s(1) h(1)] ow have r1: "o_service ow = s" "o_refs ow = 1" by auto
  have alive: "\<forall>y \<in> set (s_owners sv). owner_of (reg st) y \<noteq> None"
    using reg_ok_alive [OF g s(1)] holding_fields(3) [OF hs(1)] by fastforce
  have ohr: "owner_of (reg st) h = Some ow"
    using hs ow(1) by (auto simp: holding_def)
  show ?thesis
  proof (cases "do_not_queue ow")
    case True
    obtain ok st1 where 1: "bus_service_remove_owner env tx s oc st = Some (ok, st1)"
      and m: "if ok then moves tx [Restore_Ownership s h (owner_after h (s_owners svr))]
         (unlinked s (x # ys) (s_name svr) (reg st)) st st1 else quiet st st1"
      using remove_primary_effect [of st s svr h "x # ys" ow oc env tx] svr ohr ow(2) r1 h(3) alive s(2) by auto
    show ?thesis
    proof (cases ok)
      case ok: True
      note m = m [unfolded if_P [OF ok]]
      have c: "commit_reg env (Restore_Ownership s h (owner_after h (s_owners svr)) # hs) (reg st1) = Some (leave s h (x # ys) g1)"
        unfolding moves_reg [OF m] using commit_leave [OF g s _ hs(1)] hs(2) by blast
      have "reg_ok (leave s h (x # ys) g1)" using leave_ok [OF g s(1) h(1), of "x # ys"] h(3) s(2) by auto
      moreover have "queue_of (leave s h (x # ys) g1) n = (if n = s_name sv then map (entry g1) (x # ys) else queue_of g1 n)" for n
        using leave_queue [OF g s(1) h(1), of "x # ys" n] h(3) by auto
      moreover have "\<exists>sv1. service_of (reg st1) s = Some sv1 \<and> s_owners sv1 = x # ys \<and> s_name sv1 = s_name sv"
        using svr by (simp add: moves_reg [OF m] unlinked_def bump_service_def)
      moreover have "\<forall>y. y \<noteq> h \<longrightarrow> owner_of (reg st1) y = owner_of (reg st) y"
        by (simp add: moves_reg [OF m] unlinked_def bump_service_def)
      moreover have "moves tx [Restore_Ownership s h (owner_after h (s_owners svr))] (reg st1) st st1"
        using m moves_reg [OF m] by simp
      ultimately show ?thesis using 1 c unfolding if_P [OF True] if_P [OF ok]
        by (intro exI [of _ ok] exI [of _ st1] conjI) (assumption, unfold if_P [OF ok], blast)
    qed (use 1 m True in auto)
  next
    case False
    have "owner_of (reg st) x \<noteq> None" using alive h(2) by blast
    then obtain xw where xw: "owner_of (reg st) x = Some xw" by blast
    obtain ok st1 where 1: "bus_service_swap_owner env tx s oc st = Some (ok, st1)"
      and m: "if ok then moves tx [Restore_Ownership s h (owner_after h (s_owners svr))]
         (put_queue s (x # h # ys) (hold s h (reg st))) st st1 else quiet st st1"
      using swap_effect [OF svr(1,2,4) ohr ow(2) _ xw, of env tx] r1(2) by auto
    show ?thesis
    proof (cases ok)
      case ok: True
      note m = m [unfolded if_P [OF ok]]
      let ?g2 = "put_queue s (x # h # ys) g1"
      have c1: "commit_reg env [Restore_Ownership s h (owner_after h (s_owners svr))] (reg st1) = Some (put_queue s (x # h # ys) (reg st))"
        unfolding moves_reg [OF m] using ohr r1(2) svr by (intro commit_swap) auto
      have "holding hs (put_queue s (x # h # ys) (reg st)) ?g2"
        using holding_put_queue [OF hs(1)] .
      then have c: "commit_reg env (Restore_Ownership s h (owner_after h (s_owners svr)) # hs) (reg st1) = Some ?g2"
        unfolding commit_two [of env _ hs] c1 by (simp add: holding_commit)
      have "reg_ok ?g2" using put_queue_ok [OF g s(1), of "x # h # ys"] h(3) s(2) by auto
      moreover have "queue_of ?g2 n = (if n = s_name sv then map (entry g1) (x # h # ys) else queue_of g1 n)" for n
        using put_queue_queue [OF g s(1)] by simp
      moreover have "\<exists>sv1. service_of (reg st1) s = Some sv1 \<and> s_owners sv1 = x # h # ys \<and> s_name sv1 = s_name sv"
        using svr by (simp add: moves_reg [OF m])
      moreover have "\<forall>y. y \<noteq> h \<longrightarrow> owner_of (reg st1) y = owner_of (reg st) y"
        by (simp add: moves_reg [OF m])
      moreover have "moves tx [Restore_Ownership s h (owner_after h (s_owners svr))] (reg st1) st st1"
        using m moves_reg [OF m] by simp
      ultimately show ?thesis using 1 c unfolding if_not_P [OF False] if_P [OF ok]
        by (intro exI [of _ ok] exI [of _ st1] conjI) (assumption, unfold if_P [OF ok], blast)
    qed (use 1 m False in auto)
  qed
qed

section \<open>Undoing a new owner\<close>

text \<open>Cancelling a transaction that put a new owner into the queue takes it out again; for a name that
  is only being created (in the table or not yet) the service goes too.\<close>

lemma rollback_joined:
  assumes g: "reg_ok g" and s: "service_of g s = Some sv" and xs: "remove_last (new_owner g) xs = s_owners sv"
  shows "\<exists>g'. rollback_reg env [Cancel_Ownership s (new_owner g)] (hold s (new_owner g) (join_queue s c flags xs g)) = Some g' \<and>
    same_reg g g'"
proof -
  let ?x = "new_owner g"
  note l = join_simps [OF s, where c = c and flags = flags and xs = xs]
  note f = reg_ok_fresh(1,5) [OF g]
  let ?g1 = "put_queue s (s_owners sv) (hold s ?x (join_queue s c flags xs g))"
  have "cancel_ownership env s ?x (hold s ?x (join_queue s c flags xs g)) =
      Some (?g1\<lparr>owner_of := (owner_of g)(?x \<mapsto> fresh_owner s c flags)\<rparr>)"
    using reg_okD(3,4) [OF g s] xs
    by (simp add: cancel_ownership_def bus_service_unlink_owner_def owners_def set_owners_def put_queue_def l
        bus_owner_unref_def fresh_owner_def)
  moreover have "\<exists>g'. free_ownership_cancel_data env s ?x (?g1\<lparr>owner_of := (owner_of g)(?x \<mapsto> fresh_owner s c flags)\<rparr>) =
      Some g' \<and> same_reg g g'"
    using reg_okD(3) [OF g s] f s
    by (cases g; cases sv) (auto simp: free_ownership_cancel_data_def bus_owner_unref_def bus_service_unref_def l
        bus_connection_remove_owned_service_def assertion_def put_queue_def fresh_owner_def Let_def same_reg_def
        join_queue_def put_owner_def bus_connection_add_owned_service_link_def hold_def fun_upd_idem)
  ultimately show ?thesis by (auto simp: hook_cancel_reg_def hook_free_reg_def)
qed

lemma rollback_new_name:
  assumes g: "reg_ok g" and n: "service_hash g name = None" and h: "h = service_hash g \<or> h = (service_hash g)(name \<mapsto> new_service g)"
  shows "\<exists>g'. rollback_reg env [Cancel_Ownership (new_service g) (new_owner g)]
      (hold (new_service g) (new_owner g) ((new_name name c flags g)\<lparr>service_hash := h\<rparr>)) = Some g' \<and> same_reg g g'"
proof -
  let ?x = "new_owner g" and ?s = "new_service g"
  note f = reg_ok_fresh(1,2,5) [OF g]
  have h': "h(name := None) = service_hash g" using h n by (auto simp: fun_upd_idem)
  show ?thesis
    using f h'
    by (cases g) (simp add: hook_cancel_reg_def hook_free_reg_def cancel_ownership_def bus_service_unlink_owner_def owners_def
        set_owners_def new_name_def Let_def bus_owner_unref_def bus_service_unlink_def bus_service_unref_def assertion_def
        join_queue_def put_queue_def put_owner_def bus_connection_add_owned_service_link_def hold_def fresh_owner_def
        free_ownership_cancel_data_def bus_connection_remove_owned_service_def same_reg_def fun_upd_idem remove_last_def)
qed

lemma commit_new_name:
  assumes g: "reg_ok g"
  shows "commit_reg env [Cancel_Ownership (new_service g) (new_owner g)]
      (hold (new_service g) (new_owner g) (new_name name c flags g)) = Some (new_name name c flags g)"
  by (rule holding_commit) (auto simp: holding_def new_name_simps fresh_owner_def)

lemma fields_eq:
  fixes g g' :: registry
  assumes "owner_of g' = owner_of g" "service_of g' = service_of g" "service_hash g' = service_hash g"
    "services_owned g' = services_owned g" "n_services_owned g' = n_services_owned g"
    "new_owner g' = new_owner g" "new_service g' = new_service g"
  shows "g' = g"
  using assms by (cases g; cases g') simp

lemma ensure_effect:
  assumes g: "reg_ok (reg st)" and n: "service_hash (reg st) name = None"
  defines "s \<equiv> new_service (reg st)" and "x \<equiv> new_owner (reg st)"
  shows "\<exists>r st1. bus_registry_ensure env tx name c flags st = Some (r, st1) \<and>
    (case r of
       None \<Rightarrow> \<exists>hs g'. moves tx hs (reg st1) st st1 \<and> rollback_reg env hs (reg st1) = Some g' \<and> same_reg (reg st) g'
     | Some t \<Rightarrow> t = s \<and> moves tx [Cancel_Ownership s x] (hold s x (new_name name c flags (reg st))) st st1)"
proof -
  let ?g = "reg st"
  note f = reg_ok_fresh [OF g]
  obtain ok1 st1 where 1: "alloc st = (ok1, st1)" by (metis prod.collapse)
  note q1 = quiet_alloc [OF 1]
  let ?g2 = "?g\<lparr>new_service := Suc s\<rparr>"
  define sta where "sta = st1\<lparr>reg := ?g2\<rparr>"
  obtain ok2 st2 where 2: "alloc sta = (ok2, st2)" by (metis prod.collapse)
  have m2: "moves tx [] ?g2 st st2" using q1 quiet_alloc [OF 2] by (auto simp: moves_def quiet_def sta_def)
  let ?sv = "\<lparr>s_refs = 1, s_name = name, s_owners = []\<rparr>"
  let ?g3 = "?g2\<lparr>service_of := (service_of ?g)(s \<mapsto> ?sv)\<rparr>"
  define stb where "stb = st2\<lparr>reg := ?g3\<rparr>"
  have b: "moves tx [] ?g3 st stb" using m2 by (auto simp: moves_def stb_def)
  obtain ok3 st3 where 3: "bus_driver_send_service_owner_changed env tx name None (unique_name stb c) stb = (ok3, st3)"
    by (metis prod.collapse)
  have m3: "moves tx [] ?g3 st st3" using moves_quiet_trans [OF b hushed_quiet [OF hushed_owner_changed 3]] .
  obtain ok4 st4 where 4: "bus_activation_service_created env tx name st3 = (ok4, st4)" by (metis prod.collapse)
  have m4: "moves tx [] ?g3 st st4" using moves_quiet_trans [OF m3 hushed_quiet [OF hushed_service_created 4]] .
  have undo: "bus_service_unref env s (?g3\<lparr>new_owner := i, new_service := j\<rparr>) = Some (?g2\<lparr>new_owner := i, new_service := j\<rparr>)" for i j
    using f(2) by (simp add: bus_service_unref_def assertion_def s_def fun_upd_idem)
  have same: "same_reg ?g (?g2\<lparr>new_owner := i, new_service := j\<rparr>)" if "x \<le> i" "Suc s \<le> j" for i j using that by (simp add: same_reg_def s_def x_def)
  have start: "bus_registry_ensure env tx name c flags st =
      (if \<not> ok1 then Some (None, st1) else if \<not> ok2 then Some (None, st2)
       else if \<not> ok3 then do { st \<leftarrow> on_reg (bus_service_unref env s) st3; Some (None, st) }
       else if \<not> ok4 then do { st \<leftarrow> on_reg (bus_service_unref env s) st4; Some (None, st) }
       else do {
         (ok, st) \<leftarrow> bus_service_add_owner env tx s c flags st4;
         if \<not> ok then do { st \<leftarrow> on_reg (bus_service_unref env s) st; Some (None, st) }
         else let (ok, st) = alloc st in
           if \<not> ok then Some (None, st)
           else Some (Some s, st\<lparr>reg := (reg st)\<lparr>service_hash := (service_hash (reg st))(name \<mapsto> s)\<rparr>\<rparr>)
       })"
    using n 2 [unfolded sta_def] 3 [unfolded stb_def] 4
    by (simp add: bus_registry_ensure_def bus_registry_lookup_def 1 Let_def quiet_reg [OF q1] moves_reg [OF m2] flip: s_def)
  have fail: "\<exists>st'. do { st \<leftarrow> on_reg (bus_service_unref env s) su; Some (None, st) } = Some (None :: sid option, st') \<and>
      moves tx [] (?g2\<lparr>new_owner := i, new_service := j\<rparr>) st st'"
    if "moves tx [] (?g3\<lparr>new_owner := i, new_service := j\<rparr>) st su" for su i j
    using moves_on_reg [where f = "bus_service_unref env s", OF that undo] by auto
  have ans: "?thesis" if "bus_registry_ensure env tx name c flags st = Some (None, st')" "moves tx [] (?g2\<lparr>new_owner := i, new_service := j\<rparr>) st st'" "x \<le> i" "Suc s \<le> j"
    for st' i j
    using that same [OF that(3,4)] moves_reg [OF that(2)] by (auto intro!: exI [of _ "[]"])
  have i0: "?g2\<lparr>new_owner := x, new_service := Suc s\<rparr> = ?g2" "?g3\<lparr>new_owner := x, new_service := Suc s\<rparr> = ?g3" by (simp_all add: x_def)
  consider "\<not> ok1" | "ok1" "\<not> ok2" | "ok1" "ok2" "\<not> ok3" | "ok1" "ok2" "ok3" "\<not> ok4" | (go) "ok1" "ok2" "ok3" "ok4" by blast
  then show ?thesis
  proof cases
    case 1
    then have "bus_registry_ensure env tx name c flags st = Some (None, st1)" by (simp add: start)
    moreover have "moves tx [] ?g st st1" using q1 by (simp add: quiet_moves [of st st1 tx])
    ultimately show ?thesis using moves_reg by (auto intro!: exI [of _ "[]"])
  next
    case 2
    then have "bus_registry_ensure env tx name c flags st = Some (None, st2)" by (simp add: start)
    then show ?thesis using ans [where st' = st2 and i = x and j = "Suc s"] m2 i0 by simp
  next
    case 3
    obtain st' where "do { st \<leftarrow> on_reg (bus_service_unref env s) st3; Some (None, st) } = Some (None :: sid option, st')"
      "moves tx [] (?g2\<lparr>new_owner := x, new_service := Suc s\<rparr>) st st'" using fail [where i = x and j = "Suc s" and su = st3] m3 i0 by auto
    then show ?thesis using ans [where st' = st' and i = x and j = "Suc s"] 3 by (simp add: start)
  next
    case 4
    obtain st' where "do { st \<leftarrow> on_reg (bus_service_unref env s) st4; Some (None, st) } = Some (None :: sid option, st')"
      "moves tx [] (?g2\<lparr>new_owner := x, new_service := Suc s\<rparr>) st st'" using fail [where i = x and j = "Suc s" and su = st4] m4 i0 by auto
    then show ?thesis using ans [where st' = st' and i = x and j = "Suc s"] 4 by (simp add: start)
  next
    case go
    have r4: "reg st4 = ?g3" using m4 by (rule moves_reg)
    have nx: "new_owner ?g3 = x" by (simp add: x_def)
    obtain ok5 st5 where 5: "bus_service_add_owner env tx s c flags st4 = Some (ok5, st5)"
      and m5: "if ok5 then moves tx [Cancel_Ownership s x] (hold s x (put_queue s [x] (put_owner s c flags ?g3))) st4 st5
        else \<exists>g. same_reg ?g3 g \<and> moves tx [] g st4 st5"
      using add_owner_new_effect [of st4 s ?sv c "[x]" flags env tx, unfolded r4 nx] f(1,5) by (simp add: x_def) blast
    show ?thesis
    proof (cases ok5)
      case False
      then obtain g' where g': "same_reg ?g3 g'" "moves tx [] g' st4 st5" using m5 by auto
      define i j where ij: "i = new_owner g'" "j = new_service g'"
      have "g' = ?g3\<lparr>new_owner := i, new_service := j\<rparr>" "x \<le> i" "Suc s \<le> j"
        using g'(1) by (simp_all add: same_reg_def ij x_def)
      with g'(2) have i: "moves tx [] (?g3\<lparr>new_owner := i, new_service := j\<rparr>) st4 st5" "x \<le> i" "Suc s \<le> j" by simp_all
      have "moves tx [] (?g3\<lparr>new_owner := i, new_service := j\<rparr>) st st5" using moves_trans [OF m4 i(1)] by simp
      from fail [OF this] obtain st' where "do { st \<leftarrow> on_reg (bus_service_unref env s) st5; Some (None, st) } = Some (None :: sid option, st')"
        "moves tx [] (?g2\<lparr>new_owner := i, new_service := j\<rparr>) st st'" by blast
      then show ?thesis using ans [where st' = st' and i = i and j = j] go 5 False i by (simp add: start)
    next
      case True
      let ?h = "service_hash ?g"
      have "(new_name name c flags ?g)\<lparr>service_hash := ?h\<rparr> = put_queue s [x] (put_owner s c flags ?g3)"
        by (rule fields_eq) (simp_all add: new_name_simps put_owner_def bus_connection_add_owned_service_link_def s_def x_def)
      then have m6: "moves tx [Cancel_Ownership s x] (hold s x ((new_name name c flags ?g)\<lparr>service_hash := ?h\<rparr>)) st st5"
        using moves_trans [OF m4] m5 True by fastforce
      obtain ok6 st6 where 6: "alloc st5 = (ok6, st6)" by (metis prod.collapse)
      note m7 = moves_quiet_trans [OF m6 quiet_alloc [OF 6]]
      show ?thesis
      proof (cases ok6)
        case False
        have "bus_registry_ensure env tx name c flags st = Some (None, st6)" using go 5 6 True False by (simp add: start)
        moreover obtain g' where "rollback_reg env [Cancel_Ownership s x] (reg st6) = Some g'" "same_reg ?g g'"
          using rollback_new_name [OF g n, of ?h env c flags] unfolding moves_reg [OF m7] s_def x_def by blast
        ultimately show ?thesis using m7 moves_reg [OF m7] by (simp del: all_hooks.simps) blast
      next
        case ok: True
        let ?st = "st6\<lparr>reg := (reg st6)\<lparr>service_hash := (service_hash (reg st6))(name \<mapsto> s)\<rparr>\<rparr>"
        have "bus_registry_ensure env tx name c flags st = Some (Some s, ?st)" using go 5 6 True ok by (simp add: start)
        moreover have "reg ?st = hold s x (new_name name c flags ?g)"
          using moves_reg [OF m7] by (intro fields_eq) (simp_all add: new_name_simps s_def)
        ultimately show ?thesis using m7 by (auto simp: moves_def)
      qed
    qed
  qed
qed

section \<open>The decision\<close>

lemma queue_of_service:
  assumes "reg_ok g" "service_of g s = Some sv"
  shows "queue_of g (s_name sv) = map (entry g) (s_owners sv)"
  using reg_okD(1) [OF assms] assms(2) by (simp add: queue_of_def)

text \<open>What a request leaves when it fails, after the transaction has been cancelled.\<close>

definition request_failed :: "cid \<Rightarrow> string \<Rightarrow> 32 word \<Rightarrow> registry \<Rightarrow> registry \<Rightarrow> bool" where
  "request_failed c name flags g g' \<longleftrightarrow> reg_ok g' \<and> (\<forall>n. n \<noteq> name \<longrightarrow> queue_of g' n = queue_of g n) \<and>
     (queue_of g' name = queue_of g name \<or>
      c \<in> fst ` set (queue_of g name) \<and> queue_of g' name = enqueue c flags (queue_of g name))"

definition request_done :: "cid \<Rightarrow> string \<Rightarrow> 32 word \<Rightarrow> registry \<Rightarrow> request_reply \<Rightarrow> registry \<Rightarrow> bool" where
  "request_done c name flags g reply g' \<longleftrightarrow> reg_ok g' \<and> (\<forall>n. n \<noteq> name \<longrightarrow> queue_of g' n = queue_of g n) \<and>
     request c flags (queue_of g name) = (reply, queue_of g' name)"

definition decided :: "bus_env \<Rightarrow> tid \<Rightarrow> cid \<Rightarrow> string \<Rightarrow> 32 word \<Rightarrow> sid \<Rightarrow> bus \<Rightarrow> (bus_error + request_reply) \<times> bus \<Rightarrow> bool" where
  "decided env tx c name flags s st r =
     (case r of
        (Inr reply, st1) \<Rightarrow> \<exists>hs g'. moves tx hs (reg st1) st st1 \<and> commit_reg env hs (reg st1) = Some g' \<and>
          request_done c name flags (reg st) reply g' \<and>
          (\<exists>sv. service_of (reg st1) s = Some sv \<and> s_name sv = name)
      | (Inl e, st1) \<Rightarrow> \<exists>hs g'. moves tx hs (reg st1) st st1 \<and> rollback_reg env hs (reg st1) = Some g' \<and>
          request_failed c name flags (reg st) g')"

lemma same_reg_failed: "reg_ok g \<Longrightarrow> same_reg g g' \<Longrightarrow> request_failed c name flags g g'"
  using same_reg_ok unfolding request_failed_def by blast

lemma decide_already:
  assumes g: "reg_ok (reg st)" and s: "service_of (reg st) s = Some sv" "s_owners sv = h # ys" "conn_of (reg st) h = c"
  shows "\<exists>st1. on_reg (bus_owner_set_flags h flags) st = Some st1 \<and>
    decided env tx c (s_name sv) flags s st (Inr Already_Owner, st1)"
proof -
  let ?g = "reg st"
  have h: "h \<in> set (s_owners sv)" using s(2) by simp
  from reg_ok_owner [OF g s(1) h] obtain ow where ow: "owner_of ?g h = Some ow" .
  obtain st1 where 1: "on_reg (bus_owner_set_flags h flags) st = Some st1" and m: "moves tx [] (put_flags h flags ?g) st st1"
    using on_reg_moves [of "bus_owner_set_flags h flags" st, OF set_flags_put [OF ow]] by blast
  have h': "h \<notin> set ys" using reg_okD(5) [OF g s(1)] s(2) by simp
  have "map (\<lambda>y. if y = h then wish c flags else entry ?g y) ys = map (entry ?g) ys"
    using h' by (intro map_cong refl) auto
  then have q: "queue_of (put_flags h flags ?g) n = (if n = s_name sv then wish c flags # map (entry ?g) ys else queue_of ?g n)" for n
    using put_flags_queue [OF g s(1) h, of flags n] unfolding s(2,3) wish_def by (simp only: list.map if_True simp_thms)
  have "request c flags (queue_of ?g (s_name sv)) = (Already_Owner, wish c flags # map (entry ?g) ys)"
    using s(3) by (simp add: queue_of_service [OF g s(1)] s(2) request_def entry_conn prod.case_eq_if)
  then have "request_done c (s_name sv) flags ?g Already_Owner (put_flags h flags ?g)"
    using put_flags_ok [OF g] q by (simp add: request_done_def)
  moreover have "service_of (reg st1) s = Some sv" using s(1) by (simp add: moves_reg [OF m] put_flags_def)
  ultimately show ?thesis using 1 m moves_reg [OF m] unfolding decided_def by (auto intro!: exI [of _ "[]"])
qed

lemma drop_queued:
  assumes g: "reg_ok (reg st)" and s: "service_of (reg st) s = Some sv" and y: "y \<in> set (s_owners sv)" "conn_of (reg st) y = c"
    and h: "conn_of (reg st) (hd (s_owners sv)) \<noteq> c"
  shows "\<exists>st1. do { xs \<leftarrow> owners (reg st) s; st \<leftarrow> on_reg (set_owners s (remove1 y xs)) st; on_reg (bus_owner_unref env y) st } = Some st1 \<and>
    moves tx [] (leave s y (remove1 y (s_owners sv)) (reg st)) st st1 \<and> reg_ok (reg st1) \<and>
    (\<forall>n. queue_of (reg st1) n = (if n = s_name sv then without c (queue_of (reg st) n) else queue_of (reg st) n))"
proof -
  let ?g = "reg st" and ?xs = "remove1 y (s_owners sv)"
  note k = reg_okD [OF g s]
  from reg_ok_owner [OF g s y(1)] obtain ow where ow: "owner_of ?g y = Some ow" "o_service ow = s" "o_refs ow = 1" .
  have m0: "moves tx [] ?g st st" by (simp add: moves_def)
  obtain st1 where 1: "on_reg (set_owners s ?xs) st = Some st1" and m1: "moves tx [] (put_queue s ?xs ?g) st st1"
    using moves_on_reg [where f = "set_owners s ?xs", OF m0 set_owners_put [OF s]] by blast
  have "bus_owner_unref env y (put_queue s ?xs ?g) = Some (drop_owner y (put_queue s ?xs ?g))"
    using ow reg_ok_counter(1) [OF g ow(1)] by (intro unref_drop) auto
  from moves_on_reg [where f = "bus_owner_unref env y", OF m1 this]
  obtain st2 where 2: "on_reg (bus_owner_unref env y) st1 = Some st2" and m2: "moves tx [] (leave s y ?xs ?g) st st2"
    unfolding leave_def by blast
  have "y \<noteq> hd (s_owners sv)" using h y(2) by auto
  then have set: "set ?xs = set (s_owners sv) - {y}" "distinct ?xs" "?xs \<noteq> []"
    using k(4,5) by (auto simp: set_remove1_eq neq_Nil_conv)
  show ?thesis
    using 1 2 m2 s leave_ok [OF g s y(1) set] leave_queue [OF g s y(1), of ?xs] set(1) without_remove1 [OF k(6,5) y]
      queue_of_service [OF g s] moves_reg [OF m2] by (simp add: owners_def)
qed

lemma decide_exists:
  assumes g: "reg_ok (reg st)" and s: "service_of (reg st) s = Some sv" "s_owners sv = h # ys" "conn_of (reg st) h \<noteq> c"
    and ow: "owner_of (reg st) h = Some ow" and f: "name_flag_do_not_queue flags" "\<not> (allow_replacement ow \<and> name_flag_replace_existing flags)"
  shows "\<exists>r. do {
      link \<leftarrow> bus_service_find_owner_link (reg st) s c;
      st \<leftarrow> (case link of
          None \<Rightarrow> Some st
        | Some y \<Rightarrow> do { xs \<leftarrow> owners (reg st) s; st \<leftarrow> on_reg (set_owners s (remove1 y xs)) st; on_reg (bus_owner_unref env y) st });
      Some (Inr Exists, st)
    } = Some r \<and> decided env tx c (s_name sv) flags s st r"
proof -
  let ?g = "reg st"
  have q: "queue_of ?g (s_name sv) = map (entry ?g) (s_owners sv)" by (rule queue_of_service [OF g s(1)])
  have req: "request c flags (queue_of ?g (s_name sv)) = (Exists, without c (queue_of ?g (s_name sv)))"
    using s(3) f ow by (simp add: q s(2) request_def prod.case_eq_if entry_conn) (simp add: entry_def Let_def)
  have find: "find_owner ?g c (s_owners sv) = Some (find (\<lambda>x. conn_of ?g x = c) (s_owners sv))"
    using reg_ok_alive [OF g s(1)] by (intro find_owner_find) blast
  show ?thesis
  proof (cases "find (\<lambda>x. conn_of ?g x = c) (s_owners sv)")
    case None
    have "moves tx [] ?g st st" by (simp add: moves_def)
    moreover have "request_done c (s_name sv) flags ?g Exists ?g"
      using g req without_absent [of c ?g "s_owners sv"] None q by (simp add: request_done_def find_None_conn)
    ultimately show ?thesis using None find s(1)
      by (intro exI [of _ "(Inr Exists, st)"]) (auto simp: bus_service_find_owner_link_def decided_def intro!: exI [of _ "[]"])
  next
    case (Some y)
    then have y: "y \<in> set (s_owners sv)" "conn_of ?g y = c" using find_Some_conn by blast+
    obtain st1 where 1: "do { xs \<leftarrow> owners (reg st) s; st \<leftarrow> on_reg (set_owners s (remove1 y xs)) st; on_reg (bus_owner_unref env y) st } = Some st1"
      and m: "moves tx [] (leave s y (remove1 y (s_owners sv)) ?g) st st1" and ok: "reg_ok (reg st1)"
      and r: "\<forall>n. queue_of (reg st1) n = (if n = s_name sv then without c (queue_of ?g n) else queue_of ?g n)"
      using drop_queued [OF g s(1) y, of env tx] s(2,3) by auto
    from reg_ok_owner [OF g s(1) y(1)] obtain yw where yw: "owner_of ?g y = Some yw" "o_service yw = s" .
    have "\<exists>sv1. service_of (reg st1) s = Some sv1 \<and> s_name sv1 = s_name sv"
      by (simp add: moves_reg [OF m] leave_simps [OF yw s(1)])
    moreover have "request_done c (s_name sv) flags ?g Exists (reg st1)"
      using ok r req by (simp add: request_done_def)
    moreover have "moves tx [] (reg st1) st st1" using m moves_reg [OF m] by simp
    ultimately show ?thesis using 1 Some find s(1)
      by (intro exI [of _ "(Inr Exists, st1)"]) (auto simp: bus_service_find_owner_link_def decided_def intro!: exI [of _ "[]"])
  qed
qed

lemma holding_queue: "holding hs g g1 \<Longrightarrow> queue_of g n = queue_of g1 n"
  by (auto simp: holding_def hold_def queue_of_def entry_def fun_eq_iff Let_def split: option.splits)

lemma added_failed:
  assumes g: "reg_ok (reg st)" and s: "service_of (reg st) s = Some sv" and a: "added tx s c flags sv hs g1 st st1"
  shows "\<exists>g'. rollback_reg env hs (reg st1) = Some g' \<and> request_failed c (s_name sv) flags (reg st) g'"
proof (cases "c \<in> conn_of (reg st) ` set (s_owners sv)")
  case False
  with a obtain xs where x: "hs = [Cancel_Ownership s (new_owner (reg st))]" "g1 = join_queue s c flags xs (reg st)"
    "remove_last (new_owner (reg st)) xs = s_owners sv" unfolding added_def by auto
  then have "reg st1 = hold s (new_owner (reg st)) (join_queue s c flags xs (reg st))"
    using a by (auto simp: added_def holding_def)
  then show ?thesis
    using rollback_joined [OF g s, of xs env c flags] x same_reg_failed [OF g] by auto
next
  case True
  then have hs: "hs = []" "reg st1 = g1" using a by (auto simp: added_def holding_def)
  moreover have "c \<in> fst ` set (queue_of (reg st) (s_name sv))"
    using True unfolding queue_of_service [OF g s] queue_conns .
  ultimately show ?thesis using a by (simp add: request_failed_def added_def)
qed

lemma decide_queue:
  assumes g: "reg_ok (reg st)" and s: "service_of (reg st) s = Some sv" "s_owners sv = h # ys" "conn_of (reg st) h \<noteq> c"
    and ow: "owner_of (reg st) h = Some ow" and f: "\<not> name_flag_do_not_queue flags" "\<not> (allow_replacement ow \<and> name_flag_replace_existing flags)"
  shows "\<exists>r. do {
      (ok, st) \<leftarrow> bus_service_add_owner env tx s c flags st;
      Some (if \<not> ok then Inl No_Memory else Inr In_Queue, st)
    } = Some r \<and> decided env tx c (s_name sv) flags s st r"
proof -
  let ?g = "reg st"
  have q: "queue_of ?g (s_name sv) = map (entry ?g) (s_owners sv)" by (rule queue_of_service [OF g s(1)])
  have req: "request c flags (queue_of ?g (s_name sv)) = (In_Queue, enqueue c flags (queue_of ?g (s_name sv)))"
    using s(3) f ow by (simp add: q s(2) request_def prod.case_eq_if entry_conn) (simp add: entry_def Let_def)
  obtain ok st1 where 1: "bus_service_add_owner env tx s c flags st = Some (ok, st1)"
    and m: "if ok then \<exists>hs g1. added tx s c flags sv hs g1 st st1 else \<exists>g'. same_reg ?g g' \<and> moves tx [] g' st st1"
    using add_owner_effect [OF g s(1), of c env tx flags] s(2,3) by auto
  have "decided env tx c (s_name sv) flags s st (if \<not> ok then Inl No_Memory else Inr In_Queue, st1)"
  proof (cases ok)
    case True
    then obtain hs g1 where a: "added tx s c flags sv hs g1 st st1" using m by auto
    have c: "commit_reg env hs (reg st1) = Some g1" using a holding_commit unfolding added_def by blast
    have "request_done c (s_name sv) flags ?g In_Queue g1" using a req by (simp add: added_def request_done_def)
    moreover have "\<exists>sv1. service_of (reg st1) s = Some sv1 \<and> s_name sv1 = s_name sv"
      using a holding_fields(2) unfolding added_def by metis
    ultimately show ?thesis using a c True unfolding decided_def added_def by auto
  next
    case False
    then obtain g' where g': "same_reg ?g g'" "moves tx [] g' st st1" using m by auto
    then show ?thesis using False same_reg_failed [OF g g'(1)] moves_reg [OF g'(2)] unfolding decided_def
      by (auto intro!: exI [of _ "[]"])
  qed
  with 1 show ?thesis by simp
qed

lemma added_queue:
  assumes g: "reg_ok (reg st)" and s: "service_of (reg st) s = Some sv" "s_owners sv = h # ys" and h: "conn_of (reg st) h \<noteq> c"
    and f: "name_flag_replace_existing flags" and a: "added tx s c flags sv hs g1 st st1"
  obtains sv1 x zs where "service_of g1 s = Some sv1" "s_name sv1 = s_name sv" "s_owners sv1 = h # x # zs"
    "entry g1 h = entry (reg st) h" "entry g1 x = wish c flags" "map (entry g1) zs = without c (map (entry (reg st)) ys)"
proof -
  let ?g = "reg st"
  obtain sv1 where sv1: "service_of g1 s = Some sv1" "s_name sv1 = s_name sv" "hd (s_owners sv1) = h"
    using a s(2) by (auto simp: added_def)
  have "reg_ok g1" using a by (simp add: added_def)
  then have "map (entry g1) (s_owners sv1) = queue_of g1 (s_name sv)"
    using queue_of_service [OF _ sv1(1)] sv1(2) by simp
  also have "\<dots> = enqueue c flags (queue_of ?g (s_name sv))" using a by (simp add: added_def)
  also have "\<dots> = entry ?g h # wish c flags # without c (map (entry ?g) ys)"
    using f h by (simp add: enqueue_def queue_of_service [OF g s(1)] s(2) without_def insert_after_first_def entry_conn)
  finally obtain k x zs where "s_owners sv1 = k # x # zs" "entry g1 k = entry ?g h" "entry g1 x = wish c flags"
    "map (entry g1) zs = without c (map (entry ?g) ys)" by (auto simp: map_eq_Cons_conv)
  then show thesis using that sv1 by simp
qed

lemma decide_replace:
  assumes g: "reg_ok (reg st)" and s: "service_of (reg st) s = Some sv" "s_owners sv = h # ys" "conn_of (reg st) h = oc" "oc \<noteq> c"
    and ow: "owner_of (reg st) h = Some ow" and f: "name_flag_replace_existing flags" "allow_replacement ow"
    and hooks: "cancel_hooks (trans st) tx = []"
  shows "\<exists>r. do {
      (ok, st) \<leftarrow> bus_service_add_owner env tx s c flags st;
      if \<not> ok then Some (Inl No_Memory, st)
      else do {
        pw \<leftarrow> owner_of (reg st) h;
        (ok, st) \<leftarrow> (if do_not_queue pw then bus_service_remove_owner env tx s oc st
                     else bus_service_swap_owner env tx s oc st);
        if \<not> ok then Some (Inl No_Memory, st)
        else do {
          pc \<leftarrow> bus_service_get_primary_owners_connection (reg st) s;
          assertion env (pc = Some c);
          Some (Inr Primary_Owner, st)
        }
      }
    } = Some r \<and> decided env tx c (s_name sv) flags s st r"
proof -
  let ?g = "reg st" and ?n = "s_name sv"
  obtain ok st1 where 1: "bus_service_add_owner env tx s c flags st = Some (ok, st1)"
    and m: "if ok then \<exists>hs g1. added tx s c flags sv hs g1 st st1 else \<exists>g'. same_reg ?g g' \<and> moves tx [] g' st st1"
    using add_owner_effect [OF g s(1), of c env tx flags] s(2-4) by auto
  show ?thesis
  proof (cases ok)
    case False
    then obtain g' where g': "same_reg ?g g'" "moves tx [] g' st st1" using m by auto
    then have "decided env tx c ?n flags s st (Inl No_Memory, st1)" using same_reg_failed [OF g g'(1)] moves_reg [OF g'(2)] unfolding decided_def
      by (auto intro!: exI [of _ "[]"])
    then show ?thesis using 1 False by simp
  next
    case True
    then obtain hs g1 where a: "added tx s c flags sv hs g1 st st1" using m by auto
    note a' = a [unfolded added_def]
    from added_queue [OF g s(1,2) _ f(1) a] s(3,4)
    obtain sv1 x zs where sv1: "service_of g1 s = Some sv1" "s_name sv1 = ?n" "s_owners sv1 = h # x # zs"
      and e: "entry g1 h = entry ?g h" "entry g1 x = wish c flags" "map (entry g1) zs = without c (map (entry ?g) ys)" by metis
    have g1: "reg_ok g1" "holding hs (reg st1) g1" "moves tx hs (reg st1) st st1" using a' by blast+
    have "h \<in> set (s_owners sv1)" "x \<in> set (s_owners sv1)" using sv1(3) by simp_all
    then obtain ow1 xw where ow1: "owner_of g1 h = Some ow1" and xw: "owner_of g1 x = Some xw"
      using reg_ok_owner [OF g1(1) sv1(1)] by metis
    have ow1': "o_conn ow1 = oc" "do_not_queue ow1 = do_not_queue ow"
      using e(1) ow ow1 s(3) by (simp_all add: entry_def Let_def conn_of_def)
    obtain pw where pw: "owner_of (reg st1) h = Some pw" "do_not_queue pw = do_not_queue ow"
      using holding_fields(3) [OF g1(2) ow1] ow1'(2) by auto
    have hs: "hs = [] \<or> (\<exists>x. hs = [Cancel_Ownership s x] \<and> x \<noteq> h)"
      using a' reg_ok_fresh(3) [OF g s(1)] s(2) by (auto split: if_splits)
    have h1: "cancel_hooks (trans st1) tx = hs" using g1(3) hooks by (simp add: moves_def)
    obtain ok2 st2 where 2: "(if do_not_queue ow then bus_service_remove_owner env tx s oc st1 else bus_service_swap_owner env tx s oc st1) = Some (ok2, st2)"
      and m2: "if ok2 then \<exists>f g2. moves tx [Restore_Ownership s h f] (reg st2) st1 st2 \<and>
         commit_reg env (Restore_Ownership s h f # hs) (reg st2) = Some g2 \<and> reg_ok g2 \<and>
         (\<exists>sv2. service_of (reg st2) s = Some sv2 \<and> s_owners sv2 = x # (if do_not_queue ow then zs else h # zs) \<and> s_name sv2 = s_name sv1) \<and>
         (\<forall>y. y \<noteq> h \<longrightarrow> owner_of (reg st2) y = owner_of (reg st1) y) \<and>
         (\<forall>n. queue_of g2 n = (if n = s_name sv1 then map (entry g1) (x # (if do_not_queue ow then zs else h # zs)) else queue_of g1 n))
       else quiet st1 st2"
      using replace_effect [OF g1(1,2) hs h1 sv1(1,3) ow1 ow1'(1), where env = env] unfolding ow1'(2) by blast
    show ?thesis
    proof (cases ok2)
      case F: False
      then have q: "quiet st1 st2" using m2 by simp
      have "moves tx hs (reg st2) st st2" using moves_quiet_trans [OF g1(3) q] quiet_reg [OF q] by simp
      moreover obtain g' where "rollback_reg env hs (reg st1) = Some g'" "request_failed c ?n flags ?g g'"
        using added_failed [OF g s(1) a] by blast
      ultimately have "decided env tx c ?n flags s st (Inl No_Memory, st2)"
        using quiet_reg [OF q] unfolding decided_def by auto
      then show ?thesis using 1 True pw 2 F by simp
    next
      case T: True
      then obtain f2 g2 sv2 where r: "moves tx [Restore_Ownership s h f2] (reg st2) st1 st2"
         "commit_reg env (Restore_Ownership s h f2 # hs) (reg st2) = Some g2" "reg_ok g2"
         "service_of (reg st2) s = Some sv2" "s_owners sv2 = x # (if do_not_queue ow then zs else h # zs)" "s_name sv2 = s_name sv1"
         "\<forall>y. y \<noteq> h \<longrightarrow> owner_of (reg st2) y = owner_of (reg st1) y"
         "\<forall>n. queue_of g2 n = (if n = s_name sv1 then map (entry g1) (x # (if do_not_queue ow then zs else h # zs)) else queue_of g1 n)"
        using m2 by auto
      have "x \<noteq> h" using reg_okD(5) [OF g1(1) sv1(1)] sv1(3) by simp
      moreover obtain xw1 where "owner_of (reg st1) x = Some xw1" "o_conn xw1 = o_conn xw" using holding_fields(3) [OF g1(2) xw] by auto
      ultimately have "bus_service_get_primary_owners_connection (reg st2) s = Some (Some c)"
        using primary_conn [OF r(4,5)] r(7) e(2) xw by (simp add: entry_def wish_def)
      then have run: "do {
          pc \<leftarrow> bus_service_get_primary_owners_connection (reg st2) s;
          assertion env (pc = Some c);
          Some (Inr Primary_Owner, st2)
        } = Some (Inr Primary_Owner :: bus_error + request_reply, st2)" by (simp add: assertion_def)
      have fst: "entry ?g h = (oc, True, do_not_queue ow)" using ow f(2) s(3) by (simp add: entry_def conn_of_def Let_def)
      have "request c flags (queue_of ?g ?n) = (Primary_Owner, queue_of g2 ?n)"
        using s(4) f(1) r(8) e sv1(2) by (simp add: queue_of_service [OF g s(1)] s(2) request_def fst del: map_eq_conv)
      moreover have "queue_of g1 n = queue_of ?g n" if "n \<noteq> ?n" for n using a' that by simp
      ultimately have "request_done c ?n flags ?g Primary_Owner g2"
        using r(3,8) sv1(2) by (simp add: request_done_def)
      moreover have "moves tx (Restore_Ownership s h f2 # hs) (reg st2) st st2" using moves_trans [OF g1(3) r(1)] by simp
      ultimately have "decided env tx c ?n flags s st (Inr Primary_Owner, st2)"
        using r(2,4,6) sv1(2) unfolding decided_def by auto
      then show ?thesis using 1 True pw 2 T run by simp
    qed
  qed
qed

lemma decide_effect:
  assumes g: "reg_ok (reg st)" and s: "service_of (reg st) s = Some sv" "s_owners sv = h # ys" "conn_of (reg st) h = oc"
    and hooks: "cancel_hooks (trans st) tx = []"
  shows "\<exists>r. acquire_decide env tx s h (Some oc) c flags st = Some r \<and> decided env tx c (s_name sv) flags s st r"
proof -
  have "h \<in> set (s_owners sv)" using s(2) by simp
  from reg_ok_owner [OF g s(1) this] obtain ow where ow: "owner_of (reg st) h = Some ow" .
  have may: "bus_service_get_allow_replacement (reg st) s = Some (allow_replacement ow)"
    using s ow by (simp add: bus_service_get_allow_replacement_def owners_def)
  consider (already) "oc = c"
    | (exists) "oc \<noteq> c" "name_flag_do_not_queue flags" "\<not> (allow_replacement ow \<and> name_flag_replace_existing flags)"
    | (queue) "oc \<noteq> c" "\<not> name_flag_do_not_queue flags" "\<not> (allow_replacement ow \<and> name_flag_replace_existing flags)"
    | (replace) "oc \<noteq> c" "allow_replacement ow" "name_flag_replace_existing flags" by blast
  then show ?thesis
  proof cases
    case already
    then show ?thesis using decide_already [OF g s(1,2), where c = c and flags = flags and env = env and tx = tx] s(3) ow may by (auto simp: acquire_decide_def)
  next
    case exists
    then show ?thesis using decide_exists [OF g s(1,2) _ ow exists(2,3), where env = env and tx = tx] s(3) ow may by (auto simp: acquire_decide_def)
  next
    case queue
    then show ?thesis using decide_queue [OF g s(1,2) _ ow queue(2,3), where env = env and tx = tx] s(3) ow may by (auto simp: acquire_decide_def)
  next
    case replace
    then show ?thesis using decide_replace [OF g s(1,2,3) replace(1) ow replace(3,2) hooks, where env = env] ow may by (simp add: acquire_decide_def)
  qed
qed

section \<open>The request\<close>

text \<open>Hooks that only concern pending activations do not touch the registry.\<close>

definition pending_hooks :: "hook list \<Rightarrow> bool" where
  "pending_hooks ps \<longleftrightarrow> (\<forall>h \<in> set ps. \<exists>n es. h = Restore_Pending n es)"

lemma pending_hooks_skip:
  assumes "pending_hooks ps"
  shows "commit_reg env (ps @ hs) g = commit_reg env hs g" "rollback_reg env (ps @ hs) g = rollback_reg env hs g"
proof -
  have "all_hooks (hook_cancel_reg env) (ps @ hs) g = all_hooks (hook_cancel_reg env) hs g \<and>
      commit_reg env (ps @ hs) g = commit_reg env hs g" for g
    using assms by (induction ps) (auto simp: pending_hooks_def hook_cancel_reg_def hook_free_reg_def)
  then show "commit_reg env (ps @ hs) g = commit_reg env hs g" "rollback_reg env (ps @ hs) g = rollback_reg env hs g"
    by simp_all
qed

lemma hushed_auto: "hushed (auto_activation_loop env tx a es)"
proof (induction es)
  case Nil
  then show ?case by (simp add: hushed_def)
next
  case (Cons e es)
  show ?case
    unfolding hushed_def
  proof
    fix st
    obtain r st1 where 1: "bus_dispatch_matches env tx a (Held (e_message e)) st = (r, st1)" by (metis prod.collapse)
    have "quiet st st1" using hushed_quiet [OF hushed_dispatch 1] .
    moreover have later: "quiet st' (snd (auto_activation_loop env tx a es st'))" for st' using Cons by (simp add: hushed_def)
    ultimately have "quiet st (snd (auto_activation_loop env tx a es st1))" using quiet_trans by blast
    then show "quiet st (snd (auto_activation_loop env tx a (e # es) st))"
      using \<open>quiet st st1\<close> later [of st] by (simp add: 1 split: sum.split)
  qed
qed

lemma send_pending_effect:
  assumes s: "service_of (reg st) s = Some sv" "s_owners sv = x # xs" "owner_of (reg st) x = Some ow"
  shows "\<exists>res st1 ps. bus_activation_send_pending_auto_activation_messages env tx s st = Some (res, st1) \<and>
    pending_hooks ps \<and> reg st1 = reg st \<and> cancel_hooks (trans st1) tx = ps @ cancel_hooks (trans st) tx"
proof (cases "pending_activations st (s_name sv)")
  case None
  then show ?thesis using s by (auto simp: bus_activation_send_pending_auto_activation_messages_def pending_hooks_def intro!: exI [of _ "[]"])
next
  case (Some es)
  obtain r st1 where 1: "auto_activation_loop env tx (Some (o_conn ow)) es st = (r, st1)" by (metis prod.collapse)
  note q1 = hushed_quiet [OF hushed_auto 1]
  obtain ok st2 where 2: "add_restore_pending_to_transaction tx (s_name sv) es st1 = (ok, st2)" by (metis prod.collapse)
  have q2: "reg st2 = reg st1 \<and> (\<exists>ps. pending_hooks ps \<and> cancel_hooks (trans st2) tx = ps @ cancel_hooks (trans st1) tx)"
  proof -
    obtain ok1 sta where a: "alloc st1 = (ok1, sta)" by (metis prod.collapse)
    obtain ok2 stb where b: "alloc sta = (ok2, stb)" by (metis prod.collapse)
    have q: "quiet st1 stb" using quiet_trans [OF quiet_alloc [OF a] quiet_alloc [OF b]] .
    have ph: "pending_hooks [Restore_Pending (s_name sv) es]" "pending_hooks []" by (simp_all add: pending_hooks_def)
    show ?thesis
    proof (cases "ok1 \<and> ok2")
      case False
      then have "st2 = (if ok1 then stb else sta)" using 2 a b by (auto simp: add_restore_pending_to_transaction_def)
      then have "quiet st1 st2" using q quiet_alloc [OF a] by simp
      then show ?thesis using ph(2) by (intro conjI exI [of _ "[]"]) (simp_all add: quiet_def)
    next
      case True
      then have "add_cancel_hook tx (Restore_Pending (s_name sv) es) stb = (ok, st2)"
        using 2 a b by (simp add: add_restore_pending_to_transaction_def)
      note h = hook_adds [OF this]
      show ?thesis using h q ph
        by (intro conjI exI [of _ "if ok then [Restore_Pending (s_name sv) es] else []"]) (simp_all add: quiet_def)
    qed
  qed
  have run: "bus_activation_send_pending_auto_activation_messages env tx s st =
      (case r of Inl e \<Rightarrow> Some (Inl e, st1)
       | Inr _ \<Rightarrow> if \<not> ok then Some (Inl No_Memory, st2)
           else Some (Inr (), st2\<lparr>pending_activations := (pending_activations st2)(s_name sv := None)\<rparr>))"
    using s Some 1 2 primary_conn [OF s]
    by (cases r) (simp_all add: bus_activation_send_pending_auto_activation_messages_def)
  show ?thesis
  proof (cases r)
    case (Inl e)
    then show ?thesis using run q1
      by (intro exI [of _ "Inl e"] exI [of _ st1] exI [of _ "[]"]) (simp add: quiet_def pending_hooks_def)
  next
    case (Inr u)
    obtain ps where ps: "pending_hooks ps" "cancel_hooks (trans st2) tx = ps @ cancel_hooks (trans st1) tx" using q2 by blast
    have "reg st2 = reg st" "cancel_hooks (trans st1) = cancel_hooks (trans st)" using q1 q2 by (simp_all add: quiet_def)
    with ps run Inr show ?thesis by (cases ok) simp_all
  qed
qed

text \<open>A connection that is in no queue gets a place in none, and the primary owner is the head.\<close>

lemma hushed_reg: "hushed f \<Longrightarrow> f st = (x, st1) \<Longrightarrow> reg st1 = reg st \<and> cancel_hooks (trans st1) = cancel_hooks (trans st)"
  using hushed_quiet by (fastforce simp: quiet_def)

lemma request_failed_refl: "reg_ok g \<Longrightarrow> request_failed c name flags g g"
  by (simp add: request_failed_def)

definition acquire_outcome :: "bus_env \<Rightarrow> tid \<Rightarrow> cid \<Rightarrow> string \<Rightarrow> 32 word \<Rightarrow> bus \<Rightarrow> (bus_error + request_reply) \<times> bus \<Rightarrow> bool" where
  "acquire_outcome env tx c name flags st r =
     (case r of
        (Inr reply, st1) \<Rightarrow> \<exists>g'. commit_reg env (cancel_hooks (trans st1) tx) (reg st1) = Some g' \<and>
          request_done c name flags (reg st) reply g'
      | (Inl e, st1) \<Rightarrow> \<exists>g'. rollback_reg env (cancel_hooks (trans st1) tx) (reg st1) = Some g' \<and>
          request_failed c name flags (reg st) g')"

lemma acquire_known:
  assumes g: "reg_ok (reg st)" and hooks: "cancel_hooks (trans st) tx = []" and s: "service_hash (reg st) name = Some s"
    and p: "pending_activations st name = None" and ok: "acquire_checks env c name st = None"
  shows "\<exists>r. bus_registry_acquire_service env tx c name flags st = Some r \<and> acquire_outcome env tx c name flags st r"
proof -
  let ?g = "reg st"
  obtain sv where sv: "service_of ?g s = Some sv" "s_name sv = name" using reg_ok_hash [OF g s] by blast
  obtain h ys where hy: "s_owners sv = h # ys" using reg_okD(4) [OF g sv(1)] by (cases "s_owners sv") auto
  have "h \<in> set (s_owners sv)" using hy by simp
  from reg_ok_owner [OF g sv(1) this] obtain ow where ow: "owner_of ?g h = Some ow" .
  have conn: "conn_of ?g h = o_conn ow" using ow by (simp add: conn_of_def)
  obtain res st1 where 1: "acquire_decide env tx s h (Some (o_conn ow)) c flags st = Some (res, st1)"
    and d: "decided env tx c name flags s st (res, st1)"
    using decide_effect [OF g sv(1) hy conn hooks, where env = env and c = c and flags = flags] sv(2) by auto
  have primary: "bus_service_get_primary_owners_connection ?g s = Some (Some (o_conn ow))"
    "bus_service_get_primary_owner ?g s = Some (Some h)"
    using primary_conn [OF sv(1) hy ow] hy sv(1) by (simp_all add: bus_service_get_primary_owner_def owners_def)
  show ?thesis
  proof (cases res)
    case (Inl e)
    then have "bus_registry_acquire_service env tx c name flags st = Some (Inl e, st1)"
      using s ok 1 primary by (simp add: bus_registry_acquire_service_def bus_registry_lookup_def)
    then show ?thesis using d Inl hooks by (auto simp: decided_def acquire_outcome_def moves_def)
  next
    case (Inr reply)
    then obtain hs g' sv1 where r: "moves tx hs (reg st1) st st1" "commit_reg env hs (reg st1) = Some g'"
      "request_done c name flags ?g reply g'" "service_of (reg st1) s = Some sv1" "s_name sv1 = name"
      using d by (auto simp: decided_def)
    have "pending_activations st1 name = None" using r(1) p by (simp add: moves_def)
    then have "bus_activation_send_pending_auto_activation_messages env tx s st1 = Some (Inr (), st1)"
      using r(4,5) by (simp add: bus_activation_send_pending_auto_activation_messages_def)
    then have "bus_registry_acquire_service env tx c name flags st = Some (Inr reply, st1)"
      using s ok 1 primary Inr by (simp add: bus_registry_acquire_service_def bus_registry_lookup_def)
    moreover have "cancel_hooks (trans st1) tx = hs" using r(1) hooks by (simp add: moves_def)
    ultimately show ?thesis using r by (auto simp: acquire_outcome_def)
  qed
qed

lemma acquire_unknown:
  assumes g: "reg_ok (reg st)" and hooks: "cancel_hooks (trans st) tx = []" and s: "service_hash (reg st) name = None"
    and ok: "acquire_checks env c name st = None"
  shows "\<exists>r. bus_registry_acquire_service env tx c name flags st = Some r \<and> acquire_outcome env tx c name flags st r"
proof -
  let ?g = "reg st"
  let ?s = "new_service ?g" and ?x = "new_owner ?g"
  obtain r st1 where 1: "bus_registry_ensure env tx name c flags st = Some (r, st1)"
    and e: "case r of
       None \<Rightarrow> \<exists>hs g'. moves tx hs (reg st1) st st1 \<and> rollback_reg env hs (reg st1) = Some g' \<and> same_reg ?g g'
     | Some t \<Rightarrow> t = ?s \<and> moves tx [Cancel_Ownership ?s ?x] (hold ?s ?x (new_name name c flags ?g)) st st1"
    using ensure_effect [OF g s] by blast
  show ?thesis
  proof (cases r)
    case None
    then have "bus_registry_acquire_service env tx c name flags st = Some (Inl No_Memory, st1)"
      using s ok 1 by (simp add: bus_registry_acquire_service_def bus_registry_lookup_def)
    then show ?thesis using e None hooks same_reg_failed [OF g] by (auto simp: acquire_outcome_def moves_def)
  next
    case (Some t)
    then have t: "t = ?s" and m: "moves tx [Cancel_Ownership ?s ?x] (hold ?s ?x (new_name name c flags ?g)) st st1" using e by auto
    note r1 = moves_reg [OF m]
    let ?ow = "(fresh_owner ?s c flags)\<lparr>o_refs := 2\<rparr>"
    have ow: "owner_of (reg st1) ?x = Some ?ow" "service_of (reg st1) ?s = Some \<lparr>s_refs = 2, s_name = name, s_owners = [?x]\<rparr>"
      by (simp_all add: r1 new_name_simps fresh_owner_def)
    have dec: "acquire_decide env tx ?s ?x None c flags st1 = Some (Inr Primary_Owner, st1)"
      using ow by (simp add: acquire_decide_def bus_service_get_allow_replacement_def owners_def assertion_def fresh_owner_def)
    obtain res st2 ps where 2: "bus_activation_send_pending_auto_activation_messages env tx ?s st1 = Some (res, st2)"
      and p: "pending_hooks ps" "reg st2 = reg st1" "cancel_hooks (trans st2) tx = ps @ cancel_hooks (trans st1) tx"
      using send_pending_effect [OF ow(2) _ ow(1), where env = env and tx = tx] by auto
    have run: "bus_registry_acquire_service env tx c name flags st =
        Some (case res of Inl e \<Rightarrow> Inl e | Inr _ \<Rightarrow> Inr Primary_Owner, st2)"
      using s ok 1 Some t ow dec 2
      by (simp add: bus_registry_acquire_service_def bus_registry_lookup_def bus_service_get_primary_owner_def owners_def)
    have hooks2: "cancel_hooks (trans st2) tx = ps @ [Cancel_Ownership ?s ?x]" using p(3) m hooks by (simp add: moves_def)
    show ?thesis
    proof (cases res)
      case (Inl e)
      have "(new_name name c flags ?g)\<lparr>service_hash := (service_hash ?g)(name \<mapsto> ?s)\<rparr> = new_name name c flags ?g"
        by (rule fields_eq) (simp_all add: new_name_simps)
      note same = this
      have "rollback_reg env (cancel_hooks (trans st2) tx) (reg st2) =
          rollback_reg env [Cancel_Ownership ?s ?x] (hold ?s ?x (new_name name c flags ?g))"
        unfolding hooks2 p(2) r1 pending_hooks_skip(2) [OF p(1)] ..
      then obtain g' where "rollback_reg env (cancel_hooks (trans st2) tx) (reg st2) = Some g'" "same_reg ?g g'"
        using rollback_new_name [OF g s, of "(service_hash ?g)(name \<mapsto> ?s)" env c flags] unfolding same by auto
      then show ?thesis using run Inl same_reg_failed [OF g] by (auto simp: acquire_outcome_def)
    next
      case (Inr u)
      have "commit_reg env (cancel_hooks (trans st2) tx) (reg st2) = Some (new_name name c flags ?g)"
        using commit_new_name [OF g] hooks2 p(1,2) r1 by (simp only: pending_hooks_skip)
      moreover have "queue_of ?g name = []" using s by (simp add: queue_of_def)
      then have "request_done c name flags ?g Primary_Owner (new_name name c flags ?g)"
        using new_name_ok [OF g s] new_name_queue [OF g] by (simp add: request_done_def request_def wish_def)
      ultimately show ?thesis using run Inr by (auto simp: acquire_outcome_def)
    qed
  qed
qed

section \<open>Failures are failures of memory\<close>

text \<open>No step gives memory back to the script, and a step that fails has met a failing allocation. So
  a step run with an empty script succeeds, and a step cannot fail for ever.\<close>

abbreviation script_left :: "bus \<Rightarrow> nat" where
  "script_left st \<equiv> length (mem st)"

definition spent :: "nat \<Rightarrow> bool \<times> bus \<Rightarrow> bool" where
  "spent n r \<longleftrightarrow> script_left (snd r) \<le> n \<and> (\<not> fst r \<longrightarrow> script_left (snd r) < n)"

definition frugal :: "(bus \<Rightarrow> bool \<times> bus) \<Rightarrow> bool" where
  "frugal f \<longleftrightarrow> (\<forall>st. spent (script_left st) (f st))"

definition thrifty :: "nat \<Rightarrow> (bool \<times> bus) option \<Rightarrow> bool" where
  "thrifty n m \<longleftrightarrow> (\<forall>r. m = Some r \<longrightarrow> spent n r)"

lemma frugal_True: "frugal (\<lambda>st. (True, st))"
  by (simp add: frugal_def spent_def)

lemma frugal_alloc: "frugal alloc"
proof -
  have "spent (script_left st) (alloc st)" for st
    by (cases "mem st") (auto simp: alloc_def spent_def)
  then show ?thesis by (simp add: frugal_def)
qed

lemma frugal_send: "frugal (send tx c m)"
proof -
  have le: "malloc r = (ok, r1) \<Longrightarrow> length r1 \<le> length r \<and> (\<not> ok \<longrightarrow> length r1 < length r)" for r ok r1
    by (cases r) auto
  have "spent (script_left st) (send tx c m st)" for st
    unfolding send_def bus_transaction_send_def Let_def spent_def
    by (auto split: prod.split dest!: le)
  then show ?thesis by (simp add: frugal_def)
qed

lemma frugal_add_hook: "frugal (add_cancel_hook tx h)"
proof -
  have le: "malloc r = (ok, r1) \<Longrightarrow> length r1 \<le> length r \<and> (\<not> ok \<longrightarrow> length r1 < length r)" for r ok r1
    by (cases r) auto
  have "spent (script_left st) (add_cancel_hook tx h st)" for st
    unfolding add_cancel_hook_def bus_transaction_add_cancel_hook_def Let_def spent_def
    by (auto split: prod.split dest!: le)
  then show ?thesis by (simp add: frugal_def)
qed

lemma frugal_step: "frugal f \<Longrightarrow> f st = (ok, st1) \<Longrightarrow> spent (script_left st) (ok, st1)"
  by (metis frugal_def)

lemma frugal_seq:
  assumes "frugal f" "frugal g"
  shows "frugal (\<lambda>st. let (ok, st) = f st in if \<not> ok then (False, st) else g st)"
proof -
  have "spent (script_left st) (let (ok, st) = f st in if \<not> ok then (False, st) else g st)" for st
  proof (cases "f st")
    case (Pair ok st1)
    then have "spent (script_left st) (ok, st1)" "spent (script_left st1) (g st1)" using assms by (auto simp: frugal_def) (metis)
    with Pair show ?thesis by (auto simp: spent_def)
  qed
  then show ?thesis by (simp add: frugal_def)
qed

lemma frugal_if: "frugal f \<Longrightarrow> frugal g \<Longrightarrow> frugal (\<lambda>st. if b st then f st else g st)"
  by (simp add: frugal_def)

lemmas frugal_intros = frugal_seq frugal_if frugal_True frugal_alloc frugal_send

lemma frugal_from_driver: "frugal (bus_transaction_send_from_driver env tx c m)"
  unfolding bus_transaction_send_from_driver_def by (intro frugal_intros)

lemma frugal_driver_signal: "frugal (driver_signal env tx c m)"
  unfolding driver_signal_def by (intro frugal_intros frugal_from_driver)

lemma frugal_lost: "frugal (bus_driver_send_service_lost env tx c n)"
  and frugal_acquired: "frugal (bus_driver_send_service_acquired env tx c n)"
  unfolding bus_driver_send_service_lost_def bus_driver_send_service_acquired_def
  by (rule frugal_driver_signal)+

lemma frugal_dispatch_loop: "frugal (dispatch_loop env tx m cs)"
proof (induction cs)
  case Nil
  then show ?case using frugal_True by simp
next
  case (Cons c cs)
  have "dispatch_loop env tx m (c # cs) =
      (\<lambda>st. let (ok, st) = send_one_message env tx c m st in
        if \<not> ok then (False, st) else dispatch_loop env tx m cs st)"
    by (simp add: fun_eq_iff)
  moreover have "frugal (send_one_message env tx c m)"
    unfolding send_one_message_def by (intro frugal_intros)
  ultimately show ?case using Cons frugal_seq by simp
qed

lemma frugal_owner_changed: "frugal (bus_driver_send_service_owner_changed env tx n old new)"
proof -
  let ?m = "NameOwnerChanged n old new"
  have "(\<lambda>st. let (res, st) = bus_dispatch_matches env tx None ?m st in (res = Inr (), st)) =
      (\<lambda>st. let (ok, st) = alloc st in if \<not> ok then (False, st)
        else let (ok, st) = dispatch_loop env tx ?m (recipients env ?m) st in if \<not> ok then (False, st) else (True, st))"
    by (auto simp: fun_eq_iff bus_dispatch_matches_def dispatch_addressed_def split: prod.split)
  then have "frugal (\<lambda>st. let (res, st) = bus_dispatch_matches env tx None ?m st in (res = Inr (), st))"
    by (simp only:) (intro frugal_intros frugal_dispatch_loop)
  then show ?thesis unfolding bus_driver_send_service_owner_changed_def
    by (intro frugal_seq frugal_alloc)
qed

lemma frugal_created: "frugal (bus_activation_service_created env tx n)"
proof -
  have loop: "frugal (service_created_loop env tx es)" for es
  proof (induction es)
    case Nil
    then show ?case using frugal_True by simp
  next
    case (Cons e es)
    show ?case
      unfolding service_created_loop.simps [abs_def]
      by (intro frugal_intros frugal_from_driver Cons)
  qed
  then show ?thesis
    by (auto simp: frugal_def spent_def bus_activation_service_created_def split: option.split)
qed

lemma frugal_reply: "frugal (send_reply env tx c m)"
  unfolding send_reply_def by (intro frugal_intros frugal_from_driver)

lemma thrifty_Some [simp]: "thrifty n (Some r) = spent n r" and thrifty_None [simp]: "thrifty n None"
  by (simp_all add: thrifty_def)

lemma thrifty_if: "(b \<Longrightarrow> thrifty n x) \<Longrightarrow> (\<not> b \<Longrightarrow> thrifty n y) \<Longrightarrow> thrifty n (if b then x else y)"
  by simp

lemma thrifty_read: "(\<And>x. thrifty n (k x)) \<Longrightarrow> thrifty n (m \<bind> k)"
  by (cases m) simp_all

lemma thrifty_on_reg:
  assumes "\<And>st1. mem st1 = mem st \<Longrightarrow> thrifty n (k st1)"
  shows "thrifty n (on_reg f st \<bind> k)"
  using assms by (cases "f (reg st)") (simp_all add: on_reg_def)

lemma thrifty_on_reg_if:
  assumes "\<And>st1. mem st1 = mem st \<Longrightarrow> thrifty n (k st1)"
  shows "thrifty n ((if b then on_reg f st else Some st) \<bind> k)"
  using assms by (cases b) (simp_all add: thrifty_on_reg)

lemma thrifty_option: "(\<And>x. thrifty n (f x)) \<Longrightarrow> thrifty n (case_option None f m)"
  by (cases m) simp_all

lemma thrifty_let:
  assumes "frugal f" "\<And>ok st1. spent (script_left st) (ok, st1) \<Longrightarrow> thrifty n (k ok st1)"
  shows "thrifty n (let (ok, st1) = f st in k ok st1)"
  using assms frugal_step by (cases "f st") auto

lemma thrifty_bind:
  assumes "thrifty (script_left st) m" "\<And>ok st1. spent (script_left st) (ok, st1) \<Longrightarrow> thrifty n (k (ok, st1))"
  shows "thrifty n (m \<bind> k)"
  using assms by (cases m) auto

lemma thrifty_mono: "thrifty m x \<Longrightarrow> m \<le> n \<Longrightarrow> thrifty n x"
  by (fastforce simp: thrifty_def spent_def)

lemma spent_ok: "spent n (True, st) \<Longrightarrow> script_left st \<le> n" and spent_failed: "spent n (False, st) \<Longrightarrow> script_left st < n"
  by (simp_all add: spent_def)

lemma thrifty_add_cancel: "thrifty (script_left st) (add_cancel_ownership_to_transaction tx s x st)"
  unfolding add_cancel_ownership_to_transaction_def
  by (intro thrifty_let [OF frugal_alloc] thrifty_let [OF frugal_add_hook] thrifty_if thrifty_on_reg) (auto simp: spent_def)

lemma thrifty_notify: "thrifty (script_left st) (notify_next_owner env tx c sv x st)"
  unfolding notify_next_owner_def
proof (rule thrifty_read, rule thrifty_let [OF frugal_owner_changed], rule thrifty_if)
  fix ow ok st1
  assume a: "spent (script_left st) (ok, st1)"
  show "thrifty (script_left st) (Some (False, st1))" if "\<not> ok" using a that by simp
  show "thrifty (script_left st) (Some (bus_driver_send_service_acquired env tx (o_conn ow) (s_name sv) st1))" if "\<not> \<not> ok"
    using a that frugal_acquired [of env tx "o_conn ow" "s_name sv"]
    by (auto simp: frugal_def spent_def intro: order_trans less_le_trans)
qed

lemma thrifty_add_restore: "thrifty (script_left st) (add_restore_ownership_to_transaction env tx s x st)"
proof -
  obtain ok0 st0 where 0: "alloc st = (ok0, st0)" by (metis prod.collapse)
  obtain ok1 st1 where 1: "alloc st0 = (ok1, st1)" by (metis prod.collapse)
  obtain ok2 st2 where 2: "alloc st1 = (ok2, st2)" by (metis prod.collapse)
  obtain ok3 st3 where 3: "alloc st2 = (ok3, st3)" by (metis prod.collapse)
  note s = frugal_step [OF frugal_alloc 0] frugal_step [OF frugal_alloc 1] frugal_step [OF frugal_alloc 2]
    frugal_step [OF frugal_alloc 3]
  show ?thesis
    unfolding add_restore_ownership_to_transaction_def 0 Let_def 1 2 3 prod.case
  proof (rule thrifty_if, goal_cases)
    case 1
    then show ?case using s by simp
  next
    case 2
    show ?case
    proof (intro thrifty_on_reg thrifty_read)
      fix sta stb :: bus and xs assume m: "mem sta = mem st3" "mem stb = mem sta"
      obtain ok4 st4 where 4: "(if ok1 \<and> ok2 \<and> ok3 then add_cancel_hook tx (Restore_Ownership s x (owner_after x xs)) stb
          else (False, stb)) = (ok4, st4)" by (metis prod.collapse)
      have "spent (script_left st) (ok4, st4)"
        using 4 s m frugal_step [OF frugal_add_hook, of tx "Restore_Ownership s x (owner_after x xs)" stb ok4 st4]
        by (auto simp: spent_def split: if_splits)
      then show "thrifty (script_left st)
           (case if ok1 \<and> ok2 \<and> ok3 then add_cancel_hook tx (Restore_Ownership s x (owner_after x xs)) stb else (False, stb) of
             (ok, st) \<Rightarrow>
               if \<not> ok then on_reg (free_ownership_restore_data env s x) st \<bind> (\<lambda>st. Some (False, st))
               else Some (True, st))"
        unfolding 4 prod.case by (intro thrifty_if thrifty_on_reg) (auto simp: spent_def)
    qed
  qed
qed

lemma thrifty_swap: "thrifty (script_left st) (bus_service_swap_owner env tx s c st)"
proof -
  have "thrifty (script_left st) (bus_service_swap_owner env tx s c st)" if "service_of (reg st) s = Some sv" for sv
  proof (cases "\<exists>x y rest. s_owners sv = x # y # rest")
    case True
    then obtain x y rest where o: "s_owners sv = x # y # rest" by blast
    show ?thesis
      unfolding bus_service_swap_owner_def that bind.bind_lunit o list.case
      by (intro thrifty_let [OF frugal_lost] thrifty_bind [OF thrifty_notify] thrifty_bind [OF thrifty_add_restore]
          thrifty_on_reg thrifty_if | simp only: prod.case | rule thrifty_read | fastforce simp: spent_def)+
  next
    case False
    then show ?thesis using that by (auto simp: bus_service_swap_owner_def split: list.split)
  qed
  then show ?thesis by (cases "service_of (reg st) s") (simp_all add: bus_service_swap_owner_def)
qed

lemma thrifty_remove: "thrifty (script_left st) (bus_service_remove_owner env tx s c st)"
proof -
  have notify: "thrifty (script_left st) (case s_owners sv of
      x # y # _ \<Rightarrow> notify_next_owner env tx c sv y st
    | _ \<Rightarrow> Some (bus_driver_send_service_owner_changed env tx (s_name sv) (unique_name st c) None st))" for sv st
    using frugal_owner_changed [of env tx "s_name sv" "unique_name st c" None]
    by (auto simp: thrifty_notify frugal_def split: list.split)
  show ?thesis
    unfolding bus_service_remove_owner_def Let_def [of "hd _"]
    by (rule thrifty_read, rule thrifty_read, rule thrifty_if,
        (intro thrifty_let [OF frugal_lost] thrifty_bind [OF notify] thrifty_bind [OF thrifty_add_restore]
          thrifty_on_reg thrifty_on_reg_if thrifty_if thrifty_option | simp only: prod.case | rule thrifty_read | fastforce simp: spent_def)+)
qed

definition idle :: "tid \<Rightarrow> bus \<Rightarrow> bool" where
  "idle tx st \<longleftrightarrow> reg_ok (reg st) \<and> cancel_hooks (trans st) tx = []"

lemma acquire_effect:
  assumes "idle tx st" "pending_activations st name = None \<or> service_hash (reg st) name = None"
  shows "\<exists>r. bus_registry_acquire_service env tx c name flags st = Some r \<and> acquire_outcome env tx c name flags st r"
proof (cases "acquire_checks env c name st")
  case (Some e)
  then show ?thesis using assms(1)
    by (auto simp: bus_registry_acquire_service_def acquire_outcome_def idle_def request_failed_refl)
next
  case None
  then show ?thesis
    using assms acquire_known [of st tx name _ env c flags] acquire_unknown [of st tx name env c flags]
    unfolding idle_def by (cases "service_hash (reg st) name") auto
qed

lemma acquire_service_done:
  assumes "idle tx st" "pending_activations st name = None \<or> service_hash (reg st) name = None"
  shows "\<exists>res st1 st2. bus_registry_acquire_service env tx c name flags st = Some (res, st1) \<and>
    (case res of
       Inr reply \<Rightarrow> bus_transaction_execute_and_free env tx st1 = Some st2 \<and> idle tx st2 \<and>
         request_done c name flags (reg st) reply (reg st2)
     | Inl e \<Rightarrow> bus_transaction_cancel_and_free env tx st1 = Some st2 \<and> idle tx st2 \<and>
         request_failed c name flags (reg st) (reg st2))"
proof -
  obtain res st1 where 1: "bus_registry_acquire_service env tx c name flags st = Some (res, st1)"
    and o: "acquire_outcome env tx c name flags st (res, st1)"
    using acquire_effect [OF assms, of env c flags] by auto
  show ?thesis
  proof (cases res)
    case (Inl e)
    with o obtain g' where g': "rollback_reg env (cancel_hooks (trans st1) tx) (reg st1) = Some g'"
      "request_failed c name flags (reg st) g'" by (auto simp: acquire_outcome_def)
    obtain st2 where 2: "bus_transaction_cancel_and_free env tx st1 = Some st2" "reg st2 = g'"
      "cancel_hooks (trans st2) tx = []" using rollback_effect [OF refl g'(1)] by auto
    have "request_failed c name flags (reg st) (reg st2)" "reg_ok (reg st2)"
      using g'(2) unfolding 2(2) request_failed_def by blast+
    with 1 2(1,3) Inl show ?thesis
      by (intro exI [of _ res] exI [of _ st1] exI [of _ st2]) (simp add: idle_def)
  next
    case (Inr reply)
    with o obtain g' where g': "commit_reg env (cancel_hooks (trans st1) tx) (reg st1) = Some g'"
      "request_done c name flags (reg st) reply g'" by (auto simp: acquire_outcome_def)
    obtain st2 where 2: "bus_transaction_execute_and_free env tx st1 = Some st2" "reg st2 = g'"
      "cancel_hooks (trans st2) tx = []" using commit_effect [OF refl g'(1)] by auto
    have "request_done c name flags (reg st) reply (reg st2)" "reg_ok (reg st2)"
      using g'(2) unfolding 2(2) request_done_def by blast+
    with 1 2(1,3) Inr show ?thesis
      by (intro exI [of _ res] exI [of _ st1] exI [of _ st2]) (simp add: idle_def)
  qed
qed

lemma has_owner:
  assumes g: "reg_ok g" and s: "service_of g s = Some sv"
  shows "bus_service_has_owner g s c = Some (c \<in> conn_of g ` set (s_owners sv))"
proof -
  have "find_owner g c (s_owners sv) = Some (find (\<lambda>x. conn_of g x = c) (s_owners sv))"
    using reg_ok_alive [OF g s] by (intro find_owner_find) blast
  moreover have "find (\<lambda>x. conn_of g x = c) (s_owners sv) \<noteq> None \<longleftrightarrow> c \<in> conn_of g ` set (s_owners sv)"
    by (simp add: find_None_conn)
  ultimately show ?thesis using s by (simp add: bus_service_has_owner_def bus_service_find_owner_link_def)
qed

lemma release_service_done:
  assumes "idle tx st"
  shows "\<exists>res st1 st2. bus_registry_release_service env tx c name st = Some (res, st1) \<and>
    (case res of
       Inr reply \<Rightarrow> bus_transaction_execute_and_free env tx st1 = Some st2 \<and> idle tx st2 \<and>
         release c (queue_of (reg st) name) = (reply, queue_of (reg st2) name) \<and>
         (\<forall>n. n \<noteq> name \<longrightarrow> queue_of (reg st2) n = queue_of (reg st) n)
     | Inl e \<Rightarrow> bus_transaction_cancel_and_free env tx st1 = Some st2 \<and> idle tx st2 \<and>
         (\<forall>n. queue_of (reg st2) n = queue_of (reg st) n))"
proof -
  let ?g = "reg st"
  have g: "reg_ok ?g" and hooks: "cancel_hooks (trans st) tx = []" using assms by (simp_all add: idle_def)
  have same: "\<exists>st2. bus_transaction_execute_and_free env tx st1 = Some st2 \<and> reg st2 = ?g \<and> idle tx st2"
    "\<exists>st2. bus_transaction_cancel_and_free env tx st1 = Some st2 \<and> reg st2 = ?g \<and> idle tx st2" if "quiet st st1" for st1
    using commit_effect [of st1 tx "[]" env ?g] rollback_effect [of st1 tx "[]" env ?g] that assms
    by (auto simp: quiet_def idle_def)
  note same0 = same [OF quiet_refl]
  show ?thesis
  proof (cases "release_checks name")
    case (Some e)
    obtain st2 where "bus_transaction_cancel_and_free env tx st = Some st2" "reg st2 = ?g" "idle tx st2" using same0(2) by blast
    with Some show ?thesis
      by (intro exI [of _ "Inl e"] exI [of _ st] exI [of _ st2]) (simp add: bus_registry_release_service_def)
  next
    case ok: None
    show ?thesis
    proof (cases "service_hash ?g name")
      case None
      then have "release c (queue_of ?g name) = (Non_Existent, queue_of ?g name)" by (simp add: queue_of_def release_def)
      moreover obtain st2 where "bus_transaction_execute_and_free env tx st = Some st2" "reg st2 = ?g" "idle tx st2" using same0(1) by blast
      ultimately show ?thesis using ok None
        by (intro exI [of _ "Inr Non_Existent"] exI [of _ st] exI [of _ st2])
          (simp add: bus_registry_release_service_def bus_registry_lookup_def)
    next
      case (Some s)
      obtain sv where sv: "service_of ?g s = Some sv" "s_name sv = name" using reg_ok_hash [OF g Some] by blast
      have q: "queue_of ?g name = map (entry ?g) (s_owners sv)" using queue_of_service [OF g sv(1)] sv(2) by simp
      have ne: "queue_of ?g name \<noteq> []" using q reg_okD(4) [OF g sv(1)] by simp
      have mem: "c \<in> fst ` set (queue_of ?g name) \<longleftrightarrow> c \<in> conn_of ?g ` set (s_owners sv)" unfolding q queue_conns ..
      show ?thesis
      proof (cases "c \<in> conn_of ?g ` set (s_owners sv)")
        case False
        then have "release c (queue_of ?g name) = (Not_Owner, queue_of ?g name)" using ne mem by (simp add: release_def)
        moreover have "bus_registry_release_service env tx c name st = Some (Inr Not_Owner, st)"
          using ok Some has_owner [OF g sv(1), of c] False by (simp add: bus_registry_release_service_def bus_registry_lookup_def)
        moreover obtain st2 where "bus_transaction_execute_and_free env tx st = Some st2" "reg st2 = ?g" "idle tx st2" using same0(1) by blast
        ultimately show ?thesis by (intro exI [of _ "Inr Not_Owner"] exI [of _ st] exI [of _ st2]) simp
      next
        case True
        then have r: "release c (queue_of ?g name) = (Released, without c (queue_of ?g name))" using ne mem by (simp add: release_def)
        obtain okr st1 where 1: "bus_service_remove_owner env tx s c st = Some (okr, st1)"
          and m: "if okr then \<exists>hs g'. moves tx hs (reg st1) st st1 \<and> commit_reg env hs (reg st1) = Some g' \<and>
               reg_ok g' \<and> (\<forall>n. queue_of g' n = (if n = s_name sv then without c (queue_of (reg st) n) else queue_of (reg st) n)) \<and>
               (\<forall>d. set (services_owned g' d) = (if d = c then set (services_owned (reg st) d) - {s} else set (services_owned (reg st) d)))
           else quiet st st1"
          using remove_owner_effect [OF g hooks sv(1) True, of env] by blast
        have run: "bus_registry_release_service env tx c name st = Some (if \<not> okr then Inl No_Memory else Inr Released, st1)"
          using ok Some has_owner [OF g sv(1), of c] True 1
          by (simp add: bus_registry_release_service_def bus_registry_lookup_def)
        show ?thesis
        proof (cases okr)
          case F: False
          then have "quiet st st1" using m by simp
          from same(2) [OF this] obtain st2 where "bus_transaction_cancel_and_free env tx st1 = Some st2" "reg st2 = ?g" "idle tx st2" by blast
          with run F show ?thesis by (intro exI [of _ "Inl No_Memory"] exI [of _ st1] exI [of _ st2]) simp
        next
          case T: True
          then obtain hs g' where h: "moves tx hs (reg st1) st st1" "commit_reg env hs (reg st1) = Some g'" "reg_ok g'"
            "\<forall>n. queue_of g' n = (if n = s_name sv then without c (queue_of (reg st) n) else queue_of (reg st) n)"
            using m by auto
          have "cancel_hooks (trans st1) tx = hs" using h(1) hooks by (simp add: moves_def)
          from commit_effect [OF this h(2)] obtain st2 where "bus_transaction_execute_and_free env tx st1 = Some st2"
            "reg st2 = g'" "cancel_hooks (trans st2) tx = []" by auto
          then show ?thesis using run T h(3,4) r sv(2)
            by (intro exI [of _ "Inr Released"] exI [of _ st1] exI [of _ st2]) (simp add: idle_def)
        qed
      qed
    qed
  qed
qed

lemma without_without [simp]: "without c (without c q) = without c q"
  by (simp add: without_def)

lemma owns_nothing:
  assumes g: "reg_ok g" and "services_owned g c = []"
  shows "without c (queue_of g n) = queue_of g n"
proof (cases "service_hash g n")
  case (Some s)
  obtain sv where sv: "service_of g s = Some sv" "s_name sv = n" using reg_ok_hash [OF g Some] by blast
  have "conn_of g x \<noteq> c" if "x \<in> set (s_owners sv)" for x
  proof
    assume "conn_of g x = c"
    from reg_ok_owner [OF g sv(1) that] obtain ow where "owner_of g x = Some ow" "o_service ow = s" .
    with \<open>conn_of g x = c\<close> have "s \<in> set (services_owned g c)"
      using reg_ok_counts(3) [OF g] by (auto simp: conn_of_def)
    with assms(2) show False by simp
  qed
  then have "c \<notin> conn_of g ` set (s_owners sv)" by blast
  then show ?thesis using without_absent queue_of_service [OF g sv(1)] sv(2) by simp
qed (simp add: queue_of_def without_def)

lemma idle_end:
  assumes "reg_ok g" "reg st2 = g" "cancel_hooks (trans st2) tx = []"
  shows "idle tx st2"
  using assms by (simp add: idle_def)

text \<open>One round of the loop that drops the names of a connection.\<close>

lemma drop_round:
  assumes "idle tx st" and ne: "services_owned (reg st) c \<noteq> []" and a: "alloc st = (True, st1)"
  shows "\<exists>ok st2 st3. bus_service_remove_owner env tx (last (services_owned (reg st1) c)) c st1 = Some (ok, st2) \<and>
    (if ok then bus_transaction_execute_and_free env tx st2 else bus_transaction_cancel_and_free env tx st2) = Some st3 \<and>
    idle tx st3 \<and> (\<forall>n. queue_of (reg st3) n = queue_of (reg st) n \<or> queue_of (reg st3) n = without c (queue_of (reg st) n)) \<and>
    script_left st3 + length (services_owned (reg st3) c) < script_left st + length (services_owned (reg st) c)"
proof -
  have q: "quiet st st1" using quiet_alloc [OF a] .
  have r: "reg st1 = reg st" "cancel_hooks (trans st1) tx = []" and g: "reg_ok (reg st)"
    using q assms(1) by (simp_all add: quiet_def idle_def)
  let ?s = "last (services_owned (reg st) c)"
  have in_owned: "?s \<in> set (services_owned (reg st) c)" using ne by simp
  then obtain x ow where x: "owner_of (reg st) x = Some ow" "o_conn ow = c" "o_service ow = ?s"
    using reg_ok_counts(3) [OF g] by blast
  obtain sv where sv: "service_of (reg st) ?s = Some sv" "x \<in> set (s_owners sv)"
    using reg_ok_in_queue [OF g x(1)] x(3) by auto
  have cq: "c \<in> conn_of (reg st) ` set (s_owners sv)" using x sv(2) by (auto simp: conn_of_def intro!: image_eqI [of _ _ x])
  obtain ok st2 where 2: "bus_service_remove_owner env tx ?s c st1 = Some (ok, st2)"
    and m: "if ok then \<exists>hs g'. moves tx hs (reg st2) st1 st2 \<and> commit_reg env hs (reg st2) = Some g' \<and>
         reg_ok g' \<and> (\<forall>n. queue_of g' n = (if n = s_name sv then without c (queue_of (reg st) n) else queue_of (reg st) n)) \<and>
         (\<forall>d. set (services_owned g' d) = (if d = c then set (services_owned (reg st) d) - {?s} else set (services_owned (reg st) d)))
     else quiet st1 st2"
    using remove_owner_effect [of st1 tx ?s sv c env, unfolded r(1), OF g r(2) sv(1) cq] by blast
  have left: "script_left st1 \<le> script_left st" "spent (script_left st1) (ok, st2)"
    using frugal_step [OF frugal_alloc a] thrifty_remove [of st1 env tx ?s c] 2 by (simp_all add: spent_def thrifty_def)
  show ?thesis
  proof (cases ok)
    case False
    then have q2: "quiet st1 st2" using m by simp
    then have "cancel_hooks (trans st2) tx = []" "reg st2 = reg st" using r by (simp_all add: quiet_def)
    then obtain st3 where 3: "bus_transaction_cancel_and_free env tx st2 = Some st3" "reg st3 = reg st" "mem st3 = mem st2"
      "cancel_hooks (trans st3) tx = []" using rollback_effect [of st2 tx "[]" env "reg st"] by auto
    have "script_left st3 < script_left st" using left 3(3) False by (simp add: spent_def)
    then show ?thesis using 2 3 False r idle_end [OF g 3(2,4)]
      by (intro exI [of _ False] exI [of _ st2] exI [of _ st3]) simp
  next
    case True
    then obtain hs g' where h: "moves tx hs (reg st2) st1 st2" "commit_reg env hs (reg st2) = Some g'" "reg_ok g'"
      "\<forall>n. queue_of g' n = (if n = s_name sv then without c (queue_of (reg st) n) else queue_of (reg st) n)"
      "\<forall>d. set (services_owned g' d) = (if d = c then set (services_owned (reg st) d) - {?s} else set (services_owned (reg st) d))"
      using m by auto
    have "cancel_hooks (trans st2) tx = hs" using h(1) r(2) by (simp add: moves_def)
    from commit_effect [OF this h(2)] obtain st3 where 3: "bus_transaction_execute_and_free env tx st2 = Some st3"
      "reg st3 = g'" "cancel_hooks (trans st3) tx = []" "mem st3 = mem st2" by auto
    have "set (services_owned g' c) \<subset> set (services_owned (reg st) c)" using h(5) in_owned by auto
    then have "card (set (services_owned g' c)) < card (set (services_owned (reg st) c))" by (intro psubset_card_mono) simp_all
    then have "length (services_owned (reg st3) c) < length (services_owned (reg st) c)"
      using reg_ok_counts(1) [OF h(3)] reg_ok_counts(1) [OF g] 3(2) by (simp add: distinct_card)
    moreover have "script_left st3 \<le> script_left st" using left 3(4) by (simp add: spent_def)
    ultimately show ?thesis using 2 3 True r(1) idle_end [OF h(3) 3(2,3)] h(4)
      by (intro exI [of _ True] exI [of _ st2] exI [of _ st3]) simp
  qed
qed

lemma drop_names_done:
  assumes "idle tx st"
  shows "\<exists>st'. drop_names env tx c st = Some st' \<and> idle tx st' \<and> services_owned (reg st') c = [] \<and>
    (\<forall>n. queue_of (reg st') n = without c (queue_of (reg st) n))"
  using assms
proof (induction "script_left st + length (services_owned (reg st) c)" arbitrary: st rule: less_induct)
  case less
  have g: "reg_ok (reg st)" using less.prems by (simp add: idle_def)
  show ?case
  proof (cases "services_owned (reg st) c = []")
    case True
    then show ?thesis using less.prems owns_nothing [OF g True] by (subst drop_names.simps) simp
  next
    case ne: False
    obtain ok st1 where 1: "alloc st = (ok, st1)" by (metis prod.collapse)
    note q = quiet_alloc [OF 1]
    show ?thesis
    proof (cases ok)
      case False
      have "script_left st1 < script_left st" using frugal_step [OF frugal_alloc 1] False by (simp add: spent_def)
      then have "\<exists>st'. drop_names env tx c st1 = Some st' \<and> idle tx st' \<and> services_owned (reg st') c = [] \<and>
          (\<forall>n. queue_of (reg st') n = without c (queue_of (reg st1) n))"
        using q less.prems by (intro less.hyps) (simp_all add: quiet_def idle_def)
      then show ?thesis using q ne 1 False by (subst drop_names.simps) (simp add: quiet_def)
    next
      case True
      then have "ok = True" by simp
      note True_eq = this
      obtain ok2 st2 st3 where r: "bus_service_remove_owner env tx (last (services_owned (reg st1) c)) c st1 = Some (ok2, st2)"
        "(if ok2 then bus_transaction_execute_and_free env tx st2 else bus_transaction_cancel_and_free env tx st2) = Some st3"
        "idle tx st3" "\<forall>n. queue_of (reg st3) n = queue_of (reg st) n \<or> queue_of (reg st3) n = without c (queue_of (reg st) n)"
        "script_left st3 + length (services_owned (reg st3) c) < script_left st + length (services_owned (reg st) c)"
        using drop_round [OF less.prems ne 1 [unfolded True_eq], of env] by blast
      have step: "drop_names env tx c st = drop_names env tx c st3"
        using ne 1 True r(1,2) by (subst drop_names.simps) (cases ok2; simp)
      from less.hyps [OF r(5,3)] obtain st' where st': "drop_names env tx c st3 = Some st'" "idle tx st'"
        "services_owned (reg st') c = []" "\<forall>n. queue_of (reg st') n = without c (queue_of (reg st3) n)" by blast
      have "without c (queue_of (reg st3) n) = without c (queue_of (reg st) n)" for n
        using r(4) by (metis without_without)
      then show ?thesis using st' step by simp
    qed
  qed
qed

section \<open>Runs of the daemon\<close>

text \<open>What the daemon does with names, one transaction after the other: a request or a release whose
  transaction is executed when the registry answered and cancelled when it failed, a
  disconnection, and what happens in between (memory gets scarce or free again, activations of
  names nobody owns start and end, clients appear and get their unique names).\<close>

inductive bus_run :: "bus_env \<Rightarrow> tid \<Rightarrow> bus \<Rightarrow> bool" for env tx where
  bus_start: "reg st = \<lparr>owner_of = (\<lambda>x. None), service_of = (\<lambda>s. None), service_hash = (\<lambda>n. None),
      services_owned = (\<lambda>c. []), n_services_owned = (\<lambda>c. 0), new_owner = 0, new_service = 0\<rparr> \<Longrightarrow>
    cancel_hooks (trans st) tx = [] \<Longrightarrow> bus_run env tx st"
| bus_acquire: "bus_run env tx st \<Longrightarrow> pending_activations st name = None \<or> service_hash (reg st) name = None \<Longrightarrow>
    bus_registry_acquire_service env tx c name flags st = Some (Inr reply, st1) \<Longrightarrow>
    bus_transaction_execute_and_free env tx st1 = Some st2 \<Longrightarrow> bus_run env tx st2"
| bus_acquire_failed: "bus_run env tx st \<Longrightarrow> pending_activations st name = None \<or> service_hash (reg st) name = None \<Longrightarrow>
    bus_registry_acquire_service env tx c name flags st = Some (Inl e, st1) \<Longrightarrow>
    bus_transaction_cancel_and_free env tx st1 = Some st2 \<Longrightarrow> bus_run env tx st2"
| bus_release: "bus_run env tx st \<Longrightarrow> bus_registry_release_service env tx c name st = Some (Inr answer, st1) \<Longrightarrow>
    bus_transaction_execute_and_free env tx st1 = Some st2 \<Longrightarrow> bus_run env tx st2"
| bus_release_failed: "bus_run env tx st \<Longrightarrow> bus_registry_release_service env tx c name st = Some (Inl e, st1) \<Longrightarrow>
    bus_transaction_cancel_and_free env tx st1 = Some st2 \<Longrightarrow> bus_run env tx st2"
| bus_disconnect: "bus_run env tx st \<Longrightarrow> drop_names env tx c st = Some st1 \<Longrightarrow> bus_run env tx st1"
| bus_other: "bus_run env tx st \<Longrightarrow> reg st1 = reg st \<Longrightarrow> cancel_hooks (trans st1) tx = cancel_hooks (trans st) tx \<Longrightarrow>
    bus_run env tx st1"

definition waits_for :: "registry \<Rightarrow> cid \<Rightarrow> string set" where
  "waits_for g c = {n. c \<in> fst ` set (queue_of g n)}"

lemma count_names:
  assumes g: "reg_ok g"
  shows "finite (waits_for g c)" "n_services_owned g c = int (card (waits_for g c))"
proof -
  let ?S = "set (services_owned g c)" and ?name = "\<lambda>s. s_name (the (service_of g s))"
  have S: "\<exists>sv x. service_of g s = Some sv \<and> x \<in> set (s_owners sv) \<and> conn_of g x = c" if "s \<in> ?S" for s
  proof -
    from that obtain x ow where x: "owner_of g x = Some ow" "o_conn ow = c" "o_service ow = s"
      using reg_ok_counts(3) [OF g] by blast
    obtain sv where "service_of g s = Some sv" "x \<in> set (s_owners sv)" using reg_ok_in_queue [OF g x(1)] x(3) by auto
    with x show ?thesis by (auto simp: conn_of_def)
  qed
  have inj: "inj_on ?name ?S"
  proof (rule inj_onI)
    fix s t assume a: "s \<in> ?S" "t \<in> ?S" "?name s = ?name t"
    obtain sv where sv: "service_of g s = Some sv" using S [OF a(1)] by blast
    obtain tv where tv: "service_of g t = Some tv" using S [OF a(2)] by blast
    show "s = t" using reg_okD(1) [OF g sv] reg_okD(1) [OF g tv] a(3) sv tv by simp
  qed
  have img: "?name ` ?S = waits_for g c"
  proof (intro equalityI subsetI)
    fix n assume "n \<in> ?name ` ?S"
    then obtain s where s: "s \<in> ?S" "n = ?name s" by blast
    obtain sv x where sv: "service_of g s = Some sv" "x \<in> set (s_owners sv)" "conn_of g x = c" using S [OF s(1)] by blast
    have "c \<in> conn_of g ` set (s_owners sv)" using sv(2,3) by blast
    then show "n \<in> waits_for g c"
      using queue_of_service [OF g sv(1)] s(2) sv(1) unfolding waits_for_def by (simp add: queue_conns del: set_map)
  next
    fix n assume n: "n \<in> waits_for g c"
    then obtain s where s: "service_hash g n = Some s"
      by (cases "service_hash g n") (auto simp: waits_for_def queue_of_def)
    obtain sv where sv: "service_of g s = Some sv" "s_name sv = n" using reg_ok_hash [OF g s] by blast
    have "c \<in> conn_of g ` set (s_owners sv)"
      using n queue_of_service [OF g sv(1)] sv(2) unfolding waits_for_def by (simp add: queue_conns del: set_map)
    then obtain x where x: "x \<in> set (s_owners sv)" "conn_of g x = c" by blast
    from reg_ok_owner [OF g sv(1) x(1)] obtain ow where "owner_of g x = Some ow" "o_service ow = s" .
    then have "s \<in> ?S" using x(2) reg_ok_counts(3) [OF g] by (auto simp: conn_of_def)
    then show "n \<in> ?name ` ?S" using sv by (auto intro!: image_eqI [of _ _ s])
  qed
  show "finite (waits_for g c)" unfolding img [symmetric] by simp
  show "n_services_owned g c = int (card (waits_for g c))"
    unfolding img [symmetric] card_image [OF inj] reg_ok_counts(2) [OF g] distinct_card [OF reg_ok_counts(1) [OF g]] ..
qed

lemma enqueue_members:
  "fst ` set (enqueue c flags q) = insert c (fst ` set q)"
proof -
  have w: "fst ` set (without c q) = fst ` set q - {c}" by (auto simp: without_def)
  have "map fst (map (\<lambda>e. if fst e = c then wish c flags else e) q) = map fst q" by simp
  then have r: "fst ` set (map (\<lambda>e. if fst e = c then wish c flags else e) q) = fst ` set q"
    by (metis list.set_map)
  have i: "fst ` set (insert_after_first (wish c flags) xs) = insert c (fst ` set xs)" for xs
    by (auto simp: insert_after_first_set)
  show ?thesis
    unfolding enqueue_def
    by (simp only: i r w set_append list.set image_Un image_insert conn_wish split: if_split) blast
qed

lemma request_members:
  assumes "request c flags q = (reply, q')"
  shows "fst ` set q' \<subseteq> insert c (fst ` set q)"
proof -
  have w: "fst ` set (without c q) \<subseteq> fst ` set q" for q by (auto simp: without_def)
  show ?thesis
  proof (cases q)
    case (Cons e rest)
    obtain d m k where e: "e = (d, m, k)" by (cases e) auto
    consider "d = c" "q' = wish c flags # rest" | "q' = wish c flags # (if k then [] else [(d, m, k)]) @ without c rest"
      | "q' = without c q" | "q' = enqueue c flags q"
      using assms by (simp add: Cons e request_def split: if_split_asm)
    then show ?thesis
    proof cases
      case 1
      then show ?thesis by (simp only: Cons e list.set image_insert conn_wish fst_conv) blast
    next
      case 2
      have "fst ` set (if k then [] else [(d, m, k)]) \<subseteq> {d}" by simp
      with 2 w [of rest] show ?thesis
        by (simp only: Cons e list.set image_insert conn_wish fst_conv set_append image_Un) blast
    next
      case 3
      then show ?thesis using w [of q] by blast
    next
      case 4
      then show ?thesis by (simp only: enqueue_members subset_refl)
    qed
  next
    case Nil
    then have "q' = [wish c flags]" using assms by (simp add: request_def)
    then show ?thesis using Nil by simp
  qed
qed

text \<open>The limit on the names of a connection.\<close>

lemma waits_for_mono:
  assumes "reg_ok g" "reg_ok g'" "\<And>n. c \<in> fst ` set (queue_of g' n) \<Longrightarrow> c \<in> fst ` set (queue_of g n)"
  shows "n_services_owned g' c \<le> n_services_owned g c"
proof -
  have "waits_for g' c \<subseteq> waits_for g c" using assms(3) by (auto simp: waits_for_def)
  then have "card (waits_for g' c) \<le> card (waits_for g c)" using count_names(1) [OF assms(1)] by (rule card_mono [rotated])
  then show ?thesis using count_names(2) [OF assms(1)] count_names(2) [OF assms(2)] by simp
qed

lemma waits_for_one:
  assumes "reg_ok g" "reg_ok g'" "\<And>n. n \<noteq> name \<Longrightarrow> queue_of g' n = queue_of g n"
  shows "n_services_owned g' c \<le> n_services_owned g c + 1"
proof -
  have "waits_for g' c \<subseteq> insert name (waits_for g c)" unfolding waits_for_def using assms(3) by auto
  moreover have fin: "finite (waits_for g c)" using count_names(1) [OF assms(1)] .
  ultimately have "card (waits_for g' c) \<le> card (insert name (waits_for g c))" by (intro card_mono) simp_all
  also have "\<dots> \<le> card (waits_for g c) + 1" using fin by (simp add: card_insert_if)
  finally show ?thesis using count_names(2) [OF assms(1)] count_names(2) [OF assms(2)] by simp
qed

definition within_limits :: "bus_env \<Rightarrow> registry \<Rightarrow> bool" where
  "within_limits env g \<longleftrightarrow> (\<forall>c. n_services_owned g c \<le> max 0 (max_services env))"

definition run_ok :: "bus_env \<Rightarrow> tid \<Rightarrow> bus \<Rightarrow> bool" where
  "run_ok env tx st \<longleftrightarrow> idle tx st \<and> within_limits env (reg st)"

lemma limit_other:
  assumes "reg_ok g" "reg_ok g'" "\<And>n d. d \<in> fst ` set (queue_of g' n) \<Longrightarrow> d \<in> fst ` set (queue_of g n)" "within_limits env g"
  shows "within_limits env g'"
  using waits_for_mono [OF assms(1,2)] assms(3,4) unfolding within_limits_def by (meson order_trans)

lemma within_acquired:
  assumes g: "reg_ok g" "reg_ok g'" and l: "within_limits env g" "n_services_owned g c < max_services env"
    and d: "request_done c name flags g reply g'"
  shows "within_limits env g'"
proof -
  have "n_services_owned g' e \<le> max 0 (max_services env)" for e
  proof (cases "e = c")
    case True
    have "n_services_owned g' c \<le> n_services_owned g c + 1"
      using d by (intro waits_for_one [OF g, of name]) (simp add: request_done_def)
    with True l(2) show ?thesis by simp
  next
    case False
    have "n_services_owned g' e \<le> n_services_owned g e"
    proof (rule waits_for_mono [OF g])
      fix n assume a: "e \<in> fst ` set (queue_of g' n)"
      show "e \<in> fst ` set (queue_of g n)"
      proof (cases "n = name")
        case True
        have "request c flags (queue_of g n) = (reply, queue_of g' n)" using d True by (simp add: request_done_def)
        from request_members [OF this] a False show ?thesis by blast
      qed (use d a in \<open>simp add: request_done_def\<close>)
    qed
    with l(1) show ?thesis by (simp add: within_limits_def) (meson order_trans)
  qed
  then show ?thesis by (simp add: within_limits_def)
qed

lemma within_failed:
  assumes "reg_ok g" "reg_ok g'" "within_limits env g" and d: "request_failed c name flags g g'"
  shows "within_limits env g'"
proof (rule limit_other [OF assms(1,2) _ assms(3)])
  fix n x assume a: "x \<in> fst ` set (queue_of g' n)"
  show "x \<in> fst ` set (queue_of g n)"
  proof (cases "queue_of g' n = queue_of g n")
    case False
    then have "n = name" "c \<in> fst ` set (queue_of g name)" "queue_of g' name = enqueue c flags (queue_of g name)"
      using d unfolding request_failed_def by metis+
    with a show ?thesis unfolding enqueue_members by (simp add: enqueue_members insert_absorb)
  qed (use a in simp)
qed

lemma within_released:
  assumes "reg_ok g" "reg_ok g'" "within_limits env g"
    and "\<And>n. queue_of g' n = queue_of g n \<or> queue_of g' n = without c (queue_of g n)"
  shows "within_limits env g'"
proof (rule limit_other [OF assms(1,2) _ assms(3)])
  fix n x assume "x \<in> fst ` set (queue_of g' n)"
  then show "x \<in> fst ` set (queue_of g n)" using assms(4) [of n] by (auto simp: without_def)
qed

lemma release_queue: "release c q = (answer, q') \<Longrightarrow> q' = q \<or> q' = without c q"
  by (auto simp: release_def split: if_split_asm)

lemma run_okI: "idle tx st \<Longrightarrow> within_limits env (reg st) \<Longrightarrow> run_ok env tx st"
  and run_okD: "run_ok env tx st \<Longrightarrow> idle tx st \<and> within_limits env (reg st) \<and> reg_ok (reg st)"
  by (simp_all add: run_ok_def idle_def)

lemma idle_reg: "idle tx st \<Longrightarrow> reg_ok (reg st)"
  by (simp add: idle_def)

lemma run_ok_reachable:
  assumes "bus_run env tx st"
  shows "run_ok env tx st"
  using assms
proof induction
  case (bus_start st)
  have "reg_ok (reg st)" unfolding bus_start(1) by (rule reg_okI) simp_all
  then show ?case using bus_start by (simp add: run_ok_def idle_def within_limits_def)
next
  case (bus_acquire st name c flags reply st1 st2)
  note i = run_okD [OF bus_acquire.IH]
  have "acquire_checks env c name st = None"
    using bus_acquire(3) by (cases "acquire_checks env c name st") (simp_all add: bus_registry_acquire_service_def)
  then have "n_services_owned (reg st) c < max_services env" by (auto simp: acquire_checks_def split: if_split_asm)
  moreover have "idle tx st2" "request_done c name flags (reg st) reply (reg st2)"
    using acquire_service_done [OF _ bus_acquire(2), of tx env c flags] bus_acquire(3,4) i by auto
  ultimately show ?case using i within_acquired idle_reg by (blast intro: run_okI)
next
  case (bus_acquire_failed st name c flags e st1 st2)
  note i = run_okD [OF bus_acquire_failed.IH]
  have "idle tx st2" "request_failed c name flags (reg st) (reg st2)"
    using acquire_service_done [OF _ bus_acquire_failed(2), of tx env c flags] bus_acquire_failed(3,4) i by auto
  then show ?case using i within_failed idle_reg by (blast intro: run_okI)
next
  case (bus_release st c name answer st1 st2)
  note i = run_okD [OF bus_release.IH]
  have 2: "idle tx st2" "release c (queue_of (reg st) name) = (answer, queue_of (reg st2) name)"
    "\<forall>n. n \<noteq> name \<longrightarrow> queue_of (reg st2) n = queue_of (reg st) n"
    using release_service_done [of tx st env c name] bus_release(2,3) i by auto
  then have "queue_of (reg st2) n = queue_of (reg st) n \<or> queue_of (reg st2) n = without c (queue_of (reg st) n)" for n
    using release_queue by metis
  then show ?case using i 2(1) within_released idle_reg by (metis run_okI)
next
  case (bus_release_failed st c name e st1 st2)
  note i = run_okD [OF bus_release_failed.IH]
  have "idle tx st2" "\<forall>n. queue_of (reg st2) n = queue_of (reg st) n"
    using release_service_done [of tx st env c name] bus_release_failed(2,3) i by auto
  then show ?case using i within_released idle_reg by (metis run_okI)
next
  case (bus_disconnect st c st1)
  note i = run_okD [OF bus_disconnect.IH]
  have "idle tx st1" "\<forall>n. queue_of (reg st1) n = without c (queue_of (reg st) n)"
    using drop_names_done [of tx st env c] bus_disconnect(2) i by auto
  then show ?case using i within_released idle_reg by (metis run_okI)
next
  case (bus_other st st1)
  then show ?case by (simp add: run_ok_def idle_def)
qed

section \<open>Properties\<close>

text \<open>An example: connection 1 owns \<open>a.b\<close> and may be replaced, connection 2 waits behind it.\<close>

definition example_reg :: registry where
  "example_reg = \<lparr>owner_of = (\<lambda>x. None)(0 := Some \<lparr>o_refs = 1, o_service = 0, o_conn = 1, allow_replacement = True, do_not_queue = False\<rparr>,
       1 := Some \<lparr>o_refs = 1, o_service = 0, o_conn = 2, allow_replacement = False, do_not_queue = False\<rparr>),
     service_of = (\<lambda>s. None)(0 := Some \<lparr>s_refs = 1, s_name = ''a.b'', s_owners = [0, 1]\<rparr>),
     service_hash = (\<lambda>n. None)(''a.b'' := Some 0), services_owned = (\<lambda>c. [])(1 := [0], 2 := [0]),
     n_services_owned = (\<lambda>c. 0)(1 := 1, 2 := 1), new_owner = 2, new_service = 1\<rparr>"

definition example_bus :: "script \<Rightarrow> bus" where
  "example_bus m = \<lparr>reg = example_reg, unique_name = (\<lambda>c. Some '':1.1''), pending_activations = (\<lambda>n. None),
     trans = \<lparr>connected = (\<lambda>c. True), transaction_messages = (\<lambda>c. []), t_connections = (\<lambda>t. []),
       cancel_hooks = (\<lambda>t. []), outgoing = (\<lambda>c. [])\<rparr>, mem = m\<rparr>"

definition example_env :: "bool \<Rightarrow> bus_env" where
  "example_env a = \<lparr>max_services = 10, selinux_allows = (\<lambda>c n. True), can_own = (\<lambda>c n. True),
     may_receive = (\<lambda>c m. True), recipients = (\<lambda>m. [9]), asserts = a\<rparr>"

lemma example_ok: "reg_ok example_reg"
  by (rule reg_okI) (auto simp: example_reg_def conn_of_def split: if_split_asm)

lemma example_idle: "idle tx (example_bus m)"
  using example_ok by (simp add: idle_def example_bus_def)

lemma example_queue: "queue_of (reg (example_bus m)) ''a.b'' = [(1, True, False), (2, False, False)]"
  by (simp add: example_bus_def example_reg_def queue_of_def entry_def Let_def)



text \<open>C16: \<open>bus_registry_release_service\<close> (\<open>ReleaseName\<close>) answers by the written rules once its
  transaction is executed: the connection leaves the queue of the name, whoever is next becomes
  the owner, and the name goes when the queue is empty; when it fails nothing changes.\<close>

theorem release_service_correct:
  assumes "idle tx st"
  shows "\<exists>res st1 st2. bus_registry_release_service env tx c name st = Some (res, st1) \<and>
    (case res of
       Inr reply \<Rightarrow> bus_transaction_execute_and_free env tx st1 = Some st2 \<and> idle tx st2 \<and>
         release c (queue_of (reg st) name) = (reply, queue_of (reg st2) name) \<and>
         (\<forall>n. n \<noteq> name \<longrightarrow> queue_of (reg st2) n = queue_of (reg st) n)
     | Inl e \<Rightarrow> bus_transaction_cancel_and_free env tx st1 = Some st2 \<and> idle tx st2 \<and>
         (\<forall>n. queue_of (reg st2) n = queue_of (reg st) n))"
  using release_service_done [OF assms] .

lemma release_service_correct_witness:
  "\<exists>res st1 st2. bus_registry_release_service (example_env True) 1 1 ''a.b'' (example_bus []) = Some (res, st1) \<and>
    (case res of
       Inr reply \<Rightarrow> bus_transaction_execute_and_free (example_env True) 1 st1 = Some st2 \<and> idle 1 st2 \<and>
         release 1 [(1, True, False), (2, False, False)] = (reply, queue_of (reg st2) ''a.b'') \<and>
         (\<forall>n. n \<noteq> ''a.b'' \<longrightarrow> queue_of (reg st2) n = queue_of (reg (example_bus [])) n)
     | Inl e \<Rightarrow> bus_transaction_cancel_and_free (example_env True) 1 st1 = Some st2 \<and> idle 1 st2 \<and>
         (\<forall>n. queue_of (reg st2) n = queue_of (reg (example_bus [])) n))"
  using release_service_correct [OF example_idle [of 1 "[]"], of "example_env True" 1 "''a.b''"]
  unfolding example_queue .

text \<open>C17: when a connection goes, the loop that drops its names ends whatever the pattern of allocation
  failures, and leaves it in no queue, the order of everyone else unchanged.\<close>

theorem drop_names_ends:
  assumes "idle tx st"
  shows "\<exists>st'. drop_names env tx c st = Some st' \<and> idle tx st' \<and> services_owned (reg st') c = [] \<and>
    (\<forall>n. queue_of (reg st') n = without c (queue_of (reg st) n))"
  using drop_names_done [OF assms] .

lemma drop_names_ends_witness:
  "\<exists>st'. drop_names (example_env True) 1 1 (example_bus [False, True, False]) = Some st' \<and>
    queue_of (reg st') ''a.b'' = without 1 [(1, True, False), (2, False, False)]"
proof -
  obtain st' where "drop_names (example_env True) 1 1 (example_bus [False, True, False]) = Some st'"
    "\<forall>n. queue_of (reg st') n = without 1 (queue_of (reg (example_bus [False, True, False])) n)"
    using drop_names_ends [OF example_idle, of "example_env True" 1 1 "[False, True, False]"] by blast
  then show ?thesis using example_queue [of "[False, True, False]"] by (intro exI [of _ st']) (simp only: simp_thms)
qed


definition empty_bus :: bus where
  "empty_bus = (example_bus [])\<lparr>reg := \<lparr>owner_of = (\<lambda>x. None), service_of = (\<lambda>s. None), service_hash = (\<lambda>n. None),
      services_owned = (\<lambda>c. []), n_services_owned = (\<lambda>c. 0), new_owner = 0, new_service = 0\<rparr>\<rparr>"


lemma rollback_unlinked:
  assumes g: "reg_ok g" and s: "service_of g s = Some sv" "s_owners sv = x # ys"
  shows "asserts env \<Longrightarrow> ys \<noteq> [] \<Longrightarrow> hook_cancel_reg env (Restore_Ownership s x f) (unlinked s ys (s_name sv) g) = None"
    and "\<not> (asserts env \<and> ys \<noteq> []) \<Longrightarrow> \<exists>g' sv2. rollback_reg env [Restore_Ownership s x f] (unlinked s ys (s_name sv) g) = Some g' \<and>
      owner_of g' x = None \<and> service_of g' s = Some sv2 \<and> x \<in> set (s_owners sv2)"
proof -
  have "x \<in> set (s_owners sv)" using s(2) by simp
  from reg_ok_owner [OF g s(1) this] obtain ow where ow: "owner_of g x = Some ow" "o_service ow = s" "o_refs ow = 1" .
  note n = reg_ok_counter(1) [OF g ow(1)] and r = reg_okD(3) [OF g s(1)]
  show "asserts env \<Longrightarrow> ys \<noteq> [] \<Longrightarrow> hook_cancel_reg env (Restore_Ownership s x f) (unlinked s ys (s_name sv) g) = None"
    using s by (simp add: hook_cancel_reg_def restore_ownership_def unlinked_def owners_def assertion_def bump_service_def)
  assume a: "\<not> (asserts env \<and> ys \<noteq> [])"
  have i: "x \<in> set (insert_before f x zs)" for zs by (cases f) (simp_all add: insert_before_def)
  show "\<exists>g' sv2. rollback_reg env [Restore_Ownership s x f] (unlinked s ys (s_name sv) g) = Some g' \<and>
      owner_of g' x = None \<and> service_of g' s = Some sv2 \<and> x \<in> set (s_owners sv2)"
    using s a ow n r i
    by (cases "ys = []") (simp_all add: hook_cancel_reg_def hook_free_reg_def restore_ownership_def unlinked_def owners_def
        assertion_def bump_service_def set_owners_def bus_service_relink_def bus_service_ref_def free_ownership_restore_data_def
        bus_owner_unref_def bus_connection_remove_owned_service_def bus_connection_add_owned_service_link_def
        bus_service_unref_def put_queue_def Let_def)
qed

text \<open>C19: the hook that should undo a release when the reply to the client cannot be sent is broken:
  cancelling the transaction in which the primary owner of a name gave it up either fails the
  assertion of \<open>restore_ownership\<close> or leaves the freed owner in the queue of the name.\<close>

theorem cancelled_release_corrupts:
  assumes "idle tx st" "service_of (reg st) s = Some sv" "s_owners sv = x # ys" "conn_of (reg st) x = c"
    and run: "bus_service_remove_owner env tx s c st = Some (True, st1)"
  shows "if asserts env \<and> ys \<noteq> [] then bus_transaction_cancel_and_free env tx st1 = None
    else \<exists>st2 sv2. bus_transaction_cancel_and_free env tx st1 = Some st2 \<and> owner_of (reg st2) x = None \<and>
      service_of (reg st2) s = Some sv2 \<and> x \<in> set (s_owners sv2)"
proof -
  have g: "reg_ok (reg st)" and hooks: "cancel_hooks (trans st) tx = []" using assms(1) by (simp_all add: idle_def)
  have "x \<in> set (s_owners sv)" using assms(3) by simp
  from reg_ok_owner [OF g assms(2) this] obtain ow where ow: "owner_of (reg st) x = Some ow" "o_refs ow = 1" .
  have x: "x \<notin> set ys" "\<forall>y \<in> set ys. owner_of (reg st) y \<noteq> None" "s_refs sv > 0"
    using reg_okD(3,5) [OF g assms(2)] reg_ok_alive [OF g assms(2)] assms(3) by auto
  let ?h = "Restore_Ownership s x (owner_after x (s_owners sv))"
  have "o_conn ow = c" using assms(4) ow by (simp add: conn_of_def)
  then have m: "moves tx [?h] (unlinked s ys (s_name sv) (reg st)) st st1"
    using remove_primary_effect [OF assms(2,3) x(3) ow(1) _ _ x(1,2), of c env tx] ow(2) run by auto
  then have h: "cancel_hooks (trans st1) tx = [?h]" using hooks by (simp add: moves_def)
  show ?thesis
  proof (cases "asserts env \<and> ys \<noteq> []")
    case True
    then have "hook_cancel_reg env ?h (reg st1) = None"
      using rollback_unlinked(1) [OF g assms(2,3)] moves_reg [OF m] by simp
    then show ?thesis using True h
      by (simp add: bus_transaction_cancel_and_free_def bus_transaction_cancel_messages_def pop_connections_cancel
          cancel_hook_cancel_def hook_cancel_reg_def on_reg_def)
  next
    case False
    then obtain g' sv2 where g': "rollback_reg env [?h] (reg st1) = Some g'" "owner_of g' x = None" "service_of g' s = Some sv2"
      "x \<in> set (s_owners sv2)" using rollback_unlinked(2) [OF g assms(2,3)] moves_reg [OF m] by metis
    from rollback_effect [OF h g'(1)] g'(2-4) show ?thesis using False by auto
  qed
qed

lemma cancelled_release_corrupts_witness:
  "(\<exists>st1. bus_service_remove_owner (example_env True) 1 0 1 (example_bus []) = Some (True, st1) \<and>
     bus_transaction_cancel_and_free (example_env True) 1 st1 = None) \<and>
   (\<exists>st1 st2 sv2. bus_service_remove_owner (example_env False) 1 0 1 (example_bus []) = Some (True, st1) \<and>
     bus_transaction_cancel_and_free (example_env False) 1 st1 = Some st2 \<and> owner_of (reg st2) 0 = None \<and>
     service_of (reg st2) 0 = Some sv2 \<and> 0 \<in> set (s_owners sv2))"
proof -
  have s: "service_of (reg (example_bus [])) 0 = Some \<lparr>s_refs = 1, s_name = ''a.b'', s_owners = [0, 1]\<rparr>"
    and c: "conn_of (reg (example_bus [])) 0 = 1"
    by (simp_all add: example_bus_def example_reg_def conn_of_def)
  have run: "\<exists>st1. bus_service_remove_owner (example_env a) 1 0 1 (example_bus []) = Some (True, st1)" for a
  proof -
    obtain ok st1 where 1: "bus_service_remove_owner (example_env a) 1 0 1 (example_bus []) = Some (ok, st1)"
      using remove_owner_effect [OF _ _ s, of 1 1 "example_env a"] example_idle [of 1 "[]"] c
      by (auto simp: idle_def image_iff)
    moreover have ok using thrifty_remove [of "example_bus []" "example_env a" 1 0 1] 1
      by (simp add: thrifty_def spent_def example_bus_def)
    ultimately show ?thesis by auto
  qed
  obtain st1 st2 where "bus_service_remove_owner (example_env True) 1 0 1 (example_bus []) = Some (True, st1)"
    "bus_service_remove_owner (example_env False) 1 0 1 (example_bus []) = Some (True, st2)" using run by blast
  then show ?thesis
    using cancelled_release_corrupts [OF example_idle s _ c, of _ "example_env True" 1 st1]
      cancelled_release_corrupts [OF example_idle s _ c, of _ "example_env False" 1 st2]
    by (auto simp: example_env_def)
qed

lemma strdup_loop_fails:
  "k < length names \<Longrightarrow> strdup_loop names acc (replicate k True @ [False]) = (Inl (acc @ take k names), [])"
proof (induction names arbitrary: acc k)
  case (Cons n names)
  then show ?case by (cases k) simp_all
qed simp

lemma strdup_loop_works: "strdup_loop names acc [] = (Inr (acc @ names), [])"
  by (induction names arbitrary: acc) simp_all



end
