(* ===== verification/Dbus_String.thy ===== *)
theory Dbus_String
  imports Prelude
begin

text \<open>
  The string class (\<open>dbus/dbus-string.c\<close>, \<open>dbus/dbus-string-private.h\<close>): its memory and its editing
  operations. A \<open>DBusRealString\<close> owns a malloc block; its text starts at the first 8 byte aligned
  address of the block and is followed by a nul byte. The block is a list of bytes here, junk
  included, so that a read or a write outside it is a fault (\<open>None\<close>), as are a failed assertion
  (\<open>_dbus_assert\<close>), a signed overflow and a write to constant memory. The allocator is an
  environment: it either fails or returns a block at some address with arbitrary contents.
  \<open>bytes_of\<close> is the text a string holds; the lemmas at the end say what every operation does to it.
\<close>

section \<open>The code\<close>

definition INT_MAX :: nat where "INT_MAX = 2147483647"

definition PADDING :: nat where "PADDING = 8"

definition MAX_MAX_LENGTH :: nat where "MAX_MAX_LENGTH = INT_MAX - PADDING"

record real_string =
  block :: "byte list"
  addr :: nat
  align_offset :: nat
  len :: nat
  allocated :: nat
  max_length :: nat
  const_data :: bool
  locked :: bool
  invalid :: bool

text \<open>The allocator: a request fails, or returns an address and what the memory there holds.
  A script that has run out grants the rest.\<close>

datatype allocation = No_Memory | Memory nat "byte list"

type_synonym heap = "allocation list"

definition fresh :: "byte list \<Rightarrow> nat \<Rightarrow> byte list" where
  "fresh junk n = take n (junk @ replicate n 0)"

fun dbus_malloc :: "nat \<Rightarrow> heap \<Rightarrow> (nat \<times> byte list) option \<times> heap" where
  "dbus_malloc n [] = (Some (0, fresh [] n), [])"
| "dbus_malloc n (No_Memory # h) = (None, h)"
| "dbus_malloc n (Memory a junk # h) = (Some (a, fresh junk n), h)"

fun dbus_realloc :: "byte list \<Rightarrow> nat \<Rightarrow> heap \<Rightarrow> (nat \<times> byte list) option \<times> heap" where
  "dbus_realloc old n [] = (Some (0, fresh old n), [])"
| "dbus_realloc old n (No_Memory # h) = (None, h)"
| "dbus_realloc old n (Memory a junk # h) = (Some (a, fresh (old @ junk) n), h)"

definition guard :: "bool \<Rightarrow> unit option" where
  "guard c = (if c then Some () else None)"

definition add_int :: "nat \<Rightarrow> nat \<Rightarrow> nat option" where
  "add_int a b = (if a + b \<le> INT_MAX then Some (a + b) else None)"

definition align_value :: "nat \<Rightarrow> nat \<Rightarrow> nat" where
  "align_value this boundary = (this + (boundary - 1)) div boundary * boundary"

subsection \<open>Memory\<close>

definition read_block :: "byte list \<Rightarrow> nat \<Rightarrow> nat \<Rightarrow> byte list option" where
  "read_block b i n = (if i + n \<le> length b then Some (take n (drop i b)) else None)"

definition write_block :: "byte list \<Rightarrow> nat \<Rightarrow> byte list \<Rightarrow> byte list option" where
  "write_block b i bs =
     (if i + length bs \<le> length b then Some (take i b @ bs @ drop (i + length bs) b) else None)"

text \<open>\<open>real->str[i .. i + n]\<close>, read and written.\<close>

definition peek :: "real_string \<Rightarrow> nat \<Rightarrow> nat \<Rightarrow> byte list option" where
  "peek s i n = read_block (block s) (align_offset s + i) n"

definition poke :: "real_string \<Rightarrow> nat \<Rightarrow> byte list \<Rightarrow> real_string option" where
  "poke s i bs = do {
     guard (\<not> const_data s);
     b \<leftarrow> write_block (block s) (align_offset s + i) bs;
     Some (s\<lparr>block := b\<rparr>) }"

definition byte_at :: "real_string \<Rightarrow> nat \<Rightarrow> byte option" where
  "byte_at s i = do { bs \<leftarrow> peek s i 1; Some (hd bs) }"

definition memmove :: "real_string \<Rightarrow> nat \<Rightarrow> nat \<Rightarrow> nat \<Rightarrow> real_string option" where
  "memmove s to from n = do { bs \<leftarrow> peek s from n; poke s to bs }"

subsection \<open>Preambles\<close>

definition generic_preamble :: "real_string \<Rightarrow> bool" where
  "generic_preamble s \<longleftrightarrow> \<not> invalid s \<and> len s + PADDING \<le> allocated s \<and> len s \<le> max_length s"

definition string_preamble :: "real_string \<Rightarrow> bool" where
  "string_preamble s \<longleftrightarrow> generic_preamble s \<and> \<not> const_data s \<and> \<not> locked s"

definition copy_preamble :: "real_string \<Rightarrow> nat \<Rightarrow> real_string \<Rightarrow> nat \<Rightarrow> bool" where
  "copy_preamble source start dest insert_at \<longleftrightarrow>
     generic_preamble source \<and> generic_preamble dest \<and> \<not> const_data dest \<and> \<not> locked dest \<and>
     start \<le> len source \<and> insert_at \<le> len dest"

subsection \<open>Allocation and alignment\<close>

definition fixup_alignment :: "real_string \<Rightarrow> real_string option" where
  "fixup_alignment s = do {
     guard (len s + PADDING \<le> allocated s);
     let off = align_value (addr s) 8 - addr s;
     b \<leftarrow> (if align_offset s \<noteq> off
           then do { bs \<leftarrow> read_block (block s) (align_offset s) (len s + 1);
                     write_block (block s) off bs }
           else Some (block s));
     guard (off < 8);
     Some (s\<lparr>align_offset := off, block := b\<rparr>) }"

definition undo_alignment :: "real_string \<Rightarrow> real_string option" where
  "undo_alignment s =
     (if align_offset s \<noteq> 0 then do {
        bs \<leftarrow> peek s 0 (len s + 1);
        b \<leftarrow> write_block (block s) 0 bs;
        Some (s\<lparr>block := b, align_offset := 0\<rparr>) }
      else Some s)"

text \<open>The memory a string is initialized in may hold anything; nothing of it but \<open>str\<close> is touched
  when the allocation fails, so the caller's \<open>old\<close> is returned.\<close>

definition dbus_string_init_preallocated ::
    "nat \<Rightarrow> real_string \<Rightarrow> heap \<Rightarrow> (bool \<times> real_string \<times> heap) option" where
  "dbus_string_init_preallocated n old h = do {
     m \<leftarrow> add_int PADDING n;
     (case dbus_malloc m h of
        (None, h) \<Rightarrow> Some (False, old, h)
      | (Some (a, b), h) \<Rightarrow> do {
          s \<leftarrow> poke \<lparr>block = b, addr = a, align_offset = 0, len = 0, allocated = m,
                    max_length = MAX_MAX_LENGTH, const_data = False, locked = False,
                    invalid = False\<rparr> 0 [0];
          s \<leftarrow> fixup_alignment s;
          Some (True, s, h) }) }"

definition dbus_string_init :: "real_string \<Rightarrow> heap \<Rightarrow> (bool \<times> real_string \<times> heap) option" where
  "dbus_string_init old h = dbus_string_init_preallocated 0 old h"

text \<open>A constant string reads the caller's memory \<open>value\<close>.\<close>

definition dbus_string_init_const_len :: "byte list \<Rightarrow> nat \<Rightarrow> real_string option" where
  "dbus_string_init_const_len value n = do {
     guard (n \<le> MAX_MAX_LENGTH);
     Some \<lparr>block = value, addr = 0, align_offset = 0, len = n, allocated = n + PADDING,
           max_length = n + 1, const_data = True, locked = True, invalid = False\<rparr> }"

definition dbus_string_init_const :: "byte list \<Rightarrow> real_string option" where
  "dbus_string_init_const value = do {
     guard (0 \<in> set value);
     dbus_string_init_const_len value (length (takeWhile (\<lambda>b. b \<noteq> 0) value)) }"

definition dbus_string_free :: "real_string \<Rightarrow> real_string option" where
  "dbus_string_free s = do {
     guard (generic_preamble s);
     Some (if const_data s then s else s\<lparr>block := [], invalid := True\<rparr>) }"

definition string_compact :: "real_string \<Rightarrow> nat \<Rightarrow> heap \<Rightarrow> (bool \<times> real_string \<times> heap) option" where
  "string_compact s max_waste h =
     (let waste = allocated s - (len s + PADDING) in
      if waste \<le> max_waste then Some (True, s, h)
      else
        let new_allocated = len s + PADDING in
        case dbus_realloc (block s) new_allocated h of
          (None, h) \<Rightarrow> Some (False, s, h)
        | (Some (a, b), h) \<Rightarrow> do {
            s \<leftarrow> fixup_alignment (s\<lparr>block := b, addr := a, allocated := new_allocated\<rparr>);
            Some (True, s, h) })"

definition dbus_string_compact :: "real_string \<Rightarrow> nat \<Rightarrow> heap \<Rightarrow> (bool \<times> real_string \<times> heap) option" where
  "dbus_string_compact s max_waste h = do { guard (string_preamble s); string_compact s max_waste h }"

definition reallocate_for_length ::
    "real_string \<Rightarrow> nat \<Rightarrow> heap \<Rightarrow> (bool \<times> real_string \<times> heap) option" where
  "reallocate_for_length s new_length h =
     (let doubled = (if allocated s > (MAX_MAX_LENGTH + PADDING) div 2
                     then MAX_MAX_LENGTH + PADDING else allocated s * 2) in do {
        needed \<leftarrow> add_int new_length PADDING;
        let new_allocated = max doubled needed;
        guard (new_allocated \<ge> allocated s);
        (case dbus_realloc (block s) new_allocated h of
           (None, h) \<Rightarrow> Some (False, s, h)
         | (Some (a, b), h) \<Rightarrow> do {
             s \<leftarrow> fixup_alignment (s\<lparr>block := b, addr := a, allocated := new_allocated\<rparr>);
             Some (True, s, h) }) })"

definition set_length :: "real_string \<Rightarrow> nat \<Rightarrow> heap \<Rightarrow> (bool \<times> real_string \<times> heap) option" where
  "set_length s new_length h =
     (if new_length > max_length s then Some (False, s, h)
      else do {
        (ok, s, h) \<leftarrow> (if new_length > allocated s - PADDING then reallocate_for_length s new_length h
                      else Some (True, s, h));
        if \<not> ok then Some (False, s, h)
        else do {
          s \<leftarrow> poke (s\<lparr>len := new_length\<rparr>) new_length [0];
          Some (True, s, h) } })"

definition open_gap :: "nat \<Rightarrow> real_string \<Rightarrow> nat \<Rightarrow> heap \<Rightarrow> (bool \<times> real_string \<times> heap) option" where
  "open_gap n dest insert_at h =
     (if n = 0 then Some (True, dest, h)
      else if n > max_length dest - len dest then Some (False, dest, h)
      else do {
        (ok, dest, h) \<leftarrow> set_length dest (len dest + n) h;
        if \<not> ok then Some (False, dest, h)
        else do {
          dest \<leftarrow> memmove dest (insert_at + n) insert_at (len dest - n - insert_at);
          Some (True, dest, h) } })"

subsection \<open>Access\<close>

definition dbus_string_get_data_len :: "real_string \<Rightarrow> nat \<Rightarrow> nat \<Rightarrow> byte list option" where
  "dbus_string_get_data_len s start n = do {
     guard (string_preamble s \<and> start \<le> len s \<and> n \<le> len s - start);
     peek s start n }"

definition dbus_string_set_byte :: "real_string \<Rightarrow> nat \<Rightarrow> byte \<Rightarrow> real_string option" where
  "dbus_string_set_byte s i b = do { guard (string_preamble s \<and> i < len s); poke s i [b] }"

definition dbus_string_get_byte :: "real_string \<Rightarrow> nat \<Rightarrow> byte option" where
  "dbus_string_get_byte s start = do { guard (generic_preamble s \<and> start \<le> len s); byte_at s start }"

definition dbus_string_get_length :: "real_string \<Rightarrow> nat option" where
  "dbus_string_get_length s = do { guard (generic_preamble s); Some (len s) }"

definition dbus_string_copy_data :: "real_string \<Rightarrow> heap \<Rightarrow> (byte list option \<times> heap) option" where
  "dbus_string_copy_data s h = do {
     guard (generic_preamble s);
     m \<leftarrow> add_int (len s) 1;
     (case dbus_malloc m h of
        (None, h) \<Rightarrow> Some (None, h)
      | (Some (a, b), h) \<Rightarrow> do {
          bs \<leftarrow> peek s 0 (len s + 1);
          b \<leftarrow> write_block b 0 bs;
          Some (Some b, h) }) }"

definition dbus_string_copy_to_buffer :: "real_string \<Rightarrow> byte list \<Rightarrow> nat \<Rightarrow> byte list option" where
  "dbus_string_copy_to_buffer s buffer avail_len = do {
     guard (generic_preamble s \<and> avail_len \<ge> len s);
     bs \<leftarrow> peek s 0 (len s);
     write_block buffer 0 bs }"

definition dbus_string_copy_to_buffer_with_nul :: "real_string \<Rightarrow> byte list \<Rightarrow> nat \<Rightarrow> byte list option" where
  "dbus_string_copy_to_buffer_with_nul s buffer avail_len = do {
     guard (generic_preamble s \<and> avail_len > len s);
     bs \<leftarrow> peek s 0 (len s + 1);
     write_block buffer 0 bs }"

definition dbus_string_steal_data ::
    "real_string \<Rightarrow> heap \<Rightarrow> (byte list option \<times> real_string \<times> heap) option" where
  "dbus_string_steal_data s h = do {
     guard (string_preamble s);
     s \<leftarrow> undo_alignment s;
     (ok, s', h) \<leftarrow> dbus_string_init s h;
     if \<not> ok then do {
       s \<leftarrow> fixup_alignment s;
       Some (None, s, h) }
     else Some (Some (block s), s'\<lparr>max_length := max_length s\<rparr>, h) }"

subsection \<open>Length\<close>

definition dbus_string_lengthen :: "real_string \<Rightarrow> nat \<Rightarrow> heap \<Rightarrow> (bool \<times> real_string \<times> heap) option" where
  "dbus_string_lengthen s additional_length h = do {
     guard (string_preamble s);
     if additional_length > max_length s - len s then Some (False, s, h)
     else set_length s (len s + additional_length) h }"

definition dbus_string_shorten :: "real_string \<Rightarrow> nat \<Rightarrow> heap \<Rightarrow> (real_string \<times> heap) option" where
  "dbus_string_shorten s length_to_remove h = do {
     guard (string_preamble s \<and> length_to_remove \<le> len s);
     (ok, s, h) \<leftarrow> set_length s (len s - length_to_remove) h;
     Some (s, h) }"

definition dbus_string_set_length :: "real_string \<Rightarrow> nat \<Rightarrow> heap \<Rightarrow> (bool \<times> real_string \<times> heap) option" where
  "dbus_string_set_length s n h = do { guard (string_preamble s); set_length s n h }"

definition dbus_string_alloc_space :: "real_string \<Rightarrow> nat \<Rightarrow> heap \<Rightarrow> (bool \<times> real_string \<times> heap) option" where
  "dbus_string_alloc_space s extra_bytes h = do {
     (ok, s, h) \<leftarrow> dbus_string_lengthen s extra_bytes h;
     if \<not> ok then Some (False, s, h)
     else do {
       (s, h) \<leftarrow> dbus_string_shorten s extra_bytes h;
       Some (True, s, h) } }"

subsection \<open>Insertion\<close>

definition dbus_string_insert_bytes ::
    "real_string \<Rightarrow> nat \<Rightarrow> nat \<Rightarrow> byte \<Rightarrow> heap \<Rightarrow> (bool \<times> real_string \<times> heap) option" where
  "dbus_string_insert_bytes s i n_bytes b h = do {
     guard (string_preamble s \<and> i \<le> len s);
     if n_bytes = 0 then Some (True, s, h)
     else do {
       (ok, s, h) \<leftarrow> open_gap n_bytes s i h;
       if \<not> ok then Some (False, s, h)
       else do {
         s \<leftarrow> poke s i (replicate n_bytes b);
         Some (True, s, h) } } }"

definition dbus_string_insert_byte ::
    "real_string \<Rightarrow> nat \<Rightarrow> byte \<Rightarrow> heap \<Rightarrow> (bool \<times> real_string \<times> heap) option" where
  "dbus_string_insert_byte s i b h = do {
     guard (string_preamble s \<and> i \<le> len s);
     (ok, s, h) \<leftarrow> open_gap 1 s i h;
     if \<not> ok then Some (False, s, h)
     else do {
       s \<leftarrow> poke s i [b];
       Some (True, s, h) } }"

text \<open>The C code's \<open>*insert_at_p\<close> is passed and returned. The sums are of type unsigned long.\<close>

definition align_insert_point_then_open_gap ::
    "real_string \<Rightarrow> nat \<Rightarrow> nat \<Rightarrow> nat \<Rightarrow> heap \<Rightarrow> (bool \<times> real_string \<times> nat \<times> heap) option" where
  "align_insert_point_then_open_gap s insert_at alignment gap_size h = do {
     guard (string_preamble s \<and> 1 \<le> alignment \<and> alignment \<le> 8 \<and> insert_at \<le> len s);
     let gap_pos = align_value insert_at alignment;
     let new_len = len s + (gap_pos - insert_at) + gap_size;
     if new_len > max_length s then Some (False, s, insert_at, h)
     else
       let delta = new_len - len s in
       if delta = 0 then do {
         guard (insert_at = gap_pos);
         Some (True, s, insert_at, h) }
       else do {
         (ok, s, h) \<leftarrow> open_gap (new_len - len s) s insert_at h;
         if \<not> ok then Some (False, s, insert_at, h)
         else do {
           s \<leftarrow> (if gap_size < delta then poke s insert_at (replicate (gap_pos - insert_at) 0) else Some s);
           Some (True, s, gap_pos, h) } } }"

definition align_length_then_lengthen ::
    "real_string \<Rightarrow> nat \<Rightarrow> nat \<Rightarrow> heap \<Rightarrow> (bool \<times> real_string \<times> heap) option" where
  "align_length_then_lengthen s alignment then_lengthen_by h = do {
     insert_at \<leftarrow> dbus_string_get_length s;
     (ok, s, p, h) \<leftarrow> align_insert_point_then_open_gap s insert_at alignment then_lengthen_by h;
     Some (ok, s, h) }"

definition dbus_string_align_length ::
    "real_string \<Rightarrow> nat \<Rightarrow> heap \<Rightarrow> (bool \<times> real_string \<times> heap) option" where
  "dbus_string_align_length s alignment h = align_length_then_lengthen s alignment 0 h"

definition dbus_string_insert_2_aligned ::
    "real_string \<Rightarrow> nat \<Rightarrow> byte list \<Rightarrow> heap \<Rightarrow> (bool \<times> real_string \<times> heap) option" where
  "dbus_string_insert_2_aligned s insert_at octets h = do {
     guard (string_preamble s);
     (ok, s, p, h) \<leftarrow> align_insert_point_then_open_gap s insert_at 2 2 h;
     if \<not> ok then Some (False, s, h)
     else do {
       bs \<leftarrow> read_block octets 0 2;
       s \<leftarrow> poke s p bs;
       Some (True, s, h) } }"

definition dbus_string_insert_4_aligned ::
    "real_string \<Rightarrow> nat \<Rightarrow> byte list \<Rightarrow> heap \<Rightarrow> (bool \<times> real_string \<times> heap) option" where
  "dbus_string_insert_4_aligned s insert_at octets h = do {
     guard (string_preamble s);
     (ok, s, p, h) \<leftarrow> align_insert_point_then_open_gap s insert_at 4 4 h;
     if \<not> ok then Some (False, s, h)
     else do {
       bs \<leftarrow> read_block octets 0 4;
       s \<leftarrow> poke s p bs;
       Some (True, s, h) } }"

definition dbus_string_insert_8_aligned ::
    "real_string \<Rightarrow> nat \<Rightarrow> byte list \<Rightarrow> heap \<Rightarrow> (bool \<times> real_string \<times> heap) option" where
  "dbus_string_insert_8_aligned s insert_at octets h = do {
     guard (string_preamble s);
     (ok, s, p, h) \<leftarrow> align_insert_point_then_open_gap s insert_at 8 8 h;
     if \<not> ok then Some (False, s, h)
     else do {
       guard (align_value p 8 = p);
       bs \<leftarrow> read_block octets 0 8;
       s \<leftarrow> poke s p bs;
       Some (True, s, h) } }"

definition dbus_string_insert_alignment ::
    "real_string \<Rightarrow> nat \<Rightarrow> nat \<Rightarrow> heap \<Rightarrow> (bool \<times> real_string \<times> nat \<times> heap) option" where
  "dbus_string_insert_alignment s insert_at alignment h = do {
     guard (string_preamble s);
     (ok, s, p, h) \<leftarrow> align_insert_point_then_open_gap s insert_at alignment 0 h;
     if \<not> ok then Some (False, s, p, h)
     else do {
       guard (align_value p alignment = p);
       Some (True, s, p, h) } }"

subsection \<open>Appending\<close>

definition string_append :: "real_string \<Rightarrow> byte list \<Rightarrow> nat \<Rightarrow> heap \<Rightarrow> (bool \<times> real_string \<times> heap) option" where
  "string_append s buffer buffer_len h =
     (if buffer_len = 0 then Some (True, s, h)
      else do {
        (ok, s, h) \<leftarrow> dbus_string_lengthen s buffer_len h;
        if \<not> ok then Some (False, s, h)
        else do {
          bs \<leftarrow> read_block buffer 0 buffer_len;
          s \<leftarrow> poke s (len s - buffer_len) bs;
          Some (True, s, h) } })"

text \<open>\<open>buffer\<close> is the memory the pointer leads to; it must hold a nul byte.\<close>

definition dbus_string_append :: "real_string \<Rightarrow> byte list \<Rightarrow> heap \<Rightarrow> (bool \<times> real_string \<times> heap) option" where
  "dbus_string_append s buffer h = do {
     guard (string_preamble s);
     guard (0 \<in> set buffer);
     let buffer_len = length (takeWhile (\<lambda>b. b \<noteq> 0) buffer);
     if buffer_len > max_length s then Some (False, s, h)
     else string_append s buffer buffer_len h }"

definition dbus_string_append_len ::
    "real_string \<Rightarrow> byte list \<Rightarrow> nat \<Rightarrow> heap \<Rightarrow> (bool \<times> real_string \<times> heap) option" where
  "dbus_string_append_len s buffer n h = do { guard (string_preamble s); string_append s buffer n h }"

definition dbus_string_append_byte ::
    "real_string \<Rightarrow> byte \<Rightarrow> heap \<Rightarrow> (bool \<times> real_string \<times> heap) option" where
  "dbus_string_append_byte s b h = do {
     guard (string_preamble s);
     n \<leftarrow> add_int (len s) 1;
     (ok, s, h) \<leftarrow> set_length s n h;
     if \<not> ok then Some (False, s, h)
     else do {
       s \<leftarrow> poke s (len s - 1) [b];
       Some (True, s, h) } }"

subsection \<open>Deletion\<close>

definition string_delete :: "real_string \<Rightarrow> nat \<Rightarrow> nat \<Rightarrow> real_string option" where
  "string_delete s start n =
     (if n = 0 then Some s
      else do {
        s \<leftarrow> memmove s start (start + n) (len s - (start + n));
        let m = len s - n;
        poke (s\<lparr>len := m\<rparr>) m [0] })"

definition dbus_string_delete :: "real_string \<Rightarrow> nat \<Rightarrow> nat \<Rightarrow> real_string option" where
  "dbus_string_delete s start n = do {
     guard (string_preamble s \<and> start \<le> len s \<and> n \<le> len s - start);
     string_delete s start n }"

subsection \<open>Copying between strings\<close>

definition string_copy ::
    "real_string \<Rightarrow> nat \<Rightarrow> nat \<Rightarrow> real_string \<Rightarrow> nat \<Rightarrow> heap \<Rightarrow> (bool \<times> real_string \<times> heap) option" where
  "string_copy source start n dest insert_at h =
     (if n = 0 then Some (True, dest, h)
      else do {
        (ok, dest, h) \<leftarrow> open_gap n dest insert_at h;
        if \<not> ok then Some (False, dest, h)
        else do {
          bs \<leftarrow> peek source start n;
          dest \<leftarrow> poke dest insert_at bs;
          Some (True, dest, h) } })"

definition dbus_string_copy ::
    "real_string \<Rightarrow> nat \<Rightarrow> real_string \<Rightarrow> nat \<Rightarrow> heap \<Rightarrow> (bool \<times> real_string \<times> heap) option" where
  "dbus_string_copy source start dest insert_at h = do {
     guard (copy_preamble source start dest insert_at);
     string_copy source start (len source - start) dest insert_at h }"

definition dbus_string_copy_len ::
    "real_string \<Rightarrow> nat \<Rightarrow> nat \<Rightarrow> real_string \<Rightarrow> nat \<Rightarrow> heap \<Rightarrow> (bool \<times> real_string \<times> heap) option" where
  "dbus_string_copy_len source start n dest insert_at h = do {
     guard (copy_preamble source start dest insert_at \<and> n \<le> len source - start);
     string_copy source start n dest insert_at h }"

definition dbus_string_move_len ::
    "real_string \<Rightarrow> nat \<Rightarrow> nat \<Rightarrow> real_string \<Rightarrow> nat \<Rightarrow> heap \<Rightarrow> (bool \<times> real_string \<times> real_string \<times> heap) option" where
  "dbus_string_move_len source start n dest insert_at h = do {
     guard (copy_preamble source start dest insert_at \<and> start + n \<le> len source);
     if n = 0 then Some (True, source, dest, h)
     else if start = 0 \<and> n = len source \<and> len dest = 0 then
       Some (True,
         source\<lparr>block := block dest, addr := addr dest, align_offset := align_offset dest,
                len := len dest, allocated := allocated dest\<rparr>,
         dest\<lparr>block := block source, addr := addr source, align_offset := align_offset source,
              len := len source, allocated := allocated source\<rparr>, h)
     else do {
       (ok, dest, h) \<leftarrow> string_copy source start n dest insert_at h;
       if \<not> ok then Some (False, source, dest, h)
       else do {
         source \<leftarrow> string_delete source start n;
         Some (True, source, dest, h) } } }"

definition dbus_string_move ::
    "real_string \<Rightarrow> nat \<Rightarrow> real_string \<Rightarrow> nat \<Rightarrow> heap \<Rightarrow> (bool \<times> real_string \<times> real_string \<times> heap) option" where
  "dbus_string_move source start dest insert_at h = do {
     guard (start \<le> len source);
     dbus_string_move_len source start (len source - start) dest insert_at h }"

definition dbus_string_replace_len ::
    "real_string \<Rightarrow> nat \<Rightarrow> nat \<Rightarrow> real_string \<Rightarrow> nat \<Rightarrow> nat \<Rightarrow> heap \<Rightarrow> (bool \<times> real_string \<times> heap) option" where
  "dbus_string_replace_len source start n dest replace_at replace_len h = do {
     guard (copy_preamble source start dest replace_at \<and> n \<le> len source - start \<and>
            replace_len \<le> len dest - replace_at);
     (ok, dest, h) \<leftarrow> string_copy source start n dest replace_at h;
     if \<not> ok then Some (False, dest, h)
     else do {
       dest \<leftarrow> string_delete dest (replace_at + n) replace_len;
       Some (True, dest, h) } }"

definition dbus_string_zero :: "real_string \<Rightarrow> real_string option" where
  "dbus_string_zero s = do {
     guard (string_preamble s);
     b \<leftarrow> write_block (block s) 0 (replicate (allocated s) 0);
     Some (s\<lparr>block := b\<rparr>) }"

section \<open>What the operations do\<close>

definition str_ok :: "real_string \<Rightarrow> bool" where
  "str_ok s \<longleftrightarrow> string_preamble s \<and> length (block s) = allocated s \<and> allocated s \<le> INT_MAX \<and>
     max_length s \<le> MAX_MAX_LENGTH \<and> align_offset s < 8 \<and> (addr s + align_offset s) mod 8 = 0 \<and>
     block s ! (align_offset s + len s) = 0"

definition bytes_of :: "real_string \<Rightarrow> byte list" where
  "bytes_of s = take (len s) (drop (align_offset s) (block s))"

text \<open>A string one may read from, constant or not.\<close>

definition readable :: "real_string \<Rightarrow> bool" where
  "readable s \<longleftrightarrow> generic_preamble s \<and> align_offset s + len s \<le> length (block s)"

text \<open>The layout of the block around the text.\<close>

definition layout :: "real_string \<Rightarrow> byte list \<Rightarrow> byte list \<Rightarrow> byte list \<Rightarrow> bool" where
  "layout s pre bs post \<longleftrightarrow>
     block s = pre @ bs @ post \<and> align_offset s = length pre \<and> len s = length bs"

lemma guard_True [simp]: "guard c = Some () \<longleftrightarrow> c"
  by (simp add: guard_def)

lemma guard_simps [simp]: "guard True = Some ()" "guard False = None"
  by (simp_all add: guard_def)

lemma guard_bind [simp]: "c \<Longrightarrow> guard c \<bind> f = f ()"
  by (simp add: guard_def)

lemma INT_MAX_pos: "PADDING \<le> INT_MAX" "MAX_MAX_LENGTH + PADDING = INT_MAX"
  by (simp_all add: INT_MAX_def PADDING_def MAX_MAX_LENGTH_def)

lemma length_fresh [simp]: "length (fresh junk n) = n"
  by (simp add: fresh_def)

lemma fresh_append: "length old \<le> n \<Longrightarrow> fresh (old @ junk) n = old @ fresh junk (n - length old)"
  by (simp add: fresh_def take_append)

lemma fresh_old: "length old \<le> n \<Longrightarrow> \<exists>junk. fresh old n = old @ junk"
  by (simp add: fresh_def)

text \<open>An allocation grants a block of the wanted size, which starts with the old contents, or
  consumes a failure.\<close>

lemma dbus_malloc_cases:
  obtains (fail) h' where "dbus_malloc n h = (None, h')" "h = No_Memory # h'"
  | (ok) a b h' used where "dbus_malloc n h = (Some (a, b), h')" "length b = n" "h = used @ h'"
proof (cases h)
  case Nil
  then show thesis using ok [of 0 "fresh [] n" "[]" "[]"] by simp
next
  case (Cons x h')
  then show thesis using fail ok [of _ "fresh _ n" h' "[x]"] by (cases x) auto
qed

lemma dbus_realloc_cases:
  assumes "length old \<le> n"
  obtains (fail) h' where "dbus_realloc old n h = (None, h')" "h = No_Memory # h'"
  | (ok) a junk h' used where "dbus_realloc old n h = (Some (a, old @ junk), h')" "length junk = n - length old"
      "h = used @ h'"
proof (cases h)
  case Nil
  then show thesis using ok [of 0 "fresh [] (n - length old)" "[]" "[]"] fresh_append [OF assms, of "[]"] by simp
next
  case (Cons x h')
  then show thesis
    using fail ok [of _ "fresh _ (n - length old)" h' "[x]"] fresh_append [OF assms] by (cases x) auto
qed

lemma layout_exists: "align_offset s + len s \<le> length (block s) \<Longrightarrow> \<exists>pre post. layout s pre (bytes_of s) post"
  unfolding layout_def bytes_of_def
  by (intro exI [of _ "take (align_offset s) (block s)"]
      exI [of _ "drop (len s) (drop (align_offset s) (block s))"]) (simp del: drop_drop)

lemma layout_bytes: "layout s pre bs post \<Longrightarrow> bytes_of s = bs"
  by (auto simp: layout_def bytes_of_def)

lemma peek_layout:
  "layout s pre bs post \<Longrightarrow> i + n \<le> length bs \<Longrightarrow> peek s i n = Some (take n (drop i bs))"
  by (simp add: layout_def peek_def read_block_def)

lemma peek_readable: "readable s \<Longrightarrow> i + n \<le> len s \<Longrightarrow> peek s i n = Some (take n (drop i (bytes_of s)))"
  using layout_exists [of s] peek_layout [of s] by (fastforce simp: readable_def layout_def)

lemma poke_layout:
  assumes "layout s pre bs post" "i + length xs \<le> length bs" "\<not> const_data s"
  shows "poke s i xs = Some (s\<lparr>block := pre @ (take i bs @ xs @ drop (i + length xs) bs) @ post\<rparr>)"
  using assms by (simp add: layout_def poke_def write_block_def)

lemma poke_nul:
  assumes "layout s pre bs (p # post)" "\<not> const_data s"
  shows "poke s (length bs) [x] = Some (s\<lparr>block := pre @ bs @ x # post\<rparr>)"
  using assms by (simp add: layout_def poke_def write_block_def)

text \<open>The invariant of a string, in terms of the layout.\<close>

definition roomy :: "real_string \<Rightarrow> bool" where
  "roomy s \<longleftrightarrow> string_preamble s \<and> length (block s) = allocated s \<and> allocated s \<le> INT_MAX \<and>
     max_length s \<le> MAX_MAX_LENGTH \<and> align_offset s < 8"

definition aligned :: "real_string \<Rightarrow> bool" where
  "aligned s \<longleftrightarrow> align_offset s < 8 \<and> (addr s + align_offset s) mod 8 = 0"

lemma str_ok_layout:
  "str_ok s \<longleftrightarrow> roomy s \<and> aligned s \<and> (\<exists>pre post. layout s pre (bytes_of s) (0 # post))"
proof
  assume ok: "str_ok s"
  then have room: "align_offset s + len s < length (block s)"
    by (auto simp: str_ok_def string_preamble_def generic_preamble_def PADDING_def)
  then obtain pre post where l: "layout s pre (bytes_of s) post" using layout_exists [of s] by auto
  with room ok have "\<exists>p. post = 0 # p"
    by (cases post) (auto simp: layout_def str_ok_def)
  with l ok show "roomy s \<and> aligned s \<and> (\<exists>pre post. layout s pre (bytes_of s) (0 # post))"
    by (auto simp: str_ok_def roomy_def aligned_def)
qed (auto simp: str_ok_def roomy_def aligned_def layout_def)

lemma str_okI:
  assumes "roomy s" "aligned s" "layout s pre bs (0 # post)"
  shows "str_ok s" "bytes_of s = bs"
  using assms layout_bytes [OF assms(3)] by (auto simp: str_ok_layout)

lemma str_okE:
  assumes "str_ok s"
  obtains pre post where "roomy s" "aligned s" "layout s pre (bytes_of s) (0 # post)"
  using assms by (auto simp: str_ok_layout)

lemma str_ok_readable [simp]: "str_ok s \<Longrightarrow> readable s"
  by (auto simp: str_ok_def readable_def string_preamble_def generic_preamble_def PADDING_def)

lemma str_ok_preamble [simp]: "str_ok s \<Longrightarrow> string_preamble s" "str_ok s \<Longrightarrow> generic_preamble s"
  by (auto simp: str_ok_def string_preamble_def)

lemma str_ok_flags: "str_ok s \<Longrightarrow> \<not> const_data s \<and> \<not> locked s \<and> \<not> invalid s"
  by (auto simp: str_ok_def string_preamble_def generic_preamble_def)

lemma str_ok_bounds: "str_ok s \<Longrightarrow> len s \<le> max_length s \<and> len s + PADDING \<le> allocated s
    \<and> max_length s \<le> MAX_MAX_LENGTH \<and> allocated s \<le> INT_MAX"
  by (auto simp: str_ok_def string_preamble_def generic_preamble_def)

lemma len_bytes [simp]: "readable s \<Longrightarrow> length (bytes_of s) = len s"
  by (auto simp: readable_def bytes_of_def)

text \<open>\<open>fixup_alignment\<close> moves the text to the aligned place and changes nothing of it.\<close>

lemma align_value_8: "a \<le> align_value a 8" "align_value a 8 < a + 8" "align_value a 8 mod 8 = 0"
  by (auto simp: align_value_def)

lemma fixup_alignment_ok:
  assumes "roomy s" "layout s pre (bytes_of s) (0 # post)"
  obtains s' pre' post' where "fixup_alignment s = Some s'" "roomy s'" "aligned s'"
    "layout s' pre' (bytes_of s) (0 # post')" "max_length s' = max_length s"
    "allocated s' = allocated s"
proof -
  define off where "off = align_value (addr s) 8 - addr s"
  have off: "off < 8" "(addr s + off) mod 8 = 0"
    using align_value_8 [of "addr s"] by (auto simp: off_def)
  let ?bs = "bytes_of s @ [0]"
  have blk: "block s = pre @ ?bs @ post" "align_offset s = length pre" "len s = length (bytes_of s)"
    using assms by (auto simp: layout_def)
  have room: "length ?bs + off \<le> length (block s)" "len s + PADDING \<le> allocated s"
    using assms(1) off(1) blk(3)
    by (auto simp: roomy_def string_preamble_def generic_preamble_def PADDING_def)
  define b where "b = (if align_offset s \<noteq> off
     then take off (block s) @ ?bs @ drop (off + length ?bs) (block s) else block s)"
  have "fixup_alignment s = Some (s\<lparr>align_offset := off, block := b\<rparr>)"
    using room off blk unfolding fixup_alignment_def off_def [symmetric] b_def
    by (simp add: read_block_def write_block_def)
  moreover have "layout (s\<lparr>align_offset := off, block := b\<rparr>)
      (take off b) (bytes_of s) (0 # drop (off + length ?bs) b)"
  proof (cases "align_offset s = off")
    case True
    then show ?thesis using blk by (simp add: layout_def b_def)
  next
    case False
    then show ?thesis using room(1) blk(3) by (simp add: layout_def b_def)
  qed
  moreover have "length b = length (block s)" using room(1) by (auto simp: b_def)
  ultimately show thesis
    using that [of "s\<lparr>align_offset := off, block := b\<rparr>"] assms(1) off
    by (simp add: roomy_def aligned_def string_preamble_def generic_preamble_def)
qed

text \<open>The contract of the operations that change a string: no fault; the string stays well
  formed and keeps its limit; a success has the wanted effect on the text; a failure changes nothing
  of the text and means that an allocation failed or that the text would have grown beyond the
  limit.\<close>

definition contract :: "real_string \<Rightarrow> heap \<Rightarrow> (byte list \<Rightarrow> bool) \<Rightarrow> nat \<Rightarrow>
    (bool \<times> real_string \<times> heap) option \<Rightarrow> bool" where
  "contract s h P need res \<longleftrightarrow> (\<exists>ok s' used h'. res = Some (ok, s', h') \<and> h = used @ h' \<and>
     str_ok s' \<and> max_length s' = max_length s \<and>
     (if ok then P (bytes_of s')
      else bytes_of s' = bytes_of s \<and> (No_Memory \<in> set used \<or> max_length s < need)))"

lemma contractE:
  assumes "contract s h P need res"
  obtains (ok) s' used h' where "res = Some (True, s', h')" "h = used @ h'" "str_ok s'"
      "max_length s' = max_length s" "P (bytes_of s')"
  | (fail) s' used h' where "res = Some (False, s', h')" "h = used @ h'" "str_ok s'"
      "max_length s' = max_length s" "bytes_of s' = bytes_of s"
      "No_Memory \<in> set used \<or> max_length s < need"
proof -
  from assms obtain ok s' used h' where r: "res = Some (ok, s', h')" "h = used @ h'"
    "str_ok s'" "max_length s' = max_length s"
    "if ok then P (bytes_of s')
      else bytes_of s' = bytes_of s \<and> (No_Memory \<in> set used \<or> max_length s < need)"
    by (auto simp: contract_def)
  show thesis
    using ok [of s' h' used] fail [of s' h' used] r by (cases ok) auto
qed

lemma contract_okI:
  "str_ok s' \<Longrightarrow> max_length s' = max_length s \<Longrightarrow> P (bytes_of s') \<Longrightarrow> h = used @ h' \<Longrightarrow>
     contract s h P need (Some (True, s', h'))"
  by (auto simp: contract_def)

lemma contract_failI:
  "str_ok s' \<Longrightarrow> max_length s' = max_length s \<Longrightarrow> bytes_of s' = bytes_of s \<Longrightarrow> h = used @ h' \<Longrightarrow>
     No_Memory \<in> set used \<or> max_length s < need \<Longrightarrow> contract s h P need (Some (False, s', h'))"
  by (auto simp: contract_def)

lemma contract_mono:
  "contract s h P need r \<Longrightarrow> (\<And>bs. P bs \<Longrightarrow> Q bs) \<Longrightarrow> contract s h Q need r"
  by (fastforce simp: contract_def)

text \<open>An operation followed by steps that cannot fail.\<close>

lemma contract_then:
  assumes "contract s h P need r"
    and "\<And>s' h'. str_ok s' \<Longrightarrow> max_length s' = max_length s \<Longrightarrow> P (bytes_of s') \<Longrightarrow>
      \<exists>s''. k s' h' = Some (True, s'', h') \<and> str_ok s'' \<and> max_length s'' = max_length s' \<and> Q (bytes_of s'')"
  shows "contract s h Q need
    (do { (ok, s', h') \<leftarrow> r; if \<not> ok then Some (False, s', h') else k s' h' })"
  using assms(1)
proof (cases rule: contractE)
  case (ok s' used h')
  from assms(2) [OF ok(3,4,5), of h'] ok show ?thesis by (auto simp: contract_def)
next
  case (fail s' used h')
  then show ?thesis by (auto simp: contract_def)
qed

subsection \<open>Length and gaps\<close>

text \<open>Setting the length of a string that has the room.\<close>

lemma set_nul:
  assumes "roomy s" "aligned s" "layout s pre (bytes_of s) (0 # post)"
    and "n + PADDING \<le> allocated s" "n \<le> max_length s"
  obtains s' xs where "poke (s\<lparr>len := n\<rparr>) n [0] = Some s'" "str_ok s'" "max_length s' = max_length s"
    "bytes_of s' = take n (bytes_of s @ xs)" "length xs = n - len s"
proof -
  define tail where "tail = bytes_of s @ 0 # post"
  have blk: "block s = pre @ tail" "align_offset s = length pre" "len s = length (bytes_of s)"
    using assms(3) by (auto simp: layout_def tail_def)
  have n: "n < length tail" and nc: "\<not> const_data s"
    using assms(1,4) blk
    by (auto simp: roomy_def string_preamble_def PADDING_def)
  let ?s = "s\<lparr>len := n, block := pre @ take n tail @ 0 # drop (Suc n) tail\<rparr>"
  have eq: "poke (s\<lparr>len := n\<rparr>) n [0] = Some ?s"
    using n nc blk by (simp add: poke_def write_block_def)
  have "roomy ?s"
    using assms(1,4,5) n blk by (auto simp: roomy_def string_preamble_def generic_preamble_def)
  moreover have "aligned ?s" using assms(2) by (simp add: aligned_def)
  moreover have "layout ?s pre (take n tail) (0 # drop (Suc n) tail)"
    using n blk by (simp add: layout_def)
  ultimately have ok: "str_ok ?s" "bytes_of ?s = take n tail" by (rule str_okI)+
  have "take n tail = take n (bytes_of s @ take (n - len s) (0 # post))"
    using blk by (simp add: tail_def take_append)
  moreover have "length (take (n - len s) (0 # post)) = n - len s"
    using n blk by (simp add: tail_def)
  ultimately show thesis
    using that [OF eq ok(1)] ok(2) by (simp del: take_append)
qed

lemma reallocate_for_length_ok:
  assumes s: "str_ok s" and n: "len s \<le> n" "n \<le> max_length s"
  obtains (fail) h' where "reallocate_for_length s n h = Some (False, s, h')" "h = No_Memory # h'"
  | (ok) s' pre post used h' where "reallocate_for_length s n h = Some (True, s', h')" "h = used @ h'"
      "roomy s'" "aligned s'" "layout s' pre (bytes_of s) (0 # post)"
      "max_length s' = max_length s" "n + PADDING \<le> allocated s'" "allocated s \<le> allocated s'"
proof -
  define doubled where "doubled = (if allocated s > (MAX_MAX_LENGTH + PADDING) div 2
                     then MAX_MAX_LENGTH + PADDING else allocated s * 2)"
  define size where "size = max doubled (n + PADDING)"
  from s obtain pre post where l: "roomy s" "aligned s" "layout s pre (bytes_of s) (0 # post)"
    by (rule str_okE)
  have needed: "add_int n PADDING = Some (n + PADDING)"
    using str_ok_bounds [OF s] n(2) INT_MAX_pos by (simp add: add_int_def)
  have size: "allocated s \<le> size" "size \<le> INT_MAX" "n + PADDING \<le> size"
    using str_ok_bounds [OF s] n(2) INT_MAX_pos
    by (auto simp: size_def doubled_def INT_MAX_def split: if_splits)
  have blk: "length (block s) = allocated s" using l(1) by (simp add: roomy_def)
  have eq: "reallocate_for_length s n h =
      (case dbus_realloc (block s) size h of
         (None, h) \<Rightarrow> Some (False, s, h)
       | (Some (a, b), h) \<Rightarrow> do {
           s \<leftarrow> fixup_alignment (s\<lparr>block := b, addr := a, allocated := size\<rparr>);
           Some (True, s, h) })"
    using size(1)
    unfolding reallocate_for_length_def Let_def doubled_def [symmetric] needed Option.bind.bind_lunit
      size_def [symmetric] by simp
  have le: "length (block s) \<le> size" using blk size(1) by simp
  then show thesis
  proof (cases rule: dbus_realloc_cases [where h = h, case_names failed granted])
    case (failed h')
    then show thesis using fail eq by simp
  next
    case (granted a junk h' used)
    let ?s = "s\<lparr>block := block s @ junk, addr := a, allocated := size\<rparr>"
    have lay: "layout ?s pre (bytes_of ?s) (0 # post @ junk)" "bytes_of ?s = bytes_of s"
      using l(3) by (auto simp: layout_def bytes_of_def)
    moreover have "roomy ?s" using l(1) size granted(2) blk
      by (auto simp: roomy_def string_preamble_def generic_preamble_def)
    ultimately obtain s' pre' post' where "fixup_alignment ?s = Some s'" "roomy s'" "aligned s'"
        "layout s' pre' (bytes_of ?s) (0 # post')" "max_length s' = max_length ?s"
        "allocated s' = allocated ?s"
      using fixup_alignment_ok by metis
    then show thesis using ok [where s' = s'] eq granted size lay(2) by simp
  qed
qed

lemma set_length_ok:
  assumes ok: "str_ok s"
  shows "contract s h (\<lambda>bs. \<exists>xs. bs = take n (bytes_of s @ xs) \<and> length xs = n - len s) n (set_length s n h)"
proof -
  from ok obtain pre post where l: "roomy s" "aligned s" "layout s pre (bytes_of s) (0 # post)"
    by (rule str_okE)
  consider (long) "n > max_length s" | (grow) "n \<le> max_length s" "n > allocated s - PADDING"
    | (fits) "n \<le> max_length s" "n + PADDING \<le> allocated s"
    using str_ok_bounds [OF ok] by linarith
  then show ?thesis
  proof cases
    case long
    then show ?thesis using ok by (simp add: set_length_def contract_failI)
  next
    case grow
    then have "len s \<le> n" using str_ok_bounds [OF ok] by linarith
    from ok this grow(1) show ?thesis
    proof (cases rule: reallocate_for_length_ok [where h = h, case_names fail ok])
      case (fail h')
      then show ?thesis using ok grow by (simp add: set_length_def contract_failI [where used = "[No_Memory]"])
    next
      case (ok s' pre post used h')
      have b: "bytes_of s' = bytes_of s" using ok(5) by (rule layout_bytes)
      then have l: "len s' = len s" using ok(5) l(3) by (simp add: layout_def)
      obtain s'' xs where "poke (s'\<lparr>len := n\<rparr>) n [0] = Some s''" "str_ok s''"
          "max_length s'' = max_length s'" "bytes_of s'' = take n (bytes_of s' @ xs)" "length xs = n - len s'"
        using set_nul [of s' pre post n] ok grow(1) b by (auto simp del: take_append)
      then show ?thesis using ok(1,2,6) grow b l
        by (auto simp: set_length_def simp del: take_append intro!: contract_okI)
    qed
  next
    case fits
    obtain s' xs where "poke (s\<lparr>len := n\<rparr>) n [0] = Some s'" "str_ok s'"
        "max_length s' = max_length s" "bytes_of s' = take n (bytes_of s @ xs)" "length xs = n - len s"
      using set_nul [OF l fits(2,1)] .
    then show ?thesis using fits
      by (auto simp: set_length_def simp del: take_append intro!: contract_okI [where used = "[]"])
  qed
qed

text \<open>Shortening needs no allocation.\<close>

lemma set_length_shorter:
  assumes "str_ok s" "n \<le> len s"
  obtains s' where "set_length s n h = Some (True, s', h)" "str_ok s'" "max_length s' = max_length s"
    "bytes_of s' = take n (bytes_of s)"
proof -
  from assms(1) obtain pre post where l: "roomy s" "aligned s" "layout s pre (bytes_of s) (0 # post)"
    by (rule str_okE)
  have fits: "n \<le> max_length s" "n + PADDING \<le> allocated s"
    using str_ok_bounds [OF assms(1)] assms(2) by auto
  obtain s' xs where "poke (s\<lparr>len := n\<rparr>) n [0] = Some s'" "str_ok s'"
      "max_length s' = max_length s" "bytes_of s' = take n (bytes_of s @ xs)" "length xs = n - len s"
    using set_nul [OF l fits(2,1)] .
  moreover have "\<not> allocated s - PADDING < n" using fits by simp
  ultimately show thesis using that [of s'] fits assms
    by (simp add: set_length_def)
qed

lemma poke_ok:
  assumes ok: "str_ok s" and i: "i + length xs \<le> len s"
  obtains s' where "poke s i xs = Some s'" "str_ok s'" "max_length s' = max_length s"
    "bytes_of s' = take i (bytes_of s) @ xs @ drop (i + length xs) (bytes_of s)"
proof -
  from ok obtain pre post where l: "roomy s" "aligned s" "layout s pre (bytes_of s) (0 # post)"
    by (rule str_okE)
  let ?bs = "take i (bytes_of s) @ xs @ drop (i + length xs) (bytes_of s)"
  let ?s = "s\<lparr>block := pre @ ?bs @ 0 # post\<rparr>"
  have n: "length (bytes_of s) = len s" using ok by simp
  have eq: "poke s i xs = Some ?s"
    using poke_layout [OF l(3)] i n str_ok_flags [OF ok] by simp
  have len: "length ?bs = len s" using i n by simp
  have "roomy ?s" using l(1,3) len n
    by (auto simp: roomy_def string_preamble_def generic_preamble_def layout_def)
  moreover have "aligned ?s" using l(2) by (simp add: aligned_def)
  moreover have "layout ?s pre ?bs (0 # post)" using l(3) len by (simp add: layout_def)
  ultimately have "str_ok ?s" "bytes_of ?s = ?bs" by (rule str_okI)+
  then show thesis using that [OF eq] by simp
qed

lemma open_gap_ok:
  assumes ok: "str_ok s" and i: "i \<le> len s"
  shows "contract s h (\<lambda>bs. \<exists>xs. bs = take i (bytes_of s) @ xs @ drop i (bytes_of s) \<and> length xs = n)
    (len s + n) (open_gap n s i h)"
proof -
  let ?gap = "\<lambda>bs. \<exists>xs. bs = take i (bytes_of s) @ xs @ drop i (bytes_of s) \<and> length xs = n"
  consider (none) "n = 0" | (long) "n \<noteq> 0" "n > max_length s - len s"
    | (go) "n \<noteq> 0" "n \<le> max_length s - len s" by linarith
  then show ?thesis
  proof cases
    case none
    then show ?thesis using ok
      by (auto simp: open_gap_def intro!: contract_okI [where used = "[]"])
  next
    case long
    then show ?thesis using ok str_ok_bounds [OF ok]
      by (auto simp: open_gap_def intro!: contract_failI [where used = "[]"])
  next
    case go
    have "contract s h ?gap (len s + n)
      (do { (ok, s', h') \<leftarrow> set_length s (len s + n) h;
            if \<not> ok then Some (False, s', h')
            else do { s'' \<leftarrow> memmove s' (i + n) i (len s' - n - i); Some (True, s'', h') } })"
    proof (rule contract_then [OF set_length_ok [OF ok]])
      fix s' h'
      assume s': "str_ok s'" "max_length s' = max_length s"
        "\<exists>xs. bytes_of s' = take (len s + n) (bytes_of s @ xs) \<and> length xs = len s + n - len s"
      then obtain xs where xs: "bytes_of s' = bytes_of s @ xs" "length xs = n" using ok by auto
      then have l: "len s' = len s + n" using s'(1) ok len_bytes [of s'] by simp
      have p: "peek s' i (len s' - n - i) = Some (drop i (bytes_of s))"
        using peek_readable [of s' i "len s' - n - i"] s'(1) i l xs ok by simp
      obtain s'' where "poke s' (i + n) (drop i (bytes_of s)) = Some s''" "str_ok s''"
        "max_length s'' = max_length s'"
        "bytes_of s'' = take (i + n) (bytes_of s') @ drop i (bytes_of s)"
      proof -
        have fits: "i + n + length (drop i (bytes_of s)) = len s'" using i l ok by simp
        then obtain s'' where p: "poke s' (i + n) (drop i (bytes_of s)) = Some s''" "str_ok s''"
            "max_length s'' = max_length s'" "bytes_of s'' = take (i + n) (bytes_of s') @
              drop i (bytes_of s) @ drop (i + n + length (drop i (bytes_of s))) (bytes_of s')"
          by (rule poke_ok [OF s'(1) eq_refl])
        moreover have "drop (i + n + length (drop i (bytes_of s))) (bytes_of s') = []"
          unfolding fits using s'(1) by simp
        ultimately show thesis using that by simp
      qed
      moreover have "take (i + n) (bytes_of s') @ drop i (bytes_of s) =
          take i (bytes_of s) @ take n (drop i (bytes_of s')) @ drop i (bytes_of s)"
        unfolding take_add using xs i ok by simp
      ultimately have m: "memmove s' (i + n) i (len s' - n - i) = Some s''" "str_ok s''"
          "max_length s'' = max_length s'"
          "bytes_of s'' = take i (bytes_of s) @ take n (drop i (bytes_of s')) @ drop i (bytes_of s)"
        using p by (simp_all add: memmove_def)
      have "length (take n (drop i (bytes_of s'))) = n" using i l s'(1) by simp
      with m(4) have gap: "?gap (bytes_of s'')" by blast
      show "\<exists>s''. do { s'' \<leftarrow> memmove s' (i + n) i (len s' - n - i); Some (True, s'', h') } = Some (True, s'', h')
          \<and> str_ok s'' \<and> max_length s'' = max_length s' \<and> ?gap (bytes_of s'')"
        by (intro exI [of _ s''] conjI m(2,3) gap) (simp only: m(1) Option.bind.bind_lunit)
    qed
    then show ?thesis using go by (simp add: open_gap_def)
  qed
qed

text \<open>A gap that is filled at once.\<close>

lemma fill_gap_ok:
  assumes ok: "str_ok s" and i: "i \<le> len s" and fill: "length (f ()) = n"
  shows "contract s h (\<lambda>bs. bs = take i (bytes_of s) @ f () @ drop i (bytes_of s)) (len s + n)
    (do { (ok, s', h') \<leftarrow> open_gap n s i h;
          if \<not> ok then Some (False, s', h')
          else do { s'' \<leftarrow> poke s' i (f ()); Some (True, s'', h') } })"
proof (rule contract_then [OF open_gap_ok [OF ok i]])
  fix s' h'
  assume s': "str_ok s'" "max_length s' = max_length s"
    "\<exists>xs. bytes_of s' = take i (bytes_of s) @ xs @ drop i (bytes_of s) \<and> length xs = n"
  then obtain xs where xs: "bytes_of s' = take i (bytes_of s) @ xs @ drop i (bytes_of s)" "length xs = n"
    by auto
  then have l: "len s' = len s + n" using s'(1) ok i len_bytes [of s'] by simp
  obtain s'' where "poke s' i (f ()) = Some s''" "str_ok s''" "max_length s'' = max_length s'"
    "bytes_of s'' = take i (bytes_of s') @ f () @ drop (i + n) (bytes_of s')"
    using poke_ok [OF s'(1), of i "f ()"] i l fill by auto
  then show "\<exists>s''. do { s'' \<leftarrow> poke s' i (f ()); Some (True, s'', h') } = Some (True, s'', h')
      \<and> str_ok s'' \<and> max_length s'' = max_length s'
      \<and> bytes_of s'' = take i (bytes_of s) @ f () @ drop i (bytes_of s)"
    using xs i ok by auto
qed

subsection \<open>Insertion and deletion\<close>

text \<open>\<open>splice i n xs bs\<close> replaces \<open>n\<close> bytes of \<open>bs\<close> from position \<open>i\<close> by \<open>xs\<close>.\<close>

definition splice :: "nat \<Rightarrow> nat \<Rightarrow> byte list \<Rightarrow> byte list \<Rightarrow> byte list" where
  "splice i n xs bs = take i bs @ xs @ drop (i + n) bs"

lemma length_splice: "i + n \<le> length bs \<Longrightarrow> length (splice i n xs bs) = length bs - n + length xs"
  by (simp add: splice_def)

lemma splice_end: "i = length bs \<Longrightarrow> splice i 0 xs bs = bs @ xs"
  by (simp add: splice_def)

lemma insert_bytes_ok:
  assumes "str_ok s" "i \<le> len s"
  shows "contract s h (\<lambda>bs. bs = splice i 0 (replicate n b) (bytes_of s)) (len s + n)
    (dbus_string_insert_bytes s i n b h)"
proof (cases "n = 0")
  case True
  then show ?thesis using assms
    by (simp add: dbus_string_insert_bytes_def splice_def contract_okI [where used = "[]"])
next
  case False
  then show ?thesis using fill_gap_ok [OF assms, of "\<lambda>_. replicate n b" n h] assms
    by (simp add: dbus_string_insert_bytes_def splice_def)
qed

lemma insert_byte_ok:
  assumes "str_ok s" "i \<le> len s"
  shows "contract s h (\<lambda>bs. bs = splice i 0 [b] (bytes_of s)) (len s + 1) (dbus_string_insert_byte s i b h)"
  using fill_gap_ok [OF assms, of "\<lambda>_. [b]" 1 h] assms
  by (simp add: dbus_string_insert_byte_def splice_def)

lemma string_copy_ok:
  assumes "str_ok dest" "i \<le> len dest" "readable source" "start + n \<le> len source"
  shows "contract dest h (\<lambda>bs. bs = splice i 0 (take n (drop start (bytes_of source))) (bytes_of dest))
    (len dest + n) (string_copy source start n dest i h)"
proof (cases "n = 0")
  case True
  then show ?thesis using assms
    by (simp add: string_copy_def splice_def contract_okI [where used = "[]"])
next
  case False
  let ?bs = "take n (drop start (bytes_of source))"
  have "peek source start n = Some ?bs" "length ?bs = n"
    using peek_readable assms(3,4) by simp_all
  moreover from this(1) have "string_copy source start n dest i h =
     (do { (ok, s', h') \<leftarrow> open_gap n dest i h;
          if \<not> ok then Some (False, s', h')
          else do { s'' \<leftarrow> poke s' i ?bs; Some (True, s'', h') } })"
    unfolding string_copy_def using False by (simp only: if_False Option.bind.bind_lunit)
  ultimately show ?thesis using fill_gap_ok [OF assms(1,2), of "\<lambda>_. ?bs" n h]
    by (simp add: splice_def)
qed

lemma string_delete_ok:
  assumes ok: "str_ok s" and n: "start + n \<le> len s"
  obtains s' where "string_delete s start n = Some s'" "str_ok s'" "max_length s' = max_length s"
    "bytes_of s' = splice start n [] (bytes_of s)"
proof (cases "n = 0")
  case True
  then show thesis using that [of s] ok by (simp add: string_delete_def splice_def)
next
  case False
  let ?tail = "drop (start + n) (bytes_of s)"
  have fits: "start + n + (len s - (start + n)) \<le> len s" "start + length ?tail \<le> len s"
    using n ok by auto
  have p: "peek s (start + n) (len s - (start + n)) = Some ?tail"
    using peek_readable [OF str_ok_readable [OF ok] fits(1)] ok n by simp
  obtain s' where s': "poke s start ?tail = Some s'" "str_ok s'" "max_length s' = max_length s"
      "bytes_of s' = take start (bytes_of s) @ ?tail @ drop (start + length ?tail) (bytes_of s)"
    by (rule poke_ok [OF ok fits(2)])
  have len: "len s' = len s"
    using s'(2,4) ok n len_bytes [of s'] by simp
  define m where "m = len s - n"
  from s'(2) obtain pre post where l: "roomy s'" "aligned s'" "layout s' pre (bytes_of s') (0 # post)"
    by (rule str_okE)
  have m: "m + PADDING \<le> allocated s'" "m \<le> max_length s'" "m \<le> len s'"
    using str_ok_bounds [OF s'(2)] len by (auto simp: m_def)
  obtain s'' xs where s'': "poke (s'\<lparr>len := m\<rparr>) m [0] = Some s''" "str_ok s''"
      "max_length s'' = max_length s'" "bytes_of s'' = take m (bytes_of s' @ xs)" "length xs = m - len s'"
    using set_nul [OF l m(1,2)] .
  have "bytes_of s'' = splice start n [] (bytes_of s)"
    using s''(4,5) m(3) s'(4) n ok by (simp add: m_def splice_def)
  moreover have "string_delete s start n = Some s''"
    using False p s'(1) s''(1) len by (simp add: string_delete_def memmove_def m_def)
  ultimately show thesis using that s''(2,3) s'(3) by simp
qed

lemma delete_ok:
  assumes "str_ok s" "start \<le> len s" "n \<le> len s - start"
  obtains s' where "dbus_string_delete s start n = Some s'" "str_ok s'" "max_length s' = max_length s"
    "bytes_of s' = splice start n [] (bytes_of s)"
proof (rule string_delete_ok [OF assms(1)])
  show "start + n \<le> len s" using assms by simp
qed (use that assms in \<open>simp add: dbus_string_delete_def\<close>)

text \<open>Appending.\<close>

lemma lengthen_ok:
  assumes "str_ok s"
  shows "contract s h (\<lambda>bs. \<exists>xs. bs = bytes_of s @ xs \<and> length xs = n) (len s + n)
    (dbus_string_lengthen s n h)"
proof (cases "n > max_length s - len s")
  case True
  then show ?thesis using assms str_ok_bounds [OF assms]
    by (simp add: dbus_string_lengthen_def contract_failI [where used = "[]"])
next
  case False
  then have "contract s h (\<lambda>bs. \<exists>xs. bs = take (len s + n) (bytes_of s @ xs) \<and> length xs = len s + n - len s)
     (len s + n) (dbus_string_lengthen s n h)"
    using set_length_ok [OF assms, of h "len s + n"] assms
    by (simp add: dbus_string_lengthen_def)
  then show ?thesis by (rule contract_mono) (use assms in auto)
qed

lemma string_append_ok:
  assumes ok: "str_ok s" and n: "n \<le> length buffer"
  shows "contract s h (\<lambda>bs. bs = bytes_of s @ take n buffer) (len s + n) (string_append s buffer n h)"
proof (cases "n = 0")
  case True
  then show ?thesis using ok by (simp add: string_append_def contract_okI [where used = "[]"])
next
  case False
  have "contract s h (\<lambda>bs. bs = bytes_of s @ take n buffer) (len s + n)
     (do { (ok, s', h') \<leftarrow> dbus_string_lengthen s n h;
           if \<not> ok then Some (False, s', h')
           else do { bs \<leftarrow> read_block buffer 0 n; s'' \<leftarrow> poke s' (len s' - n) bs; Some (True, s'', h') } })"
  proof (rule contract_then [OF lengthen_ok [OF ok]])
    fix s' h'
    assume s': "str_ok s'" "\<exists>xs. bytes_of s' = bytes_of s @ xs \<and> length xs = n"
    then obtain xs where xs: "bytes_of s' = bytes_of s @ xs" "length xs = n" by blast
    then have l: "len s' - n = len s" "len s' = len s + n" using s'(1) ok len_bytes [of s'] by simp_all
    have fits: "len s' - n + length (take n buffer) \<le> len s'" using l n by simp
    obtain s'' where "poke s' (len s' - n) (take n buffer) = Some s''" "str_ok s''"
      "max_length s'' = max_length s'"
      "bytes_of s'' = take (len s' - n) (bytes_of s') @ take n buffer
         @ drop (len s' - n + length (take n buffer)) (bytes_of s')"
      by (rule poke_ok [OF s'(1) fits])
    then show "\<exists>s''. do { bs \<leftarrow> read_block buffer 0 n; s'' \<leftarrow> poke s' (len s' - n) bs; Some (True, s'', h') }
         = Some (True, s'', h') \<and> str_ok s'' \<and> max_length s'' = max_length s'
         \<and> bytes_of s'' = bytes_of s @ take n buffer"
      using l xs n ok by (simp add: read_block_def)
  qed
  then show ?thesis using False by (simp add: string_append_def)
qed

lemma append_len_ok:
  "str_ok s \<Longrightarrow> n \<le> length buffer \<Longrightarrow>
     contract s h (\<lambda>bs. bs = bytes_of s @ take n buffer) (len s + n) (dbus_string_append_len s buffer n h)"
  using string_append_ok by (simp add: dbus_string_append_len_def)

text \<open>A C string holds the bytes before the first nul.\<close>

definition c_string :: "byte list \<Rightarrow> byte list" where
  "c_string buffer = takeWhile (\<lambda>b. b \<noteq> 0) buffer"

lemma take_c_string: "take (length (c_string buffer)) buffer = c_string buffer"
  by (simp add: c_string_def takeWhile_eq_take [symmetric])

lemma append_ok:
  assumes "str_ok s" "0 \<in> set buffer"
  shows "contract s h (\<lambda>bs. bs = bytes_of s @ c_string buffer) (len s + length (c_string buffer))
    (dbus_string_append s buffer h)"
proof (cases "length (c_string buffer) > max_length s")
  case True
  then show ?thesis using assms
    by (simp add: dbus_string_append_def c_string_def [symmetric] contract_failI [where used = "[]"])
next
  case False
  have "length (c_string buffer) \<le> length buffer" by (simp add: c_string_def length_takeWhile_le)
  from string_append_ok [OF assms(1) this] show ?thesis using False assms
    by (simp add: dbus_string_append_def c_string_def [symmetric] take_c_string)
qed

lemma append_byte_ok:
  assumes ok: "str_ok s"
  shows "contract s h (\<lambda>bs. bs = bytes_of s @ [b]) (len s + 1) (dbus_string_append_byte s b h)"
proof -
  have "contract s h (\<lambda>bs. bs = bytes_of s @ [b]) (len s + 1)
     (do { (ok, s', h') \<leftarrow> set_length s (len s + 1) h;
           if \<not> ok then Some (False, s', h')
           else do { s'' \<leftarrow> poke s' (len s' - 1) [b]; Some (True, s'', h') } })"
  proof (rule contract_then [OF set_length_ok [OF ok]])
    fix s' h'
    assume s': "str_ok s'"
      "\<exists>xs. bytes_of s' = take (len s + 1) (bytes_of s @ xs) \<and> length xs = len s + 1 - len s"
    then obtain xs where xs: "bytes_of s' = bytes_of s @ xs" "length xs = 1" using ok by auto
    then have l: "len s' - 1 = len s" "len s' = len s + 1" using s'(1) ok len_bytes [of s'] by simp_all
    have fits: "len s' - 1 + length [b] \<le> len s'" using l by simp
    obtain s'' where "poke s' (len s' - 1) [b] = Some s''" "str_ok s''" "max_length s'' = max_length s'"
      "bytes_of s'' = take (len s' - 1) (bytes_of s') @ [b] @ drop (len s' - 1 + length [b]) (bytes_of s')"
      by (rule poke_ok [OF s'(1) fits])
    then show "\<exists>s''. do { s'' \<leftarrow> poke s' (len s' - 1) [b]; Some (True, s'', h') }
         = Some (True, s'', h') \<and> str_ok s'' \<and> max_length s'' = max_length s'
         \<and> bytes_of s'' = bytes_of s @ [b]"
      using l xs ok by simp
  qed
  moreover have "add_int (len s) 1 = Some (len s + 1)"
    using str_ok_bounds [OF ok] INT_MAX_pos by (simp add: add_int_def PADDING_def)
  ultimately show ?thesis using ok by (simp add: dbus_string_append_byte_def)
qed

subsection \<open>Copying and moving\<close>

lemma copy_len_ok:
  assumes "str_ok dest" "i \<le> len dest" "readable source" "start \<le> len source" "n \<le> len source - start"
  shows "contract dest h (\<lambda>bs. bs = splice i 0 (take n (drop start (bytes_of source))) (bytes_of dest))
    (len dest + n) (dbus_string_copy_len source start n dest i h)"
  using string_copy_ok [of dest i source start n h] assms
  by (simp add: dbus_string_copy_len_def copy_preamble_def readable_def str_ok_flags)

lemma replace_len_ok:
  assumes dest: "str_ok dest" "i \<le> len dest" "m \<le> len dest - i"
    and source: "readable source" "start \<le> len source" "n \<le> len source - start"
  shows "contract dest h (\<lambda>bs. bs = splice i m (take n (drop start (bytes_of source))) (bytes_of dest))
    (len dest + n) (dbus_string_replace_len source start n dest i m h)"
proof -
  let ?xs = "take n (drop start (bytes_of source))"
  have n: "length ?xs = n" using source by simp
  have "contract dest h (\<lambda>bs. bs = splice i m ?xs (bytes_of dest)) (len dest + n)
     (do { (ok, s', h') \<leftarrow> string_copy source start n dest i h;
           if \<not> ok then Some (False, s', h')
           else do { s'' \<leftarrow> string_delete s' (i + n) m; Some (True, s'', h') } })"
  proof (rule contract_then [OF string_copy_ok])
    show "str_ok dest" "i \<le> len dest" "readable source" "start + n \<le> len source" using assms by simp_all
    fix s' h'
    assume s': "str_ok s'" "bytes_of s' = splice i 0 ?xs (bytes_of dest)"
    then have "len s' = len dest + n"
      using len_bytes [of s'] length_splice [of i 0 "bytes_of dest" ?xs] dest n by simp
    then have fits: "i + n + m \<le> len s'" using dest by simp
    obtain s'' where "string_delete s' (i + n) m = Some s''" "str_ok s''" "max_length s'' = max_length s'"
      "bytes_of s'' = splice (i + n) m [] (bytes_of s')"
      by (rule string_delete_ok [OF s'(1) fits])
    then show "\<exists>s''. do { s'' \<leftarrow> string_delete s' (i + n) m; Some (True, s'', h') } = Some (True, s'', h')
        \<and> str_ok s'' \<and> max_length s'' = max_length s' \<and> bytes_of s'' = splice i m ?xs (bytes_of dest)"
      using s'(2) dest n by (simp add: splice_def add.commute)
  qed
  then show ?thesis using assms
    by (simp add: dbus_string_replace_len_def copy_preamble_def readable_def str_ok_flags)
qed

text \<open>Moving a segment out of one string into another: both or neither changes.\<close>

lemma move_len_ok:
  assumes source: "str_ok source" "start + n \<le> len source" and dest: "str_ok dest" "i \<le> len dest"
    and room: "max_length source = max_length dest"
  obtains ok source' dest' used h' where
    "dbus_string_move_len source start n dest i h = Some (ok, source', dest', h')" "h = used @ h'"
    "str_ok source'" "str_ok dest'" "max_length source' = max_length source" "max_length dest' = max_length dest"
    "if ok then bytes_of dest' = splice i 0 (take n (drop start (bytes_of source))) (bytes_of dest)
              \<and> bytes_of source' = splice start n [] (bytes_of source)
     else bytes_of dest' = bytes_of dest \<and> source' = source
              \<and> (No_Memory \<in> set used \<or> max_length dest < len dest + n)"
proof -
  have pre: "copy_preamble source start dest i" using assms by (simp add: copy_preamble_def str_ok_flags)
  consider (none) "n = 0" | (swap) "n \<noteq> 0" "start = 0" "n = len source" "len dest = 0"
    | (move) "n \<noteq> 0" "\<not> (start = 0 \<and> n = len source \<and> len dest = 0)" by argo
  then show thesis
  proof cases
    case none
    then show thesis using that [of True source dest h "[]"] assms pre
      by (simp add: dbus_string_move_len_def splice_def)
  next
    case swap
    define a where "a = source\<lparr>block := block dest, addr := addr dest, align_offset := align_offset dest,
                len := len dest, allocated := allocated dest\<rparr>"
    define b where "b = dest\<lparr>block := block source, addr := addr source, align_offset := align_offset source,
              len := len source, allocated := allocated source\<rparr>"
    have "dbus_string_move_len source start n dest i h = Some (True, a, b, h)"
      using swap source pre by (simp add: dbus_string_move_len_def a_def b_def)
    moreover have "str_ok a" "str_ok b" "bytes_of a = bytes_of dest" "bytes_of b = bytes_of source"
      using source(1) dest(1) room
      by (auto simp: str_ok_def a_def b_def bytes_of_def string_preamble_def generic_preamble_def)
    moreover have "bytes_of dest = []" using swap(4) dest(1) by (simp add: bytes_of_def)
    ultimately show thesis using that [of True a b h "[]"] swap source dest
      by (simp add: a_def b_def splice_def)
  next
    case move
    let ?go = "string_copy source start n dest i h"
    have eq: "dbus_string_move_len source start n dest i h = do {
       (ok, dest, h) \<leftarrow> ?go;
       if \<not> ok then Some (False, source, dest, h)
       else do { source \<leftarrow> string_delete source start n; Some (True, source, dest, h) } }"
    proof -
      have g: "guard (copy_preamble source start dest i \<and> start + n \<le> len source) = Some ()"
        using pre source(2) by simp
      show ?thesis
        unfolding dbus_string_move_len_def g Option.bind.bind_lunit if_not_P [OF move(1)] if_not_P [OF move(2)] ..
    qed
    obtain source' where del: "string_delete source start n = Some source'" "str_ok source'"
        "max_length source' = max_length source" "bytes_of source' = splice start n [] (bytes_of source)"
      by (rule string_delete_ok [OF source])
    from string_copy_ok [OF dest str_ok_readable [OF source(1)] source(2), of h] show thesis
    proof (cases rule: contractE)
      case (ok dest' used h')
      then show thesis using that [of True source' dest' h' used] eq del by simp
    next
      case (fail dest' used h')
      then show thesis using that [of False source dest' h' used] eq source by simp
    qed
  qed
qed

subsection \<open>Initialization, alignment and the rest\<close>

lemma init_ok:
  obtains (fail) h' where "dbus_string_init old h = Some (False, old, h')" "h = No_Memory # h'"
  | (ok) s used h' where "dbus_string_init old h = Some (True, s, h')" "h = used @ h'" "str_ok s"
      "bytes_of s = []" "max_length s = MAX_MAX_LENGTH"
proof -
  have n: "add_int PADDING 0 = Some PADDING" by (simp add: add_int_def PADDING_def INT_MAX_def)
  have eq: "dbus_string_init old h =
     (case dbus_malloc PADDING h of
        (None, h) \<Rightarrow> Some (False, old, h)
      | (Some (a, b), h) \<Rightarrow> do {
          s \<leftarrow> poke \<lparr>block = b, addr = a, align_offset = 0, len = 0, allocated = PADDING,
                    max_length = MAX_MAX_LENGTH, const_data = False, locked = False,
                    invalid = False\<rparr> 0 [0];
          s \<leftarrow> fixup_alignment s;
          Some (True, s, h) })"
    unfolding dbus_string_init_def dbus_string_init_preallocated_def n Option.bind.bind_lunit ..
  show thesis
  proof (cases rule: dbus_malloc_cases [where n = PADDING and h = h, case_names failed granted])
    case (failed h')
    then show thesis using fail eq by simp
  next
    case (granted a b h' used)
    let ?s = "\<lparr>block = 0 # drop 1 b, addr = a, align_offset = 0, len = 0, allocated = PADDING,
                    max_length = MAX_MAX_LENGTH, const_data = False, locked = False,
                    invalid = False\<rparr>"
    have p: "poke \<lparr>block = b, addr = a, align_offset = 0, len = 0, allocated = PADDING,
                    max_length = MAX_MAX_LENGTH, const_data = False, locked = False,
                    invalid = False\<rparr> 0 [0] = Some ?s"
      using granted(2) by (simp add: poke_def write_block_def PADDING_def)
    have "roomy ?s" using granted(2)
      by (simp add: roomy_def string_preamble_def generic_preamble_def PADDING_def MAX_MAX_LENGTH_def INT_MAX_def)
    moreover have "layout ?s [] (bytes_of ?s) (0 # drop 1 b)" by (simp add: layout_def bytes_of_def)
    ultimately obtain s' pre post where s': "fixup_alignment ?s = Some s'" "roomy s'" "aligned s'"
        "layout s' pre (bytes_of ?s) (0 # post)" "max_length s' = max_length ?s"
      using fixup_alignment_ok by metis
    have "bytes_of ?s = []" by (simp add: bytes_of_def)
    then have "str_ok s'" "bytes_of s' = []" using str_okI [OF s'(2,3,4)] by simp_all
    then show thesis using ok [of s' h' used] eq granted p s' by simp
  qed
qed

lemma init_const_len_ok:
  assumes "n \<le> MAX_MAX_LENGTH" "n \<le> length value"
  obtains s where "dbus_string_init_const_len value n = Some s" "readable s" "bytes_of s = take n value" "len s = n"
proof -
  let ?s = "\<lparr>block = value, addr = 0, align_offset = 0, len = n, allocated = n + PADDING,
           max_length = n + 1, const_data = True, locked = True, invalid = False\<rparr>"
  have "dbus_string_init_const_len value n = Some ?s"
    using assms(1) by (simp add: dbus_string_init_const_len_def)
  moreover have "readable ?s" using assms(2) by (simp add: readable_def generic_preamble_def)
  moreover have "bytes_of ?s = take n value" by (simp add: bytes_of_def)
  moreover have "len ?s = n" by simp
  ultimately show thesis by (rule that)
qed

text \<open>\<open>_dbus_string_steal_data\<close> hands out the text with its nul byte, or restores the string.\<close>

lemma undo_alignment_ok:
  assumes "str_ok s"
  obtains s' post where "undo_alignment s = Some s'" "roomy s'" "layout s' [] (bytes_of s) (0 # post)"
    "max_length s' = max_length s" "addr s' = addr s"
proof (cases "align_offset s = 0")
  case True
  from assms obtain pre post where l: "roomy s" "layout s pre (bytes_of s) (0 # post)"
    by (rule str_okE)
  with True have "pre = []" by (simp add: layout_def)
  with l True show thesis using that [of s post] by (simp add: undo_alignment_def)
next
  case False
  from assms obtain pre post where l: "roomy s" "aligned s" "layout s pre (bytes_of s) (0 # post)"
    by (rule str_okE)
  let ?bs = "bytes_of s @ [0]"
  have blk: "block s = pre @ ?bs @ post" "align_offset s = length pre" "len s = length (bytes_of s)"
    using l(3) by (auto simp: layout_def)
  let ?s = "s\<lparr>block := ?bs @ drop (length ?bs) (block s), align_offset := 0\<rparr>"
  have "peek s 0 (len s + 1) = Some ?bs" using blk by (simp add: peek_def read_block_def)
  then have "undo_alignment s = Some ?s" using False blk
    by (simp add: undo_alignment_def write_block_def)
  moreover have "layout ?s [] (bytes_of s) (0 # drop (length ?bs) (block s))"
    using blk by (simp add: layout_def)
  moreover have "length ?bs \<le> length (block s)" using blk by simp
  then have "length (block ?s) = length (block s)" by (simp del: length_append)(simp)
  then have "roomy ?s" using l(1) by (simp add: roomy_def string_preamble_def generic_preamble_def)
  ultimately show thesis using that [of ?s] by simp
qed

lemma steal_data_ok:
  assumes ok: "str_ok s"
  obtains (fail) s' h' where "dbus_string_steal_data s h = Some (None, s', h')" "h = No_Memory # h'"
      "str_ok s'" "bytes_of s' = bytes_of s" "max_length s' = max_length s"
  | (ok) data post s' used h' where "dbus_string_steal_data s h = Some (Some data, s', h')" "h = used @ h'"
      "data = bytes_of s @ 0 # post" "str_ok s'" "bytes_of s' = []" "max_length s' = max_length s"
proof -
  from assms obtain u post where u: "undo_alignment s = Some u" "roomy u" "layout u [] (bytes_of s) (0 # post)"
    "max_length u = max_length s" "addr u = addr s" by (rule undo_alignment_ok)
  have b: "bytes_of u = bytes_of s" using u(3) by (rule layout_bytes)
  have eq: "dbus_string_steal_data s h = do {
     (ok, s', h) \<leftarrow> dbus_string_init u h;
     if \<not> ok then do { s \<leftarrow> fixup_alignment u; Some (None, s, h) }
     else Some (Some (block u), s'\<lparr>max_length := max_length u\<rparr>, h) }"
    unfolding dbus_string_steal_data_def u(1) Option.bind.bind_lunit
  proof (cases rule: init_ok [where old = u and h = h, case_names failed granted])
    case (failed h')
    then show "do { guard (string_preamble s);
        (ok, s', h) \<leftarrow> dbus_string_init u h;
        if \<not> ok then do { s \<leftarrow> fixup_alignment u; Some (None, s, h) }
        else Some (Some (block u), s'\<lparr>max_length := max_length u\<rparr>, h) } = do {
       (ok, s', h) \<leftarrow> dbus_string_init u h;
       if \<not> ok then do { s \<leftarrow> fixup_alignment u; Some (None, s, h) }
       else Some (Some (block u), s'\<lparr>max_length := max_length u\<rparr>, h) }" using assms by simp
  next
    case (granted s' used h')
    then show "do { guard (string_preamble s);
        (ok, s', h) \<leftarrow> dbus_string_init u h;
        if \<not> ok then do { s \<leftarrow> fixup_alignment u; Some (None, s, h) }
        else Some (Some (block u), s'\<lparr>max_length := max_length u\<rparr>, h) } = do {
       (ok, s', h) \<leftarrow> dbus_string_init u h;
       if \<not> ok then do { s \<leftarrow> fixup_alignment u; Some (None, s, h) }
       else Some (Some (block u), s'\<lparr>max_length := max_length u\<rparr>, h) }" using assms by simp
  qed
  show thesis
  proof (cases rule: init_ok [where old = u and h = h, case_names failed granted])
    case (failed h')
    obtain s' pre' post' where "fixup_alignment u = Some s'" "roomy s'" "aligned s'"
        "layout s' pre' (bytes_of u) (0 # post')" "max_length s' = max_length u"
      using fixup_alignment_ok [of u "[]" post] u b by metis
    then show thesis using fail [of s' h'] failed eq str_okI [of s'] u(4) b by simp
  next
    case (granted s' used h')
    let ?s = "s'\<lparr>max_length := max_length u\<rparr>"
    have "max_length u \<le> MAX_MAX_LENGTH" using u(2) by (simp add: roomy_def)
    moreover have "len s' = 0" using granted(3,4) len_bytes [of s'] by simp
    ultimately have "str_ok ?s" "bytes_of ?s = []" using granted(3,4)
      by (auto simp: str_ok_def string_preamble_def generic_preamble_def bytes_of_def)
    moreover have "block u = bytes_of s @ 0 # post" using u(3) by (simp add: layout_def)
    ultimately show thesis using ok [where data = "block u" and s' = ?s and h' = h'] granted eq u(4) by simp
  qed
qed

lemma copy_data_ok:
  assumes s: "str_ok s"
  obtains (fail) h' where "dbus_string_copy_data s h = Some (None, h')" "h = No_Memory # h'"
  | (ok) used h' where "dbus_string_copy_data s h = Some (Some (bytes_of s @ [0]), h')" "h = used @ h'"
proof -
  from s obtain pre post where l: "roomy s" "layout s pre (bytes_of s) (0 # post)" by (rule str_okE)
  have n: "add_int (len s) 1 = Some (len s + 1)"
    using str_ok_bounds [OF s] INT_MAX_pos by (simp add: add_int_def PADDING_def)
  have p: "peek s 0 (len s + 1) = Some (bytes_of s @ [0])"
    using l(2) by (simp add: layout_def peek_def read_block_def)
  have eq: "dbus_string_copy_data s h =
     (case dbus_malloc (len s + 1) h of
        (None, h) \<Rightarrow> Some (None, h)
      | (Some (a, b), h) \<Rightarrow> do {
          b \<leftarrow> write_block b 0 (bytes_of s @ [0]);
          Some (Some b, h) })"
    using s unfolding dbus_string_copy_data_def n p Option.bind.bind_lunit by simp
  show thesis
  proof (cases rule: dbus_malloc_cases [where n = "len s + 1" and h = h, case_names failed granted])
    case (failed h')
    then show thesis using fail eq by simp
  next
    case (granted a b h' used)
    then show thesis using s that(2) [of h' used] eq by (simp add: write_block_def)
  qed
qed

lemma compact_ok:
  assumes ok: "str_ok s"
  shows "contract s h (\<lambda>bs. bs = bytes_of s) 0 (dbus_string_compact s w h)"
proof -
  from ok obtain pre post where l: "roomy s" "aligned s" "layout s pre (bytes_of s) (0 # post)" by (rule str_okE)
  define n where "n = len s + PADDING"
  show ?thesis
  proof (cases "allocated s - n \<le> w")
    case True
    then show ?thesis using ok
      by (simp add: dbus_string_compact_def string_compact_def n_def contract_okI [where used = "[]"])
  next
    case False
    have eq: "dbus_string_compact s w h = (case dbus_realloc (block s) n h of
          (None, h) \<Rightarrow> Some (False, s, h)
        | (Some (a, b), h) \<Rightarrow> do {
            s \<leftarrow> fixup_alignment (s\<lparr>block := b, addr := a, allocated := n\<rparr>);
            Some (True, s, h) })"
      using ok False [unfolded n_def]
      unfolding dbus_string_compact_def string_compact_def Let_def n_def by simp
    have lenpre: "length pre < 8" "len s = length (bytes_of s)"
      using l by (auto simp: aligned_def layout_def)
    have shrunk: "\<exists>p. take n (block s @ junk @ replicate n 0) = pre @ bytes_of s @ 0 # p" for junk
    proof -
      have "n = length (pre @ bytes_of s @ [0]) + (7 - length pre)"
        using lenpre by (simp add: n_def PADDING_def)
      moreover have "block s = (pre @ bytes_of s @ [0]) @ post" using l(3) by (simp add: layout_def)
      ultimately have "take n (block s @ junk @ replicate n 0) =
          (pre @ bytes_of s @ [0]) @ take (7 - length pre) (post @ junk @ replicate n 0)"
        by (metis append_assoc append_take_drop_id take_add append_eq_conv_conj)
      then show ?thesis by simp
    qed
    have granted: "contract s h (\<lambda>bs. bs = bytes_of s) 0
        (do { s \<leftarrow> fixup_alignment (s\<lparr>block := fresh (block s @ junk) n, addr := a, allocated := n\<rparr>); Some (True, s, h') })"
      if "h = used @ h'" for a junk used h'
    proof -
      let ?s = "s\<lparr>block := fresh (block s @ junk) n, addr := a, allocated := n\<rparr>"
      obtain p where p: "fresh (block s @ junk) n = pre @ bytes_of s @ 0 # p"
        using shrunk [of junk] by (auto simp: fresh_def)
      have lay: "layout ?s pre (bytes_of ?s) (0 # p)" "bytes_of ?s = bytes_of s"
        using p l(3) by (auto simp: layout_def bytes_of_def)
      moreover have "roomy ?s" using l(1) str_ok_bounds [OF ok]
        by (auto simp: roomy_def string_preamble_def generic_preamble_def n_def)
      ultimately obtain s' pre' post' where "fixup_alignment ?s = Some s'" "roomy s'" "aligned s'"
          "layout s' pre' (bytes_of ?s) (0 # post')" "max_length s' = max_length ?s"
        using fixup_alignment_ok by metis
      then show ?thesis using lay(2) str_okI [of s' pre' "bytes_of s" post'] that
        by (simp add: contract_okI)
    qed
    show ?thesis
    proof (cases h)
      case Nil
      then show ?thesis using eq granted [where used = "[]" and h' = "[]" and junk = "[]" and a = 0] by simp
    next
      case (Cons x h')
      show ?thesis
      proof (cases x)
        case No_Memory
        then show ?thesis using Cons eq ok by (simp add: contract_failI [where used = "[No_Memory]"])
      next
        case (Memory a junk)
        then show ?thesis using Cons eq granted [where used = "[x]" and h' = h' and junk = junk and a = a] by simp
      qed
    qed
  qed
qed

lemma zero_ok:
  assumes "str_ok s"
  obtains s' where "dbus_string_zero s = Some s'" "str_ok s'" "block s' = replicate (allocated s) 0"
    "bytes_of s' = replicate (len s) 0" "max_length s' = max_length s"
  using assms that [of "s\<lparr>block := replicate (allocated s) 0\<rparr>"] str_ok_bounds [OF assms]
  by (auto simp: dbus_string_zero_def write_block_def str_ok_def bytes_of_def string_preamble_def
      generic_preamble_def PADDING_def)

text \<open>Aligned insertion: nul bytes up to the boundary, then the gap.\<close>

lemma align_value_bounds:
  assumes "1 \<le> k"
  shows "a \<le> align_value a k" "align_value a k < a + k" "align_value (align_value a k) k = align_value a k"
proof -
  define q where "q = (a + (k - 1)) div k"
  define r where "r = (a + (k - 1)) mod k"
  have "q * k + r = a + (k - 1)" "r < k" using assms by (simp_all add: q_def r_def)
  moreover have av: "align_value a k = q * k" by (simp add: align_value_def q_def)
  ultimately show "a \<le> align_value a k" "align_value a k < a + k" by linarith+
  have "(q * k + (k - 1)) div k = q" using assms
    by (metis Suc_pred' add.commute div_less div_mult_self3 lessI not_less_eq_eq plus_1_eq_Suc
        add_0 add_cancel_left_left less_one not_gr_zero not_one_le_zero)
  then show "align_value (align_value a k) k = align_value a k" unfolding av by (simp add: align_value_def)
qed

definition padding :: "nat \<Rightarrow> nat \<Rightarrow> nat" where
  "padding i alignment = align_value i alignment - i"

lemma align_gap_ok:
  assumes s: "str_ok s" "i \<le> len s" and al: "1 \<le> al" "al \<le> 8"
  obtains (fail) s' used h' where "align_insert_point_then_open_gap s i al n h = Some (False, s', i, h')"
      "h = used @ h'" "str_ok s'" "max_length s' = max_length s" "bytes_of s' = bytes_of s"
      "No_Memory \<in> set used \<or> max_length s < len s + padding i al + n"
  | (ok) s' xs used h' where
      "align_insert_point_then_open_gap s i al n h = Some (True, s', align_value i al, h')"
      "h = used @ h'" "str_ok s'" "max_length s' = max_length s"
      "bytes_of s' = splice i 0 (replicate (padding i al) 0 @ xs) (bytes_of s)" "length xs = n"
proof -
  define gap_pos where "gap_pos = align_value i al"
  define pad where "pad = gap_pos - i"
  have pos: "gap_pos = i + pad" using align_value_bounds [OF al(1), of i] by (simp add: gap_pos_def pad_def)
  have padding: "padding i al = pad" by (simp add: padding_def pad_def gap_pos_def)
  have eq: "align_insert_point_then_open_gap s i al n h =
    (if len s + pad + n > max_length s then Some (False, s, i, h)
     else if pad + n = 0 then Some (True, s, i, h)
       else do {
         (ok, s, h) \<leftarrow> open_gap (pad + n) s i h;
         if \<not> ok then Some (False, s, i, h)
         else do {
           s \<leftarrow> (if n < pad + n then poke s i (replicate pad 0) else Some s);
           Some (True, s, gap_pos, h) } })"
  proof -
    have g: "guard (string_preamble s \<and> 1 \<le> al \<and> al \<le> 8 \<and> i \<le> len s) = Some ()" using s al by simp
    have d: "gap_pos - i = pad" "len s + pad + n - len s = pad + n" by (simp_all add: pad_def)
    have none: "guard (i = gap_pos) = Some ()" if "pad + n = 0" using that pos by simp
    show ?thesis
      unfolding align_insert_point_then_open_gap_def Let_def gap_pos_def [symmetric] g d Option.bind.bind_lunit
      using none by simp
  qed
  consider (long) "len s + pad + n > max_length s"
    | (none) "len s + pad + n \<le> max_length s" "pad + n = 0"
    | (go) "len s + pad + n \<le> max_length s" "pad + n \<noteq> 0" by linarith
  then show thesis
  proof cases
    case long
    then show thesis using fail [of s h "[]"] eq s padding by simp
  next
    case none
    then show thesis using ok [of s h "[]" "[]"] eq s padding pos
      by (simp add: splice_def gap_pos_def)
  next
    case go
    from open_gap_ok [OF s, of h "pad + n"] show thesis
    proof (cases rule: contractE)
      case 1: (ok s' used h')
      then obtain ys where ys: "bytes_of s' = take i (bytes_of s) @ ys @ drop i (bytes_of s)" "length ys = pad + n"
        by blast
      have l: "len s' = len s + pad + n"
        using ys s 1(3) len_bytes [of s'] by simp
      then have fits: "i + length (replicate pad (0 :: byte)) \<le> len s'" using s(2) by simp
      obtain s'' where s'': "poke s' i (replicate pad 0) = Some s''" "str_ok s''" "max_length s'' = max_length s'"
        "bytes_of s'' = take i (bytes_of s') @ replicate pad 0 @ drop (i + length (replicate pad (0 :: byte))) (bytes_of s')"
        by (rule poke_ok [OF 1(3) fits])
      have b: "bytes_of s'' = splice i 0 (replicate pad 0 @ drop pad ys) (bytes_of s)"
        using s''(4) ys s by (simp add: splice_def)
      show thesis
      proof (cases "pad = 0")
        case True
        then show thesis using ok [where s' = s' and h' = h' and used = used and xs = ys] eq go 1 ys padding pos
          by (simp add: splice_def gap_pos_def)
      next
        case False
        then show thesis using ok [where s' = s'' and h' = h' and used = used and xs = "drop pad ys"] eq go 1 ys padding
            s'' b by (simp add: gap_pos_def)
      qed
    next
      case 2: (fail s' used h')
      then show thesis using fail [of s' h' used] eq go padding by (simp add: add.assoc)
    qed
  qed
qed

text \<open>Its clients fill the gap.\<close>

lemma fill_aligned_gap:
  assumes s: "str_ok s" "i \<le> len s" and al: "1 \<le> al" "al \<le> 8" and n: "length octets = n"
    and k: "\<And>s' h'. k s' (align_value i al) h' = do { s'' \<leftarrow> poke s' (align_value i al) octets; Some (True, s'', h') }"
  shows "contract s h (\<lambda>bs. bs = splice i 0 (replicate (padding i al) 0 @ octets) (bytes_of s))
     (len s + padding i al + n)
     (do { (ok, s', p, h') \<leftarrow> align_insert_point_then_open_gap s i al n h;
           if \<not> ok then Some (False, s', h') else k s' p h' })"
  using s al
proof (cases rule: align_gap_ok [where n = n and h = h])
  case (fail s' used h')
  then show ?thesis by (simp add: contract_failI)
next
  case (ok s' xs used h')
  have pos: "align_value i al = i + padding i al"
    using align_value_bounds [OF al(1), of i] by (simp add: padding_def)
  have "length (bytes_of s') = len s + padding i al + n"
    using ok(5,6) s n length_splice [of i 0 "bytes_of s"] by simp
  then have fits: "align_value i al + length octets \<le> len s'" using ok(3) s(2) n pos by simp
  obtain s'' where s'': "poke s' (align_value i al) octets = Some s''" "str_ok s''" "max_length s'' = max_length s'"
    "bytes_of s'' = take (align_value i al) (bytes_of s') @ octets @ drop (align_value i al + length octets) (bytes_of s')"
    by (rule poke_ok [OF ok(3) fits])
  have "bytes_of s'' = splice i 0 (replicate (padding i al) 0 @ octets) (bytes_of s)"
    unfolding s''(4) ok(5) pos n using s ok(6) by (simp add: splice_def)
  with s'' ok k show ?thesis by (simp add: contract_okI)
qed

lemma insert_2_aligned_ok:
  assumes "str_ok s" "i \<le> len s" "2 \<le> length octets"
  shows "contract s h (\<lambda>bs. bs = splice i 0 (replicate (padding i 2) 0 @ take 2 octets) (bytes_of s))
     (len s + padding i 2 + 2) (dbus_string_insert_2_aligned s i octets h)"
  using fill_aligned_gap [OF assms(1,2), where al = 2 and n = 2 and octets = "take 2 octets" and h = h
      and k = "\<lambda>s p h. do { bs \<leftarrow> read_block octets 0 2; s \<leftarrow> poke s p bs; Some (True, s, h) }"] assms
  by (simp add: dbus_string_insert_2_aligned_def read_block_def)

lemma insert_4_aligned_ok:
  assumes "str_ok s" "i \<le> len s" "4 \<le> length octets"
  shows "contract s h (\<lambda>bs. bs = splice i 0 (replicate (padding i 4) 0 @ take 4 octets) (bytes_of s))
     (len s + padding i 4 + 4) (dbus_string_insert_4_aligned s i octets h)"
  using fill_aligned_gap [OF assms(1,2), where al = 4 and n = 4 and octets = "take 4 octets" and h = h
      and k = "\<lambda>s p h. do { bs \<leftarrow> read_block octets 0 4; s \<leftarrow> poke s p bs; Some (True, s, h) }"] assms
  by (simp add: dbus_string_insert_4_aligned_def read_block_def)

lemma insert_8_aligned_ok:
  assumes "str_ok s" "i \<le> len s" "8 \<le> length octets"
  shows "contract s h (\<lambda>bs. bs = splice i 0 (replicate (padding i 8) 0 @ take 8 octets) (bytes_of s))
     (len s + padding i 8 + 8) (dbus_string_insert_8_aligned s i octets h)"
  using fill_aligned_gap [OF assms(1,2), where al = 8 and n = 8 and octets = "take 8 octets" and h = h
      and k = "\<lambda>s p h. do { guard (align_value p 8 = p); bs \<leftarrow> read_block octets 0 8; s \<leftarrow> poke s p bs; Some (True, s, h) }"]
    assms align_value_bounds(3) [of 8 i]
  by (simp add: dbus_string_insert_8_aligned_def read_block_def)

lemma align_length_ok:
  assumes s: "str_ok s" and al: "1 \<le> al" "al \<le> 8"
  shows "contract s h (\<lambda>bs. bs = bytes_of s @ replicate (padding (len s) al) 0)
     (len s + padding (len s) al) (dbus_string_align_length s al h)"
  using s le_refl al
proof (cases rule: align_gap_ok [where n = 0 and h = h])
  case (fail s' used h')
  then show ?thesis using s
    by (simp add: dbus_string_align_length_def align_length_then_lengthen_def dbus_string_get_length_def contract_failI)
next
  case (ok s' xs used h')
  then show ?thesis using s
    by (simp add: dbus_string_align_length_def align_length_then_lengthen_def dbus_string_get_length_def
        splice_end contract_okI)
qed

lemma alloc_space_ok:
  assumes s: "str_ok s"
  shows "contract s h (\<lambda>bs. bs = bytes_of s) (len s + n) (dbus_string_alloc_space s n h)"
  unfolding dbus_string_alloc_space_def
proof (rule contract_then [OF lengthen_ok [OF s]])
  fix s' h'
  assume s': "str_ok s'" "\<exists>xs. bytes_of s' = bytes_of s @ xs \<and> length xs = n"
  then obtain xs where xs: "bytes_of s' = bytes_of s @ xs" "length xs = n" by blast
  then have l: "len s' = len s + n" using s'(1) s len_bytes [of s'] by simp
  then have "len s \<le> len s'" by simp
  then obtain s'' where "set_length s' (len s) h' = Some (True, s'', h')" "str_ok s''" "max_length s'' = max_length s'"
    "bytes_of s'' = take (len s) (bytes_of s')" by (rule set_length_shorter [OF s'(1)])
  then show "\<exists>s''. do { (s, h) \<leftarrow> dbus_string_shorten s' n h'; Some (True, s, h) } = Some (True, s'', h') \<and>
      str_ok s'' \<and> max_length s'' = max_length s' \<and> bytes_of s'' = bytes_of s"
    using l xs s s'(1) by (simp add: dbus_string_shorten_def)
qed

subsection \<open>Editing sessions\<close>

text \<open>A caller that edits a pair of strings and keeps to the positions the operations accept.
  \<open>edit_fits\<close> is what it checks, \<open>edit_effect\<close> what the edit means for the texts, \<open>edit_cost\<close>
  how much room it may need.\<close>

datatype edit = Insert_Bytes nat nat byte | Insert_Byte nat byte | Append "byte list"
  | Append_Len "byte list" nat | Append_Byte byte | Delete nat nat | Shorten nat
  | Insert_2_Aligned nat "byte list" | Insert_4_Aligned nat "byte list" | Insert_8_Aligned nat "byte list"
  | Align_Length nat | Alloc_Space nat | Compact nat | Copy_Len nat nat nat
  | Replace_Len nat nat nat nat | Move_Len nat nat nat | Exchange

fun edit_fits :: "edit \<Rightarrow> byte list \<times> byte list \<Rightarrow> bool" where
  "edit_fits (Insert_Bytes i n b) (xs, ys) \<longleftrightarrow> i \<le> length ys"
| "edit_fits (Insert_Byte i b) (xs, ys) \<longleftrightarrow> i \<le> length ys"
| "edit_fits (Append buffer) (xs, ys) \<longleftrightarrow> 0 \<in> set buffer"
| "edit_fits (Append_Len buffer n) (xs, ys) \<longleftrightarrow> n \<le> length buffer"
| "edit_fits (Append_Byte b) (xs, ys) \<longleftrightarrow> True"
| "edit_fits (Delete i n) (xs, ys) \<longleftrightarrow> i + n \<le> length ys"
| "edit_fits (Shorten n) (xs, ys) \<longleftrightarrow> n \<le> length ys"
| "edit_fits (Insert_2_Aligned i octets) (xs, ys) \<longleftrightarrow> i \<le> length ys \<and> 2 \<le> length octets"
| "edit_fits (Insert_4_Aligned i octets) (xs, ys) \<longleftrightarrow> i \<le> length ys \<and> 4 \<le> length octets"
| "edit_fits (Insert_8_Aligned i octets) (xs, ys) \<longleftrightarrow> i \<le> length ys \<and> 8 \<le> length octets"
| "edit_fits (Align_Length k) (xs, ys) \<longleftrightarrow> 1 \<le> k \<and> k \<le> 8"
| "edit_fits (Alloc_Space n) (xs, ys) \<longleftrightarrow> True"
| "edit_fits (Compact w) (xs, ys) \<longleftrightarrow> True"
| "edit_fits (Copy_Len start n i) (xs, ys) \<longleftrightarrow> start + n \<le> length xs \<and> i \<le> length ys"
| "edit_fits (Replace_Len start n i m) (xs, ys) \<longleftrightarrow> start + n \<le> length xs \<and> i + m \<le> length ys"
| "edit_fits (Move_Len start n i) (xs, ys) \<longleftrightarrow> start + n \<le> length xs \<and> i \<le> length ys"
| "edit_fits Exchange (xs, ys) \<longleftrightarrow> True"

fun edit_effect :: "edit \<Rightarrow> byte list \<times> byte list \<Rightarrow> byte list \<times> byte list" where
  "edit_effect (Insert_Bytes i n b) (xs, ys) = (xs, splice i 0 (replicate n b) ys)"
| "edit_effect (Insert_Byte i b) (xs, ys) = (xs, splice i 0 [b] ys)"
| "edit_effect (Append buffer) (xs, ys) = (xs, ys @ c_string buffer)"
| "edit_effect (Append_Len buffer n) (xs, ys) = (xs, ys @ take n buffer)"
| "edit_effect (Append_Byte b) (xs, ys) = (xs, ys @ [b])"
| "edit_effect (Delete i n) (xs, ys) = (xs, splice i n [] ys)"
| "edit_effect (Shorten n) (xs, ys) = (xs, take (length ys - n) ys)"
| "edit_effect (Insert_2_Aligned i octets) (xs, ys) = (xs, splice i 0 (replicate (padding i 2) 0 @ take 2 octets) ys)"
| "edit_effect (Insert_4_Aligned i octets) (xs, ys) = (xs, splice i 0 (replicate (padding i 4) 0 @ take 4 octets) ys)"
| "edit_effect (Insert_8_Aligned i octets) (xs, ys) = (xs, splice i 0 (replicate (padding i 8) 0 @ take 8 octets) ys)"
| "edit_effect (Align_Length k) (xs, ys) = (xs, ys @ replicate (padding (length ys) k) 0)"
| "edit_effect (Alloc_Space n) (xs, ys) = (xs, ys)"
| "edit_effect (Compact w) (xs, ys) = (xs, ys)"
| "edit_effect (Copy_Len start n i) (xs, ys) = (xs, splice i 0 (take n (drop start xs)) ys)"
| "edit_effect (Replace_Len start n i m) (xs, ys) = (xs, splice i m (take n (drop start xs)) ys)"
| "edit_effect (Move_Len start n i) (xs, ys) = (splice start n [] xs, splice i 0 (take n (drop start xs)) ys)"
| "edit_effect Exchange (xs, ys) = (ys, xs)"

fun edit_cost :: "edit \<Rightarrow> nat" where
  "edit_cost (Insert_Bytes i n b) = n"
| "edit_cost (Insert_Byte i b) = 1"
| "edit_cost (Append buffer) = length buffer"
| "edit_cost (Append_Len buffer n) = n"
| "edit_cost (Append_Byte b) = 1"
| "edit_cost (Insert_2_Aligned i octets) = 3"
| "edit_cost (Insert_4_Aligned i octets) = 7"
| "edit_cost (Insert_8_Aligned i octets) = 15"
| "edit_cost (Align_Length k) = 7"
| "edit_cost (Alloc_Space n) = n"
| "edit_cost (Copy_Len start n i) = n"
| "edit_cost (Replace_Len start n i m) = n"
| "edit_cost _ = 0"

definition run_edit ::
    "edit \<Rightarrow> real_string \<times> real_string \<Rightarrow> heap \<Rightarrow> (bool \<times> (real_string \<times> real_string) \<times> heap) option" where
  "run_edit e st h =
     (let on_dest = (\<lambda>r. do { (ok, t, h) \<leftarrow> r; Some (ok, (fst st, t), h) }) in
      case e of
        Insert_Bytes i n b \<Rightarrow> on_dest (dbus_string_insert_bytes (snd st) i n b h)
      | Insert_Byte i b \<Rightarrow> on_dest (dbus_string_insert_byte (snd st) i b h)
      | Append buffer \<Rightarrow> on_dest (dbus_string_append (snd st) buffer h)
      | Append_Len buffer n \<Rightarrow> on_dest (dbus_string_append_len (snd st) buffer n h)
      | Append_Byte b \<Rightarrow> on_dest (dbus_string_append_byte (snd st) b h)
      | Delete i n \<Rightarrow> on_dest (do { t \<leftarrow> dbus_string_delete (snd st) i n; Some (True, t, h) })
      | Shorten n \<Rightarrow> on_dest (do { (t, h) \<leftarrow> dbus_string_shorten (snd st) n h; Some (True, t, h) })
      | Insert_2_Aligned i octets \<Rightarrow> on_dest (dbus_string_insert_2_aligned (snd st) i octets h)
      | Insert_4_Aligned i octets \<Rightarrow> on_dest (dbus_string_insert_4_aligned (snd st) i octets h)
      | Insert_8_Aligned i octets \<Rightarrow> on_dest (dbus_string_insert_8_aligned (snd st) i octets h)
      | Align_Length k \<Rightarrow> on_dest (dbus_string_align_length (snd st) k h)
      | Alloc_Space n \<Rightarrow> on_dest (dbus_string_alloc_space (snd st) n h)
      | Compact w \<Rightarrow> on_dest (dbus_string_compact (snd st) w h)
      | Copy_Len start n i \<Rightarrow> on_dest (dbus_string_copy_len (fst st) start n (snd st) i h)
      | Replace_Len start n i m \<Rightarrow> on_dest (dbus_string_replace_len (fst st) start n (snd st) i m h)
      | Move_Len start n i \<Rightarrow> do {
          (ok, s, t, h) \<leftarrow> dbus_string_move_len (fst st) start n (snd st) i h;
          Some (ok, (s, t), h) }
      | Exchange \<Rightarrow> Some (True, (snd st, fst st), h))"

definition texts :: "real_string \<times> real_string \<Rightarrow> byte list \<times> byte list" where
  "texts st = (bytes_of (fst st), bytes_of (snd st))"

fun run_edits ::
    "edit list \<Rightarrow> real_string \<times> real_string \<Rightarrow> heap \<Rightarrow> (bool list \<times> (real_string \<times> real_string) \<times> heap) option" where
  "run_edits [] st h = Some ([], st, h)"
| "run_edits (e # es) st h =
     (if edit_fits e (texts st) then do {
        (ok, st, h) \<leftarrow> run_edit e st h;
        (oks, st, h) \<leftarrow> run_edits es st h;
        Some (ok # oks, st, h) }
      else do {
        (oks, st, h) \<leftarrow> run_edits es st h;
        Some (False # oks, st, h) })"

text \<open>The texts of a session in which exactly the marked edits took effect.\<close>

fun edits_effect :: "(edit \<times> bool) list \<Rightarrow> byte list \<times> byte list \<Rightarrow> byte list \<times> byte list" where
  "edits_effect [] xy = xy"
| "edits_effect ((e, ok) # es) xy = edits_effect es (if ok then edit_effect e xy else xy)"

definition pair_ok :: "real_string \<times> real_string \<Rightarrow> bool" where
  "pair_ok st \<longleftrightarrow> str_ok (fst st) \<and> str_ok (snd st) \<and> max_length (fst st) = max_length (snd st)"

text \<open>What one edit does, in the terms of the session.\<close>

definition edited :: "edit \<Rightarrow> real_string \<times> real_string \<Rightarrow> heap \<Rightarrow>
    (bool \<times> (real_string \<times> real_string) \<times> heap) option \<Rightarrow> bool" where
  "edited e st h r \<longleftrightarrow> (\<exists>ok st' used h'. r = Some (ok, st', h') \<and> h = used @ h' \<and> pair_ok st' \<and>
     max_length (snd st') = max_length (snd st) \<and>
     texts st' = (if ok then edit_effect e (texts st) else texts st) \<and>
     (\<not> ok \<longrightarrow> No_Memory \<in> set used \<or> max_length (snd st) < length (fst (texts st)) + length (snd (texts st)) + edit_cost e))"

lemma edited_okI:
  "r = Some (True, st', h') \<Longrightarrow> h = used @ h' \<Longrightarrow> pair_ok st' \<Longrightarrow> max_length (snd st') = max_length (snd st) \<Longrightarrow>
     texts st' = edit_effect e (texts st) \<Longrightarrow> edited e st h r"
  unfolding edited_def by (intro exI [of _ True] exI [of _ st'] exI [of _ used] exI [of _ h']) simp

lemma edited_failI:
  "r = Some (False, st', h') \<Longrightarrow> h = used @ h' \<Longrightarrow> pair_ok st' \<Longrightarrow> max_length (snd st') = max_length (snd st) \<Longrightarrow>
     texts st' = texts st \<Longrightarrow>
     No_Memory \<in> set used \<or> max_length (snd st) < length (fst (texts st)) + length (snd (texts st)) + edit_cost e \<Longrightarrow>
     edited e st h r"
  unfolding edited_def by (intro exI [of _ False] exI [of _ st'] exI [of _ used] exI [of _ h']) simp

lemma edited_dest:
  assumes c: "contract (snd st) h (\<lambda>bs. bs = zs) need r" and st: "pair_ok st"
    and "edit_effect e (texts st) = (fst (texts st), zs)"
    and "need \<le> length (fst (texts st)) + length (snd (texts st)) + edit_cost e"
  shows "edited e st h (do { (ok, t, h) \<leftarrow> r; Some (ok, (fst st, t), h) })"
  using c
proof (cases rule: contractE)
  case (ok t used h')
  then show ?thesis using st assms(3)
    by (intro edited_okI [where st' = "(fst st, t)" and used = used and h' = h']) (simp_all add: pair_ok_def texts_def)
next
  case (fail t used h')
  then show ?thesis using st assms(4)
    by (intro edited_failI [where st' = "(fst st, t)" and used = used and h' = h']) (auto simp: pair_ok_def texts_def)
qed

lemma padding_less: "1 \<le> k \<Longrightarrow> padding i k < k"
  using align_value_bounds [of k i] by (auto simp: padding_def)

lemma run_edit_edited:
  assumes st: "pair_ok st" and fits: "edit_fits e (texts st)"
  shows "edited e st h (run_edit e st h)"
proof -
  have s: "str_ok (fst st)" "str_ok (snd st)" and m: "max_length (fst st) = max_length (snd st)"
    using st by (simp_all add: pair_ok_def)
  have l: "length (fst (texts st)) = len (fst st)" "length (snd (texts st)) = len (snd st)"
    using s by (simp_all add: texts_def)
  have p: "padding i 2 \<le> 1" "padding i 4 \<le> 3" "padding i 8 \<le> 7" for i
    using padding_less [of 2 i] padding_less [of 4 i] padding_less [of 8 i] by simp_all
  show ?thesis
  proof (cases e)
    case (Insert_Bytes i n b)
    show ?thesis using edited_dest [OF insert_bytes_ok st, of i e n b h] s fits l
      by (simp add: Insert_Bytes run_edit_def texts_def)
  next
    case (Insert_Byte i b)
    show ?thesis using edited_dest [OF insert_byte_ok st, of i e b h] s fits l
      by (simp add: Insert_Byte run_edit_def texts_def)
  next
    case (Append buffer)
    have "length (c_string buffer) \<le> length buffer" by (simp add: c_string_def length_takeWhile_le)
    then show ?thesis using edited_dest [OF append_ok st, of buffer e h] s fits l
      by (simp add: Append run_edit_def texts_def)
  next
    case (Append_Len buffer n)
    show ?thesis using edited_dest [OF append_len_ok st, of n buffer e h] s fits l
      by (simp add: Append_Len run_edit_def texts_def)
  next
    case (Append_Byte b)
    show ?thesis using edited_dest [OF append_byte_ok st, of e b h] s fits l
      by (simp add: Append_Byte run_edit_def texts_def)
  next
    case (Delete i n)
    have r: "i \<le> len (snd st)" "n \<le> len (snd st) - i" using fits l by (simp_all add: Delete texts_def)
    obtain t where "dbus_string_delete (snd st) i n = Some t" "str_ok t" "max_length t = max_length (snd st)"
      "bytes_of t = splice i n [] (bytes_of (snd st))"
      by (rule delete_ok [OF s(2) r])
    then show ?thesis using s m by (intro edited_okI [where used = "[]" and st' = "(fst st, t)" and h' = h]) (simp_all add: Delete run_edit_def texts_def pair_ok_def)
  next
    case (Shorten n)
    have r: "n \<le> len (snd st)" using fits l by (simp add: Shorten texts_def)
    have "len (snd st) - n \<le> len (snd st)" by simp
    then obtain t where "set_length (snd st) (len (snd st) - n) h = Some (True, t, h)" "str_ok t"
      "max_length t = max_length (snd st)" "bytes_of t = take (len (snd st) - n) (bytes_of (snd st))"
      by (rule set_length_shorter [OF s(2)])
    then show ?thesis using s m r l
      by (intro edited_okI [where used = "[]" and st' = "(fst st, t)" and h' = h])
        (simp_all add: Shorten run_edit_def texts_def pair_ok_def dbus_string_shorten_def)
  next
    case (Insert_2_Aligned i octets)
    show ?thesis using edited_dest [OF insert_2_aligned_ok st, of i octets e h] s fits l p(1) [of i]
      by (simp add: Insert_2_Aligned run_edit_def texts_def)
  next
    case (Insert_4_Aligned i octets)
    show ?thesis using edited_dest [OF insert_4_aligned_ok st, of i octets e h] s fits l p(2) [of i]
      by (simp add: Insert_4_Aligned run_edit_def texts_def)
  next
    case (Insert_8_Aligned i octets)
    show ?thesis using edited_dest [OF insert_8_aligned_ok st, of i octets e h] s fits l p(3) [of i]
      by (simp add: Insert_8_Aligned run_edit_def texts_def)
  next
    case (Align_Length k)
    have k: "1 \<le> k" "k \<le> 8" using fits by (simp_all add: Align_Length texts_def)
    then have "padding (len (snd st)) k \<le> 7" using padding_less [of k "len (snd st)"] by simp
    then show ?thesis using edited_dest [OF align_length_ok [OF s(2) k] st, of e h] l
      by (simp add: Align_Length run_edit_def texts_def)
  next
    case (Alloc_Space n)
    show ?thesis using edited_dest [OF alloc_space_ok st, of e n h] s l
      by (simp add: Alloc_Space run_edit_def texts_def)
  next
    case (Compact w)
    show ?thesis using edited_dest [OF compact_ok st, where e = e and h = h] s
      by (simp add: Compact run_edit_def texts_def)
  next
    case (Copy_Len start n i)
    have "n \<le> len (fst st) - start" using fits l by (auto simp: Copy_Len texts_def)
    then show ?thesis using edited_dest [OF copy_len_ok st, of i "fst st" start n e h] s fits l
      by (simp add: Copy_Len run_edit_def texts_def)
  next
    case (Replace_Len start n i k)
    have "n \<le> len (fst st) - start" "k \<le> len (snd st) - i" using fits l by (auto simp: Replace_Len texts_def)
    then show ?thesis using edited_dest [OF replace_len_ok st, of i k "fst st" start n e h] s fits l
      by (simp add: Replace_Len run_edit_def texts_def)
  next
    case (Move_Len start n i)
    have r: "start + n \<le> len (fst st)" "i \<le> len (snd st)" using fits l by (simp_all add: Move_Len texts_def)
    obtain ok s' t' used h' where mv:
      "dbus_string_move_len (fst st) start n (snd st) i h = Some (ok, s', t', h')" "h = used @ h'"
      "str_ok s'" "str_ok t'" "max_length s' = max_length (fst st)" "max_length t' = max_length (snd st)"
      "if ok then bytes_of t' = splice i 0 (take n (drop start (bytes_of (fst st)))) (bytes_of (snd st))
              \<and> bytes_of s' = splice start n [] (bytes_of (fst st))
       else bytes_of t' = bytes_of (snd st) \<and> s' = fst st
              \<and> (No_Memory \<in> set used \<or> max_length (snd st) < len (snd st) + n)"
      by (rule move_len_ok [OF s(1) r(1) s(2) r(2) m])
    then show ?thesis using s m r l
    proof (cases ok)
      case True
      with mv s m show ?thesis
        by (intro edited_okI [where used = used and st' = "(s', t')" and h' = h']) (simp_all add: Move_Len run_edit_def texts_def pair_ok_def)
    next
      case False
      with mv s m l r show ?thesis
        by (intro edited_failI [where used = used and st' = "(s', t')" and h' = h']) (auto simp: Move_Len run_edit_def texts_def pair_ok_def)
    qed
  next
    case Exchange
    then show ?thesis using s m by (intro edited_okI [where used = "[]" and st' = "(snd st, fst st)" and h' = h]) (simp_all add: run_edit_def pair_ok_def texts_def)
  qed
qed

text \<open>How much an edit can lengthen the texts.\<close>

lemma edit_growth:
  assumes "edit_fits e (xs, ys)"
  shows "length (fst (edit_effect e (xs, ys))) + length (snd (edit_effect e (xs, ys)))
     \<le> length xs + length ys + edit_cost e"
proof -
  have p: "padding i 2 \<le> 1" "padding i 4 \<le> 3" "padding i 8 \<le> 7" for i
    using padding_less [of 2 i] padding_less [of 4 i] padding_less [of 8 i] by simp_all
  show ?thesis
  proof (cases e)
    case (Append buffer)
    then show ?thesis by (simp add: c_string_def length_takeWhile_le)
  next
    case (Insert_2_Aligned i octets)
    then show ?thesis using assms p(1) [of i] by (simp add: splice_def)
  next
    case (Insert_4_Aligned i octets)
    then show ?thesis using assms p(2) [of i] by (simp add: splice_def)
  next
    case (Insert_8_Aligned i octets)
    then show ?thesis using assms p(3) [of i] by (simp add: splice_def)
  next
    case (Align_Length k)
    then show ?thesis using assms padding_less [of k "length ys"] by simp
  qed (use assms in \<open>auto simp: splice_def\<close>)
qed

lemma run_edits_ok:
  assumes "pair_ok st"
  shows "\<exists>oks st' h'. run_edits es st h = Some (oks, st', h') \<and> pair_ok st' \<and>
     length oks = length es \<and> texts st' = edits_effect (zip es oks) (texts st)"
  using assms
proof (induction es arbitrary: st h)
  case (Cons e es)
  show ?case
  proof (cases "edit_fits e (texts st)")
    case True
    from run_edit_edited [OF Cons.prems True, of h] obtain ok st1 h1 where
      e: "run_edit e st h = Some (ok, st1, h1)" "pair_ok st1"
        "texts st1 = (if ok then edit_effect e (texts st) else texts st)"
      unfolding edited_def by (elim exE conjE) (rule that)
    from Cons.IH [OF e(2), of h1] obtain oks st' h' where
      "run_edits es st1 h1 = Some (oks, st', h')" "pair_ok st'" "length oks = length es"
      "texts st' = edits_effect (zip es oks) (texts st1)" by blast
    then show ?thesis using e True by (simp add: exI [of _ "ok # oks"])
  next
    case False
    from Cons.IH [OF Cons.prems, of h] obtain oks st' h' where
      "run_edits es st h = Some (oks, st', h')" "pair_ok st'" "length oks = length es"
      "texts st' = edits_effect (zip es oks) (texts st)" by blast
    then show ?thesis using False by (simp add: exI [of _ "False # oks"])
  qed
qed simp

lemma run_edits_succeed:
  assumes "pair_ok st" and "No_Memory \<notin> set h"
    and "\<forall>i < length es. edit_fits (es ! i) (foldl (\<lambda>xy e. edit_effect e xy) (texts st) (take i es))"
    and "length (fst (texts st)) + length (snd (texts st)) + sum_list (map edit_cost es) \<le> max_length (snd st)"
  shows "\<exists>st' h'. run_edits es st h = Some (replicate (length es) True, st', h')"
  using assms
proof (induction es arbitrary: st h)
  case (Cons e es)
  have fits: "edit_fits e (texts st)" using Cons.prems(3) by force
  from run_edit_edited [OF Cons.prems(1) fits, of h] obtain ok st1 used h1 where
    e: "run_edit e st h = Some (ok, st1, h1)" "h = used @ h1" "pair_ok st1"
      "max_length (snd st1) = max_length (snd st)"
      "texts st1 = (if ok then edit_effect e (texts st) else texts st)"
      "\<not> ok \<longrightarrow> No_Memory \<in> set used \<or> max_length (snd st) < length (fst (texts st)) + length (snd (texts st)) + edit_cost e"
    unfolding edited_def by (elim exE conjE) (rule that)
  have ok: "ok" using e(2,6) Cons.prems(2,4) by auto
  have "length (fst (texts st1)) + length (snd (texts st1)) \<le> length (fst (texts st)) + length (snd (texts st)) + edit_cost e"
    using edit_growth [of e "fst (texts st)" "snd (texts st)"] fits e(5) ok by simp
  then have room: "length (fst (texts st1)) + length (snd (texts st1)) + sum_list (map edit_cost es) \<le> max_length (snd st1)"
    using Cons.prems(4) e(4) by simp
  have "\<forall>i < length es. edit_fits (es ! i) (foldl (\<lambda>xy e. edit_effect e xy) (texts st1) (take i es))"
  proof (intro allI impI)
    fix i assume "i < length es"
    then show "edit_fits (es ! i) (foldl (\<lambda>xy e. edit_effect e xy) (texts st1) (take i es))"
      using Cons.prems(3) [rule_format, of "Suc i"] e(5) ok by simp
  qed
  moreover have "No_Memory \<notin> set h1" using Cons.prems(2) e(2) by simp
  ultimately obtain st' h' where "run_edits es st1 h1 = Some (replicate (length es) True, st', h')"
    using Cons.IH [OF e(3) _ _ room] by blast
  then show ?case using e(1) ok fits by simp
qed simp


definition empty_string :: real_string where
  "empty_string = \<lparr>block = replicate 8 0, addr = 0, align_offset = 0, len = 0, allocated = 8,
     max_length = MAX_MAX_LENGTH, const_data = False, locked = False, invalid = False\<rparr>"

lemma empty_string_ok: "str_ok empty_string" "bytes_of empty_string = []"
  by (simp_all add: empty_string_def str_ok_def string_preamble_def generic_preamble_def PADDING_def
      MAX_MAX_LENGTH_def INT_MAX_def bytes_of_def)


end
