(* ===== verification/String_Scan.thy ===== *)
theory String_Scan
  imports Dbus_String
begin

text \<open>
  Reading strings (\<open>dbus/dbus-string.c\<close>): the searches, the whitespace scanners, lines and words, and
  the comparisons. Every byte is read through \<open>byte_at\<close>, so that a scanner that ran off the string
  would fault; a C string argument is the memory its pointer leads to. The theorems say what the
  scanners return in terms of the text \<open>bytes_of\<close>.
\<close>

section \<open>The code\<close>

text \<open>A byte of a C string, read from the memory its pointer leads to.\<close>

definition c_at :: "byte list \<Rightarrow> nat \<Rightarrow> byte option" where
  "c_at p i = (if i < length p then Some (p ! i) else None)"

definition is_ascii_blank :: "byte \<Rightarrow> bool" where
  "is_ascii_blank c \<longleftrightarrow> c = 0x20 \<or> c = 0x09"

definition is_ascii_white :: "byte \<Rightarrow> bool" where
  "is_ascii_white c \<longleftrightarrow> c = 0x20 \<or> c = 0x09 \<or> c = 0x0A \<or> c = 0x0D"

subsection \<open>Searching\<close>

text \<open>The inner loop of \<open>_dbus_string_find_to\<close> advances \<open>j\<close> while the bytes agree.\<close>

function match_loop :: "real_string \<Rightarrow> byte list \<Rightarrow> nat \<Rightarrow> nat \<Rightarrow> nat \<Rightarrow> nat option" where
  "match_loop s substr end i j =
     (if j < end then do {
        c \<leftarrow> c_at substr (j - i);
        if c = 0 then Some j
        else do {
          b \<leftarrow> byte_at s j;
          if b \<noteq> c then Some j else match_loop s substr end i (j + 1) } }
      else Some j)"
  by pat_completeness auto
termination by (relation "measure (\<lambda>(s, substr, end, i, j). end - j)") auto

function find_loop :: "real_string \<Rightarrow> byte list \<Rightarrow> nat \<Rightarrow> nat \<Rightarrow> (bool \<times> nat) option" where
  "find_loop s substr end i =
     (if i < end then do {
        b \<leftarrow> byte_at s i;
        c \<leftarrow> c_at substr 0;
        hit \<leftarrow> (if b = c then do {
            j \<leftarrow> match_loop s substr end i (i + 1);
            c \<leftarrow> c_at substr (j - i);
            Some (c = 0) }
          else Some False);
        if hit then Some (True, i) else find_loop s substr end (i + 1) }
      else Some (False, end))"
  by pat_completeness auto
termination by (relation "measure (\<lambda>(s, substr, end, i). end - i)") auto

definition dbus_string_find_to :: "real_string \<Rightarrow> nat \<Rightarrow> nat \<Rightarrow> byte list \<Rightarrow> (bool \<times> nat) option" where
  "dbus_string_find_to s start end substr = do {
     guard (generic_preamble s \<and> start \<le> len s \<and> end \<le> len s \<and> start \<le> end);
     c \<leftarrow> c_at substr 0;
     if c = 0 then Some (True, start) else find_loop s substr end start }"

definition dbus_string_find :: "real_string \<Rightarrow> nat \<Rightarrow> byte list \<Rightarrow> (bool \<times> nat) option" where
  "dbus_string_find s start substr = dbus_string_find_to s start (len s) substr"

text \<open>\<open>found\<close> and \<open>found_len\<close>.\<close>

function eol_loop :: "real_string \<Rightarrow> nat \<Rightarrow> (bool \<times> nat \<times> nat) option" where
  "eol_loop s i =
     (if i < len s then do {
        b \<leftarrow> byte_at s i;
        if b = 0x0D then
          if i + 1 < len s then do {
            b \<leftarrow> byte_at s (i + 1);
            Some (True, i, if b = 0x0A then 2 else 1) }
          else Some (True, i, 1)
        else if b = 0x0A then Some (True, i, 1)
        else eol_loop s (i + 1) }
      else Some (False, len s, 0))"
  by pat_completeness auto
termination by (relation "measure (\<lambda>(s, i). len s - i)") auto

definition dbus_string_find_eol :: "real_string \<Rightarrow> nat \<Rightarrow> (bool \<times> nat \<times> nat) option" where
  "dbus_string_find_eol s start = do {
     guard (generic_preamble s \<and> start \<le> len s);
     eol_loop s start }"

text \<open>The loops that look for the first byte that is, or is not, of a kind; \<open>stop\<close> is the test that
  ends them.\<close>

function scan_loop :: "(byte \<Rightarrow> bool) \<Rightarrow> real_string \<Rightarrow> nat \<Rightarrow> nat option" where
  "scan_loop stop s i =
     (if i < len s then do {
        b \<leftarrow> byte_at s i;
        if stop b then Some i else scan_loop stop s (i + 1) }
      else Some i)"
  by pat_completeness auto
termination by (relation "measure (\<lambda>(stop, s, i). len s - i)") auto

definition dbus_string_find_blank :: "real_string \<Rightarrow> nat \<Rightarrow> (bool \<times> nat) option" where
  "dbus_string_find_blank s start = do {
     guard (generic_preamble s \<and> start \<le> len s);
     i \<leftarrow> scan_loop is_ascii_blank s start;
     Some (i < len s, i) }"

definition dbus_string_skip_blank :: "real_string \<Rightarrow> nat \<Rightarrow> nat option" where
  "dbus_string_skip_blank s start = do {
     guard (generic_preamble s \<and> start \<le> len s);
     i \<leftarrow> scan_loop (\<lambda>b. \<not> is_ascii_blank b) s start;
     (if i = len s then Some i
      else do { b \<leftarrow> byte_at s i; guard (\<not> is_ascii_white b); Some i }) }"

definition dbus_string_skip_white :: "real_string \<Rightarrow> nat \<Rightarrow> nat option" where
  "dbus_string_skip_white s start = do {
     guard (generic_preamble s \<and> start \<le> len s);
     i \<leftarrow> scan_loop (\<lambda>b. \<not> is_ascii_white b) s start;
     (if i = len s then Some i
      else do { b \<leftarrow> byte_at s i; guard (\<not> is_ascii_white b); Some i }) }"

fun reverse_loop :: "real_string \<Rightarrow> nat \<Rightarrow> nat option" where
  "reverse_loop s 0 = Some 0"
| "reverse_loop s (Suc i) = do {
     b \<leftarrow> byte_at s i;
     if \<not> is_ascii_white b then Some (Suc i) else reverse_loop s i }"

definition dbus_string_skip_white_reverse :: "real_string \<Rightarrow> nat \<Rightarrow> nat option" where
  "dbus_string_skip_white_reverse s end = do {
     guard (generic_preamble s \<and> end \<le> len s);
     i \<leftarrow> reverse_loop s end;
     (if i = 0 then Some i
      else do { b \<leftarrow> byte_at s (i - 1); guard (\<not> is_ascii_white b); Some i }) }"

subsection \<open>Lines and words\<close>

definition dbus_string_pop_line ::
    "real_string \<Rightarrow> real_string \<Rightarrow> heap \<Rightarrow> (bool \<times> real_string \<times> real_string \<times> heap) option" where
  "dbus_string_pop_line source dest h = do {
     (ok, dest, h) \<leftarrow> dbus_string_set_length dest 0 h;
     (found, eol, eol_len) \<leftarrow> dbus_string_find_eol source 0;
     guard (\<not> found \<longrightarrow> eol = len source);
     if \<not> found \<and> eol = 0 then Some (False, source, dest, h)
     else do {
       (ok, source, dest, h) \<leftarrow> dbus_string_move_len source 0 (eol + eol_len) dest 0 h;
       if \<not> ok then Some (False, source, dest, h)
       else do {
         (ok, dest, h) \<leftarrow> dbus_string_set_length dest eol h;
         guard ok;
         Some (True, source, dest, h) } } }"

definition dbus_string_split_on_byte ::
    "real_string \<Rightarrow> byte \<Rightarrow> real_string \<Rightarrow> heap \<Rightarrow> (bool \<times> real_string \<times> real_string \<times> heap) option" where
  "dbus_string_split_on_byte source b tail h = do {
     (found, byte_position) \<leftarrow> dbus_string_find source 0 [b, 0];
     if \<not> found then Some (False, source, tail, h)
     else do {
       n \<leftarrow> dbus_string_get_length source;
       guard (byte_position + 1 \<le> n);
       (ok, source, tail, h) \<leftarrow>
         dbus_string_move_len source (byte_position + 1) (n - byte_position - 1) tail 0 h;
       if \<not> ok then Some (False, source, tail, h)
       else do {
         (ok, source, h) \<leftarrow> dbus_string_set_length source byte_position h;
         Some (ok, source, tail, h) } } }"

definition dbus_string_chop_white :: "real_string \<Rightarrow> heap \<Rightarrow> (real_string \<times> heap) option" where
  "dbus_string_chop_white s h = do {
     i \<leftarrow> dbus_string_skip_white s 0;
     s \<leftarrow> (if i > 0 then dbus_string_delete s 0 i else Some s);
     n \<leftarrow> dbus_string_get_length s;
     i \<leftarrow> dbus_string_skip_white_reverse s n;
     (ok, s, h) \<leftarrow> dbus_string_set_length s i h;
     Some (s, h) }"

subsection \<open>Comparison\<close>

text \<open>The loop that all comparisons share: \<open>n\<close> more bytes at \<open>i\<close> and \<open>j\<close>.\<close>

fun equal_loop :: "real_string \<Rightarrow> nat \<Rightarrow> real_string \<Rightarrow> nat \<Rightarrow> nat \<Rightarrow> bool option" where
  "equal_loop a i b j 0 = Some True"
| "equal_loop a i b j (Suc n) = do {
     x \<leftarrow> byte_at a i;
     y \<leftarrow> byte_at b j;
     if x \<noteq> y then Some False else equal_loop a (i + 1) b (j + 1) n }"

definition dbus_string_equal :: "real_string \<Rightarrow> real_string \<Rightarrow> bool option" where
  "dbus_string_equal a b = do {
     guard (generic_preamble a \<and> generic_preamble b);
     if len a \<noteq> len b then Some False else equal_loop a 0 b 0 (len a) }"

definition dbus_string_equal_len :: "real_string \<Rightarrow> real_string \<Rightarrow> nat \<Rightarrow> bool option" where
  "dbus_string_equal_len a b n = do {
     guard (generic_preamble a \<and> generic_preamble b);
     if len a \<noteq> len b \<and> (len a < n \<or> len b < n) then Some False
     else equal_loop a 0 b 0 (min (len a) n) }"

definition dbus_string_equal_substring :: "real_string \<Rightarrow> nat \<Rightarrow> nat \<Rightarrow> real_string \<Rightarrow> nat \<Rightarrow> bool option" where
  "dbus_string_equal_substring a a_start a_len b b_start = do {
     guard (generic_preamble a \<and> generic_preamble b \<and> a_start \<le> len a \<and> a_len \<le> len a - a_start \<and>
            b_start \<le> len b);
     if a_len > len b - b_start then Some False else equal_loop a a_start b b_start a_len }"

text \<open>\<open>_dbus_string_equal_c_str\<close> compares \<open>n\<close> remaining bytes of the string with the C string.\<close>

fun equal_c_loop :: "real_string \<Rightarrow> nat \<Rightarrow> byte list \<Rightarrow> nat \<Rightarrow> bool option" where
  "equal_c_loop a i c_str 0 = do { c \<leftarrow> c_at c_str i; Some (c = 0) }"
| "equal_c_loop a i c_str (Suc n) = do {
     c \<leftarrow> c_at c_str i;
     if c = 0 then Some False
     else do {
       b \<leftarrow> byte_at a i;
       if b \<noteq> c then Some False else equal_c_loop a (i + 1) c_str n } }"

definition dbus_string_equal_c_str :: "real_string \<Rightarrow> byte list \<Rightarrow> bool option" where
  "dbus_string_equal_c_str a c_str = do { guard (generic_preamble a); equal_c_loop a 0 c_str (len a) }"

section \<open>What the scanners return\<close>

declare match_loop.simps [simp del] find_loop.simps [simp del] eol_loop.simps [simp del] scan_loop.simps [simp del]

lemma byte_at_readable: "readable s \<Longrightarrow> i < len s \<Longrightarrow> byte_at s i = Some (bytes_of s ! i)"
  using peek_readable [of s i 1] by (simp add: byte_at_def hd_drop_conv_nth take_Suc hd_conv_nth)

lemma readable_preamble [simp]: "readable s \<Longrightarrow> generic_preamble s"
  by (simp add: readable_def)

subsection \<open>Blanks and whitespace\<close>

lemma scan_loop_spec:
  assumes "readable s" "i \<le> len s"
  shows "scan_loop stop s i = Some (i + length (takeWhile (\<lambda>b. \<not> stop b) (drop i (bytes_of s))))"
  using assms
proof (induction stop s i rule: scan_loop.induct)
  case (1 stop s i)
  show ?case
  proof (cases "i < len s")
    case True
    then have b: "byte_at s i = Some (bytes_of s ! i)" "drop i (bytes_of s) = bytes_of s ! i # drop (Suc i) (bytes_of s)"
      using 1 byte_at_readable by (simp_all add: Cons_nth_drop_Suc)
    then show ?thesis using 1 True by (subst scan_loop.simps) simp
  next
    case False
    then show ?thesis using 1 by (subst scan_loop.simps) simp
  qed
qed

lemma takeWhile_stop:
  "i + length (takeWhile P (drop i xs)) < length xs \<Longrightarrow> \<not> P (xs ! (i + length (takeWhile P (drop i xs))))"
  using nth_length_takeWhile [of P "drop i xs"] by (simp add: less_diff_conv add.commute)

lemma takeWhile_drop_le: "i \<le> length xs \<Longrightarrow> i + length (takeWhile P (drop i xs)) \<le> length xs"
  using length_takeWhile_le [of P "drop i xs"] by simp

lemma skip_white_spec:
  assumes "readable s" "i \<le> len s"
  shows "dbus_string_skip_white s i = Some (i + length (takeWhile is_ascii_white (drop i (bytes_of s))))"
proof -
  let ?j = "i + length (takeWhile is_ascii_white (drop i (bytes_of s)))"
  have "?j \<le> len s" using takeWhile_drop_le [of i "bytes_of s" is_ascii_white] assms by simp
  moreover have "\<not> is_ascii_white (bytes_of s ! ?j)" if "?j < len s"
    using takeWhile_stop [of i is_ascii_white "bytes_of s"] that assms by simp
  ultimately show ?thesis using assms byte_at_readable [of s ?j]
    by (auto simp: dbus_string_skip_white_def scan_loop_spec)
qed

text \<open>\<open>_dbus_string_skip_blank\<close> fails its assertion when a line end follows the blanks.\<close>

lemma skip_blank_spec:
  assumes "readable s" "i \<le> len s"
  shows "dbus_string_skip_blank s i =
    (let j = i + length (takeWhile is_ascii_blank (drop i (bytes_of s))) in
     if j < len s \<and> is_ascii_white (bytes_of s ! j) then None else Some j)"
proof -
  let ?j = "i + length (takeWhile is_ascii_blank (drop i (bytes_of s)))"
  have "?j \<le> len s" using takeWhile_drop_le [of i "bytes_of s" is_ascii_blank] assms by simp
  then show ?thesis using assms byte_at_readable [of s ?j]
    by (auto simp: dbus_string_skip_blank_def scan_loop_spec Let_def)
qed

lemma find_blank_spec:
  assumes "readable s" "i \<le> len s"
  shows "dbus_string_find_blank s i =
    (let j = i + length (takeWhile (\<lambda>b. \<not> is_ascii_blank b) (drop i (bytes_of s))) in Some (j < len s, j))"
  using assms by (simp add: dbus_string_find_blank_def scan_loop_spec Let_def)

lemma reverse_loop_spec:
  "readable s \<Longrightarrow> i \<le> len s \<Longrightarrow>
     reverse_loop s i = Some (i - length (takeWhile is_ascii_white (rev (take i (bytes_of s)))))"
proof (induction i)
  case (Suc i)
  then have "take (Suc i) (bytes_of s) = take i (bytes_of s) @ [bytes_of s ! i]"
    by (simp add: take_Suc_conv_app_nth)
  then show ?case using Suc byte_at_readable [of s i] by simp
qed simp

lemma skip_white_reverse_spec:
  assumes "readable s" "i \<le> len s"
  shows "dbus_string_skip_white_reverse s i =
    Some (i - length (takeWhile is_ascii_white (rev (take i (bytes_of s)))))"
proof -
  let ?t = "rev (take i (bytes_of s))"
  let ?n = "length (takeWhile is_ascii_white ?t)"
  have "\<not> is_ascii_white (bytes_of s ! (i - ?n - 1))" if "?n < i"
  proof -
    have "\<not> is_ascii_white (?t ! ?n)"
      using nth_length_takeWhile [of is_ascii_white ?t] that assms by simp
    moreover have "?t ! ?n = bytes_of s ! (i - ?n - 1)" using that assms by (simp add: rev_nth)
    ultimately show ?thesis by simp
  qed
  then show ?thesis using assms byte_at_readable [of s "i - ?n - 1"]
    by (auto simp: dbus_string_skip_white_reverse_def reverse_loop_spec)
qed

subsection \<open>Substrings\<close>

text \<open>The substring occurs at \<open>i\<close>, before \<open>end\<close>.\<close>

definition occurs :: "byte list \<Rightarrow> byte list \<Rightarrow> nat \<Rightarrow> nat \<Rightarrow> bool" where
  "occurs needle xs end i \<longleftrightarrow> i + length needle \<le> end \<and> take (length needle) (drop i xs) = needle"

lemma c_at_c_string:
  assumes "0 \<in> set p" "i \<le> length (c_string p)"
  shows "c_at p i = Some (if i = length (c_string p) then 0 else c_string p ! i)"
proof -
  have l: "length (c_string p) < length p"
    using assms(1) length_takeWhile_le [of "\<lambda>b. b \<noteq> 0" p] takeWhile_eq_all_conv [of "\<lambda>b. b \<noteq> 0" p]
    unfolding c_string_def by (metis le_neq_implies_less takeWhile_eq_take take_all order_refl)
  moreover have "p ! length (c_string p) = 0"
    using nth_length_takeWhile [of "\<lambda>b. b \<noteq> 0" p] l by (simp add: c_string_def)
  moreover have "i < length (c_string p) \<Longrightarrow> p ! i = c_string p ! i"
    by (simp add: c_string_def takeWhile_nth)
  ultimately show ?thesis using assms(2) by (auto simp: c_at_def)
qed

lemma c_string_no_nul: "i < length (c_string p) \<Longrightarrow> c_string p ! i \<noteq> 0"
  unfolding c_string_def using set_takeWhileD [OF nth_mem] by blast

lemma match_loop_spec:
  assumes "readable s" "end \<le> len s" "0 \<in> set substr" "i < j" "j \<le> end" "j - i \<le> length (c_string substr)"
    and "take (j - i) (drop i (bytes_of s)) = take (j - i) (c_string substr)"
  shows "\<exists>k. match_loop s substr end i j = Some k \<and> i < k \<and> k - i \<le> length (c_string substr) \<and>
    (k - i = length (c_string substr) \<longleftrightarrow> occurs (c_string substr) (bytes_of s) end i)"
  using assms
proof (induction s substr "end" i j rule: match_loop.induct)
  case (1 s substr "end" i j)
  let ?n = "c_string substr"
  note c = c_at_c_string [OF 1(4), of "j - i"]
  show ?case
  proof (cases "j < end")
    case False
    then have "occurs ?n (bytes_of s) end i \<longleftrightarrow> j - i = length ?n"
      using 1(5-8) by (auto simp: occurs_def)
    then show ?thesis using False 1(5,7) by (subst match_loop.simps) simp
  next
    case True
    have b: "byte_at s j = Some (bytes_of s ! j)" using byte_at_readable 1(2,3) True by simp
    show ?thesis
    proof (cases "j - i = length ?n")
      case at_end: True
      then have "occurs ?n (bytes_of s) end i" using 1(5,6,8) by (auto simp: occurs_def)
      then show ?thesis using True c at_end 1(5) by (subst match_loop.simps) simp
    next
      case False
      then have lt: "j - i < length ?n" using 1(7) by simp
      have ext: "take (Suc (j - i)) (drop i (bytes_of s)) = take (j - i) ?n @ [bytes_of s ! j]"
        using 1(2,3,5,8) True by (simp add: take_Suc_conv_app_nth)
      have ext_n: "take (Suc (j - i)) ?n = take (j - i) ?n @ [?n ! (j - i)]"
        using lt by (simp add: take_Suc_conv_app_nth)
      show ?thesis
      proof (cases "bytes_of s ! j = ?n ! (j - i)")
        case agree: True
        have "\<exists>k. match_loop s substr end i (j + 1) = Some k \<and> i < k \<and> k - i \<le> length ?n \<and>
            (k - i = length ?n \<longleftrightarrow> occurs ?n (bytes_of s) end i)"
        proof (rule 1(1) [OF True])
          show "c_at substr (j - i) = Some (?n ! (j - i))" using c lt by simp
          show "?n ! (j - i) \<noteq> 0" using c_string_no_nul lt by simp
          show "byte_at s j = Some (bytes_of s ! j)" by (rule b)
          show "\<not> bytes_of s ! j \<noteq> ?n ! (j - i)" using agree by simp
          show "take (j + 1 - i) (drop i (bytes_of s)) = take (j + 1 - i) ?n"
            using ext ext_n agree 1(5) by (simp add: Suc_diff_le)
        qed (use 1 lt True in auto)
        moreover have "match_loop s substr end i j = match_loop s substr end i (j + 1)"
          using True c lt b agree c_string_no_nul [OF lt] by (subst match_loop.simps) simp
        ultimately show ?thesis by simp
      next
        case differ: False
        have "\<not> occurs ?n (bytes_of s) end i"
        proof
          assume "occurs ?n (bytes_of s) end i"
          then have "take (length ?n) (drop i (bytes_of s)) = ?n" by (simp add: occurs_def)
          then have "take (Suc (j - i)) (drop i (bytes_of s)) = take (Suc (j - i)) ?n"
            using lt by (metis Suc_leI min.absorb1 take_take)
          then show False using ext ext_n differ by simp
        qed
        moreover have "match_loop s substr end i j = Some j"
          using True c lt b differ c_string_no_nul [OF lt] by (subst match_loop.simps) simp
        ultimately show ?thesis using lt 1(5) by auto
      qed
    qed
  qed
qed

declare occurs_def [simp del]

lemma find_loop_spec:
  assumes "readable s" "end \<le> len s" "0 \<in> set substr" "c_string substr \<noteq> []" "i \<le> end"
  shows "find_loop s substr end i =
    Some (case List.find (occurs (c_string substr) (bytes_of s) end) [i..<end] of
            Some k \<Rightarrow> (True, k) | None \<Rightarrow> (False, end))"
  using assms
proof (induction "end - i" arbitrary: i rule: less_induct)
  case (less i)
  let ?n = "c_string substr"
  show ?case
  proof (cases "i < end")
    case False
    then show ?thesis by (subst find_loop.simps) simp
  next
    case True
    have b: "byte_at s i = Some (bytes_of s ! i)" using byte_at_readable assms(1,2) True by simp
    have c: "c_at substr 0 = Some (?n ! 0)" using c_at_c_string [OF assms(3), of 0] assms(4) by simp
    have list: "[i..<end] = i # [i + 1..<end]" using True by (simp add: upt_conv_Cons)
    have here: "(if bytes_of s ! i = ?n ! 0 then do {
            j \<leftarrow> match_loop s substr end i (i + 1);
            c \<leftarrow> c_at substr (j - i);
            Some (c = 0) } else Some False) = Some (occurs ?n (bytes_of s) end i)"
    proof (cases "bytes_of s ! i = ?n ! 0")
      case hit: True
      have "take (i + 1 - i) (drop i (bytes_of s)) = take (i + 1 - i) ?n"
        using hit assms(1,2,4) True by (cases ?n) (simp_all add: take_Suc_conv_app_nth)
      then obtain k where k: "match_loop s substr end i (i + 1) = Some k" "i < k" "k - i \<le> length ?n"
        "k - i = length ?n \<longleftrightarrow> occurs ?n (bytes_of s) end i"
        using match_loop_spec [OF assms(1,2,3), of i "i + 1"] True assms(4) by (fastforce simp: Suc_le_eq)
      then show ?thesis using hit c_at_c_string [OF assms(3) k(3)] c_string_no_nul [of "k - i" substr] by auto
    next
      case False
      then have "\<not> occurs ?n (bytes_of s) end i"
        using assms(1,2,4) True by (cases ?n) (auto simp: occurs_def take_Suc_conv_app_nth Cons_nth_drop_Suc [symmetric])
      then show ?thesis using False by simp
    qed
    have step: "find_loop s substr end i =
       (if occurs ?n (bytes_of s) end i then Some (True, i) else find_loop s substr end (i + 1))"
      using True unfolding find_loop.simps [of s substr "end" i] b c Option.bind.bind_lunit here by simp
    show ?thesis
    proof (cases "occurs ?n (bytes_of s) end i")
      case hit: True
      then show ?thesis using step list by simp
    next
      case miss: False
      have "find_loop s substr end (i + 1) =
        Some (case List.find (occurs ?n (bytes_of s) end) [i + 1..<end] of
            Some k \<Rightarrow> (True, k) | None \<Rightarrow> (False, end))"
        by (rule less(1)) (use assms True in auto)
      then show ?thesis using step list miss by simp
    qed
  qed
qed

lemma find_to_spec:
  assumes "readable s" "start \<le> end" "end \<le> len s" "0 \<in> set substr"
  shows "dbus_string_find_to s start end substr =
    Some (if c_string substr = [] then (True, start)
          else case List.find (occurs (c_string substr) (bytes_of s) end) [start..<end] of
            Some k \<Rightarrow> (True, k) | None \<Rightarrow> (False, end))"
  using assms c_at_c_string [OF assms(4), of 0] find_loop_spec [OF assms(1,3,4) _ assms(2)]
    c_string_no_nul [of 0 substr]
  by (auto simp: dbus_string_find_to_def)

subsection \<open>Lines\<close>

definition is_eol :: "byte \<Rightarrow> bool" where
  "is_eol b \<longleftrightarrow> b = 0x0D \<or> b = 0x0A"

text \<open>The first line of a text, the length of what ends it, and the rest.\<close>

definition first_line :: "byte list \<Rightarrow> byte list" where
  "first_line xs = takeWhile (\<lambda>b. \<not> is_eol b) xs"

definition eol_length :: "byte list \<Rightarrow> nat" where
  "eol_length xs = (case drop (length (first_line xs)) xs of
     [] \<Rightarrow> 0
   | c # cs \<Rightarrow> if c = 0x0D \<and> cs \<noteq> [] \<and> hd cs = 0x0A then 2 else 1)"

definition after_line :: "byte list \<Rightarrow> byte list" where
  "after_line xs = drop (length (first_line xs) + eol_length xs) xs"

lemma eol_loop_spec:
  assumes "readable s" "i \<le> len s"
  shows "eol_loop s i =
    (let line = first_line (drop i (bytes_of s)) in
     Some (i + length line < len s, i + length line, eol_length (drop i (bytes_of s))))"
  using assms
proof (induction s i rule: eol_loop.induct)
  case (1 s i)
  show ?case
  proof (cases "i < len s")
    case False
    then show ?thesis using 1 by (subst eol_loop.simps) (simp add: first_line_def eol_length_def)
  next
    case True
    have b: "byte_at s i = Some (bytes_of s ! i)" using byte_at_readable 1 True by simp
    have d: "drop i (bytes_of s) = bytes_of s ! i # drop (Suc i) (bytes_of s)"
      using True 1 by (simp add: Cons_nth_drop_Suc)
    consider (cr) "bytes_of s ! i = 0x0D" | (lf) "bytes_of s ! i = 0x0A"
      | (no) "\<not> is_eol (bytes_of s ! i)" by (auto simp: is_eol_def)
    then show ?thesis
    proof cases
      case cr
      have n: "byte_at s (i + 1) = Some (bytes_of s ! (i + 1))"
          "hd (drop (Suc i) (bytes_of s)) = bytes_of s ! (i + 1)" if "i + 1 < len s"
        using byte_at_readable that 1 by (simp_all add: hd_drop_conv_nth)
      show ?thesis using True b d cr n 1
        by (subst eol_loop.simps) (auto simp: first_line_def eol_length_def is_eol_def)
    next
      case lf
      then show ?thesis using True b d 1
        by (subst eol_loop.simps) (auto simp: first_line_def eol_length_def is_eol_def)
    next
      case no
      then have ne: "bytes_of s ! i \<noteq> 0x0D" "bytes_of s ! i \<noteq> 0x0A" by (auto simp: is_eol_def)
      have "eol_loop s i = eol_loop s (i + 1)"
        using True b ne by (subst eol_loop.simps) simp
      moreover have "first_line (drop i (bytes_of s)) = bytes_of s ! i # first_line (drop (i + 1) (bytes_of s))"
        using d no by (simp add: first_line_def)
      moreover from this have "eol_length (drop i (bytes_of s)) = eol_length (drop (i + 1) (bytes_of s))"
        by (simp add: eol_length_def d)
      ultimately show ?thesis using 1(1) [OF True b] ne 1(2) True by (simp add: Let_def)
    qed
  qed
qed

lemma find_eol_spec:
  assumes "readable s"
  shows "dbus_string_find_eol s 0 =
    Some (length (first_line (bytes_of s)) < len s, length (first_line (bytes_of s)), eol_length (bytes_of s))"
  using assms eol_loop_spec [OF assms, of 0] by (simp add: dbus_string_find_eol_def Let_def)

lemma line_fits: "length (first_line xs) + eol_length xs \<le> length xs"
proof (cases "drop (length (first_line xs)) xs")
  case Nil
  then show ?thesis by (simp add: eol_length_def first_line_def length_takeWhile_le)
next
  case (Cons c cs)
  then have "length xs = length (first_line xs) + Suc (length cs)"
    by (metis Cons append_take_drop_id first_line_def length_Cons length_append takeWhile_eq_take)
  then show ?thesis using Cons by (cases cs) (auto simp: eol_length_def)
qed

lemma line_progress: "xs \<noteq> [] \<Longrightarrow> 0 < length (first_line xs) + eol_length xs"
  by (cases xs) (auto simp: first_line_def eol_length_def)

lemma no_line: "length (first_line xs) < length xs \<or> xs = [] \<or> 0 < length (first_line xs)"
  by (cases xs) (auto simp: first_line_def)

text \<open>Popping a line: the line goes to \<open>dest\<close> and is gone from \<open>source\<close>.\<close>

lemma pop_line_ok:
  assumes s: "str_ok source" and t: "str_ok dest" and m: "max_length source = max_length dest"
  obtains (empty) dest' where "bytes_of source = []" "dbus_string_pop_line source dest h = Some (False, source, dest', h)"
      "str_ok dest'" "max_length dest' = max_length dest"
  | (fail) dest' used h' where "dbus_string_pop_line source dest h = Some (False, source, dest', h')"
      "h = used @ h'" "No_Memory \<in> set used" "str_ok dest'" "max_length dest' = max_length dest"
  | (line) source' dest' used h' where "bytes_of source \<noteq> []"
      "dbus_string_pop_line source dest h = Some (True, source', dest', h')" "h = used @ h'"
      "str_ok source'" "str_ok dest'" "max_length source' = max_length source" "max_length dest' = max_length dest"
      "bytes_of dest' = first_line (bytes_of source)" "bytes_of source' = after_line (bytes_of source)"
proof -
  let ?xs = "bytes_of source"
  define n where "n = length (first_line ?xs) + eol_length ?xs"
  have "0 \<le> len dest" by simp
  then obtain d where dd: "set_length dest 0 h = Some (True, d, h)" "str_ok d" "max_length d = max_length dest"
    "bytes_of d = take 0 (bytes_of dest)"
    by (rule set_length_shorter [OF t])
  note d = dd(1,2,3) dd(4) [unfolded take_0]
  have d0: "len d = 0" using d(2,4) len_bytes [of d] by simp
  have lxs: "len source = length ?xs" using s by simp
  have eol: "dbus_string_find_eol source 0 =
     Some (length (first_line ?xs) < length ?xs, length (first_line ?xs), eol_length ?xs)"
    using find_eol_spec [OF str_ok_readable [OF s], unfolded lxs] .
  have ass: "guard (\<not> length (first_line ?xs) < length ?xs \<longrightarrow> length (first_line ?xs) = len source) = Some ()"
    using length_takeWhile_le [of "\<lambda>b. \<not> is_eol b" ?xs] lxs by (simp add: first_line_def)
  have eq: "dbus_string_pop_line source dest h =
     (if \<not> length (first_line ?xs) < length ?xs \<and> length (first_line ?xs) = 0 then Some (False, source, d, h)
      else do {
       (ok, source, dest, h) \<leftarrow> dbus_string_move_len source 0 n d 0 h;
       if \<not> ok then Some (False, source, dest, h)
       else do {
         (ok, dest, h) \<leftarrow> dbus_string_set_length dest (length (first_line ?xs)) h;
         guard ok;
         Some (True, source, dest, h) } })"
  proof -
    have g: "dbus_string_set_length dest 0 h = Some (True, d, h)"
      using t d(1) by (simp add: dbus_string_set_length_def)
    show ?thesis
      unfolding dbus_string_pop_line_def g eol Option.bind.bind_lunit prod.case ass n_def ..
  qed
  show thesis
  proof (cases "?xs = []")
    case True
    then show thesis using empty [of d] eq d by (simp add: first_line_def)
  next
    case False
    have cond: "\<not> (\<not> length (first_line ?xs) < length ?xs \<and> length (first_line ?xs) = 0)"
      using no_line [of ?xs] False by auto
    have fits: "0 + n \<le> len source" "0 \<le> len d" using line_fits [of ?xs] lxs by (simp_all add: n_def)
    obtain ok source' dest' used h' where mv:
      "dbus_string_move_len source 0 n d 0 h = Some (ok, source', dest', h')" "h = used @ h'"
      "str_ok source'" "str_ok dest'" "max_length source' = max_length source" "max_length dest' = max_length d"
      "if ok then bytes_of dest' = splice 0 0 (take n (drop 0 ?xs)) (bytes_of d) \<and> bytes_of source' = splice 0 n [] ?xs
       else bytes_of dest' = bytes_of d \<and> source' = source \<and> (No_Memory \<in> set used \<or> max_length d < len d + n)"
      by (rule move_len_ok [OF s fits(1) d(2) fits(2), of h]) (use m d in simp_all)
    show thesis
    proof (cases ok)
      case moved: True
      then have b: "bytes_of dest' = take n ?xs" "bytes_of source' = drop n ?xs"
        using mv(7) d(4) by (simp_all add: splice_def)
      have "length (first_line ?xs) \<le> len dest'"
        using mv(4) b(1) len_bytes [of dest'] line_fits [of ?xs] by (simp add: n_def)
      then obtain dest'' where d2: "set_length dest' (length (first_line ?xs)) h' = Some (True, dest'', h')"
        "str_ok dest''" "max_length dest'' = max_length dest'"
        "bytes_of dest'' = take (length (first_line ?xs)) (bytes_of dest')"
        by (rule set_length_shorter [OF mv(4)])
      have pop: "dbus_string_pop_line source dest h = Some (True, source', dest'', h')"
        unfolding eq if_not_P [OF cond] mv(1) using moved mv(4) d2(1) by (simp add: dbus_string_set_length_def)
      have "take (length (first_line ?xs)) (take n ?xs) = first_line ?xs"
        by (simp add: n_def first_line_def takeWhile_eq_take [symmetric])
      with d2 show thesis
        using line [OF False pop mv(2,3)] mv(5,6) b d(3) by (simp add: after_line_def n_def)
    next
      case stuck: False
      then have "No_Memory \<in> set used"
        using mv(7) d0 d(3) m fits str_ok_bounds [OF s] by auto
      moreover have "dbus_string_pop_line source dest h = Some (False, source, dest', h')"
        unfolding eq if_not_P [OF cond] mv(1) using stuck mv(7) by simp
      ultimately show thesis using fail [of dest' h' used] mv(2,4,6) d(3) by simp
    qed
  qed
qed

subsection \<open>Words and comparison\<close>

text \<open>\<open>trim\<close> drops whitespace at both ends.\<close>

definition trim :: "byte list \<Rightarrow> byte list" where
  "trim xs = rev (dropWhile is_ascii_white (rev (dropWhile is_ascii_white xs)))"

lemma rev_dropWhile_rev: "rev (dropWhile P (rev xs)) = take (length xs - length (takeWhile P (rev xs))) xs"
proof -
  have "rev xs = takeWhile P (rev xs) @ dropWhile P (rev xs)" by simp
  then have "xs = rev (dropWhile P (rev xs)) @ rev (takeWhile P (rev xs))" by (metis rev_append rev_rev_ident)
  then show ?thesis by (metis append_eq_conv_conj length_append length_rev add_diff_cancel_right')
qed

lemma chop_white_ok:
  assumes "str_ok s"
  obtains s' where "dbus_string_chop_white s h = Some (s', h)" "str_ok s'" "max_length s' = max_length s"
    "bytes_of s' = trim (bytes_of s)"
proof -
  define i where "i = length (takeWhile is_ascii_white (bytes_of s))"
  have i: "i \<le> len s" using assms length_takeWhile_le [of is_ascii_white "bytes_of s"] by (simp add: i_def)
  have sw: "dbus_string_skip_white s 0 = Some i" using skip_white_spec [of s 0] assms by (simp add: i_def)
  obtain s1 where s1: "(if i > 0 then dbus_string_delete s 0 i else Some s) = Some s1" "str_ok s1"
    "max_length s1 = max_length s" "bytes_of s1 = drop i (bytes_of s)"
  proof (cases "i > 0")
    case True
    have "0 \<le> len s" "i \<le> len s - 0" using i by simp_all
    with assms obtain s1 where "dbus_string_delete s 0 i = Some s1" "str_ok s1"
      "max_length s1 = max_length s" "bytes_of s1 = splice 0 i [] (bytes_of s)"
      by (rule delete_ok)
    then show thesis using that [of s1] True by (simp add: splice_def)
  next
    case False
    then show thesis using that [of s] assms by simp
  qed
  define k where "k = len s1 - length (takeWhile is_ascii_white (rev (bytes_of s1)))"
  have "dbus_string_skip_white_reverse s1 (len s1) = Some k"
    using skip_white_reverse_spec [of s1 "len s1"] s1(2) by (simp add: k_def)
  moreover have "k \<le> len s1" by (simp add: k_def)
  then obtain s2 where s2: "set_length s1 k h = Some (True, s2, h)" "str_ok s2" "max_length s2 = max_length s1"
    "bytes_of s2 = take k (bytes_of s1)" by (rule set_length_shorter [OF s1(2)])
  ultimately have "dbus_string_chop_white s h = Some (s2, h)"
    unfolding dbus_string_chop_white_def sw Option.bind.bind_lunit s1(1)
    using s1(2) by (simp add: dbus_string_get_length_def dbus_string_set_length_def)
  moreover have "bytes_of s2 = trim (bytes_of s)"
  proof -
    have "dropWhile is_ascii_white (bytes_of s) = bytes_of s1"
      using s1(4) by (simp add: i_def dropWhile_eq_drop)
    then show ?thesis using s2(4) s1(2) by (simp add: trim_def rev_dropWhile_rev k_def)
  qed
  ultimately show thesis using that s2(2,3) s1(3) by simp
qed

lemma equal_loop_spec:
  assumes "readable a" "readable b" "i + n \<le> len a" "j + n \<le> len b"
  shows "equal_loop a i b j n = Some (take n (drop i (bytes_of a)) = take n (drop j (bytes_of b)))"
  using assms
proof (induction n arbitrary: i j)
  case (Suc n)
  have x: "byte_at a i = Some (bytes_of a ! i)" "byte_at b j = Some (bytes_of b ! j)"
    using Suc.prems byte_at_readable by simp_all
  have d: "take (Suc n) (drop i (bytes_of a)) = bytes_of a ! i # take n (drop (i + 1) (bytes_of a))"
      "take (Suc n) (drop j (bytes_of b)) = bytes_of b ! j # take n (drop (j + 1) (bytes_of b))"
    using Suc.prems by (simp_all add: Cons_nth_drop_Suc [symmetric])
  have "equal_loop a (i + 1) b (j + 1) n = Some (take n (drop (i + 1) (bytes_of a)) = take n (drop (j + 1) (bytes_of b)))"
    using Suc by simp
  then show ?case using x d by simp
qed simp

lemma equal_spec:
  assumes "readable a" "readable b"
  shows "dbus_string_equal a b = Some (bytes_of a = bytes_of b)"
  using assms equal_loop_spec [of a b 0 "len a" 0]
  by (cases "len a = len b") (auto simp: dbus_string_equal_def dest: arg_cong [where f = length])

lemma equal_len_spec:
  assumes "readable a" "readable b"
  shows "dbus_string_equal_len a b n = Some (take n (bytes_of a) = take n (bytes_of b))"
proof (cases "len a \<noteq> len b \<and> (len a < n \<or> len b < n)")
  case True
  then have "length (take n (bytes_of a)) \<noteq> length (take n (bytes_of b))" using assms by auto
  then have "take n (bytes_of a) \<noteq> take n (bytes_of b)" by metis
  then show ?thesis using True assms by (simp add: dbus_string_equal_len_def)
next
  case False
  then have "min (len a) n \<le> len b" "take (min (len a) n) (bytes_of a) = take n (bytes_of a)"
    "take (min (len a) n) (bytes_of b) = take n (bytes_of b)"
    using assms by (auto simp: min_def)
  then show ?thesis using False assms equal_loop_spec [of a b 0 "min (len a) n" 0]
    by (auto simp: dbus_string_equal_len_def)
qed

lemma equal_substring_spec:
  assumes "readable a" "readable b" "i \<le> len a" "n \<le> len a - i" "j \<le> len b"
  shows "dbus_string_equal_substring a i n b j =
    Some (n \<le> len b - j \<and> take n (drop i (bytes_of a)) = take n (drop j (bytes_of b)))"
  using assms equal_loop_spec [of a b i n j] by (auto simp: dbus_string_equal_substring_def)

lemma equal_c_loop_spec:
  assumes "readable a" "i + n = len a" "0 \<in> set c_str" "i \<le> length (c_string c_str)"
  shows "equal_c_loop a i c_str n = Some (drop i (bytes_of a) = drop i (c_string c_str))"
  using assms
proof (induction n arbitrary: i)
  case 0
  then show ?case using c_at_c_string [of c_str i] c_string_no_nul [of i c_str] by auto
next
  case (Suc n)
  show ?case
  proof (cases "i = length (c_string c_str)")
    case True
    then have "drop i (bytes_of a) \<noteq> []" using Suc.prems by simp
    then show ?thesis using True c_at_c_string [of c_str i] Suc.prems by simp
  next
    case False
    then have lt: "i < length (c_string c_str)" "i < length (bytes_of a)" using Suc.prems by simp_all
    then have d: "drop i (bytes_of a) = bytes_of a ! i # drop (i + 1) (bytes_of a)"
      "drop i (c_string c_str) = c_string c_str ! i # drop (i + 1) (c_string c_str)"
      by (simp_all add: Cons_nth_drop_Suc)
    have c: "c_at c_str i = Some (c_string c_str ! i)" "c_string c_str ! i \<noteq> 0"
      using c_at_c_string [of c_str i] c_string_no_nul lt Suc.prems by simp_all
    have "equal_c_loop a (i + 1) c_str n = Some (drop (i + 1) (bytes_of a) = drop (i + 1) (c_string c_str))"
      using Suc lt by simp
    then show ?thesis using d c byte_at_readable [of a i] Suc.prems by simp
  qed
qed

lemma equal_c_str_spec:
  "readable a \<Longrightarrow> 0 \<in> set c_str \<Longrightarrow> dbus_string_equal_c_str a c_str = Some (bytes_of a = c_string c_str)"
  using equal_c_loop_spec [of a 0 "len a" c_str] by (simp add: dbus_string_equal_c_str_def)

text \<open>Splitting at a byte: the head stays, the tail goes in front of \<open>tail\<close>.\<close>

lemma find_first_byte:
  "List.find (occurs [b] xs (length xs)) [0..<length xs] =
     (if b \<in> set xs then Some (length (takeWhile (\<lambda>c. c \<noteq> b) xs)) else None)"
proof -
  have occ: "occurs [b] xs (length xs) i \<longleftrightarrow> xs ! i = b" if "i < length xs" for i
    using that by (auto simp: occurs_def take_Suc_conv_app_nth)
  show ?thesis
  proof (cases "b \<in> set xs")
    case True
    let ?k = "length (takeWhile (\<lambda>c. c \<noteq> b) xs)"
    have k: "?k < length xs" using True
      by (metis (mono_tags, lifting) length_takeWhile_le le_neq_implies_less takeWhile_eq_all_conv
          takeWhile_eq_take take_all order_refl)
    have "xs ! ?k = b" using nth_length_takeWhile [OF k] by simp
    moreover have "xs ! i \<noteq> b" if "i < ?k" for i
      using nth_mem [OF that] that set_takeWhileD [of "takeWhile (\<lambda>c. c \<noteq> b) xs ! i"] by (auto simp: takeWhile_nth)
    ultimately show ?thesis using True k occ
      by (auto simp: find_Some_iff)
  next
    case False
    then show ?thesis using occ by (auto simp: find_None_iff in_set_conv_nth)
  qed
qed

lemma split_on_byte_ok:
  assumes s: "str_ok source" and t: "str_ok tail" and m: "max_length source = max_length tail" and b: "b \<noteq> 0"
  obtains (absent) "b \<notin> set (bytes_of source)"
      "dbus_string_split_on_byte source b tail h = Some (False, source, tail, h)"
  | (fail) tail' used h' where "dbus_string_split_on_byte source b tail h = Some (False, source, tail', h')"
      "h = used @ h'" "str_ok tail'" "bytes_of tail' = bytes_of tail"
      "No_Memory \<in> set used \<or> max_length tail < len tail + len source"
  | (split) source' tail' used h' where "b \<in> set (bytes_of source)"
      "dbus_string_split_on_byte source b tail h = Some (True, source', tail', h')" "h = used @ h'"
      "str_ok source'" "str_ok tail'"
      "bytes_of source' = takeWhile (\<lambda>c. c \<noteq> b) (bytes_of source)"
      "bytes_of tail' = tl (dropWhile (\<lambda>c. c \<noteq> b) (bytes_of source)) @ bytes_of tail"
proof -
  let ?xs = "bytes_of source"
  have lxs: "len source = length ?xs" using s by simp
  have n: "c_string [b, 0] = [b]" using b by (simp add: c_string_def)
  have f: "dbus_string_find source 0 [b, 0] =
      Some (if b \<in> set ?xs then (True, length (takeWhile (\<lambda>c. c \<noteq> b) ?xs)) else (False, length ?xs))"
    unfolding dbus_string_find_def lxs
    using find_to_spec [of source 0 "length ?xs" "[b, 0]"] s lxs find_first_byte [of b ?xs]
    by (simp add: n del: len_bytes)
  show thesis
  proof (cases "b \<in> set ?xs")
    case False
    then show thesis using absent f by (simp add: dbus_string_split_on_byte_def)
  next
    case True
    define k where "k = length (takeWhile (\<lambda>c. c \<noteq> b) ?xs)"
    have k: "k < length ?xs" using True unfolding k_def
      by (metis (mono_tags, lifting) length_takeWhile_le le_neq_implies_less takeWhile_eq_all_conv
          takeWhile_eq_take take_all order_refl)
    have fk: "dbus_string_find source 0 [b, 0] = Some (True, k)" using f True by (simp add: k_def)
    have gl: "dbus_string_get_length source = Some (length ?xs)"
      using s lxs by (simp add: dbus_string_get_length_def del: len_bytes)
    have g: "guard (k + 1 \<le> length ?xs) = Some ()" using k by simp
    have eq: "dbus_string_split_on_byte source b tail h = do {
       (ok, source, tail, h) \<leftarrow> dbus_string_move_len source (k + 1) (length ?xs - k - 1) tail 0 h;
       if \<not> ok then Some (False, source, tail, h)
       else do {
         (ok, source, h) \<leftarrow> dbus_string_set_length source k h;
         Some (ok, source, tail, h) } }"
      unfolding dbus_string_split_on_byte_def fk Option.bind.bind_lunit prod.case gl g by simp
    have fits: "k + 1 + (length ?xs - k - 1) \<le> len source" "0 \<le> len tail" using k lxs by simp_all
    obtain ok source' tail' used h' where mv:
      "dbus_string_move_len source (k + 1) (length ?xs - k - 1) tail 0 h = Some (ok, source', tail', h')" "h = used @ h'"
      "str_ok source'" "str_ok tail'" "max_length source' = max_length source" "max_length tail' = max_length tail"
      "if ok then bytes_of tail' = splice 0 0 (take (length ?xs - k - 1) (drop (k + 1) ?xs)) (bytes_of tail)
            \<and> bytes_of source' = splice (k + 1) (length ?xs - k - 1) [] ?xs
       else bytes_of tail' = bytes_of tail \<and> source' = source
            \<and> (No_Memory \<in> set used \<or> max_length tail < len tail + (length ?xs - k - 1))"
      by (rule move_len_ok [OF s fits(1) t fits(2) m, of h])
    show thesis
    proof (cases ok)
      case moved: True
      then have bs: "bytes_of source' = take (k + 1) ?xs" using mv(7) k by (simp add: splice_def)
      then have "k \<le> len source'" using mv(3) k len_bytes [of source'] by simp
      then obtain s2 where s2: "set_length source' k h' = Some (True, s2, h')" "str_ok s2"
        "max_length s2 = max_length source'" "bytes_of s2 = take k (bytes_of source')"
        by (rule set_length_shorter [OF mv(3)])
      have "dbus_string_split_on_byte source b tail h = Some (True, s2, tail', h')"
        unfolding eq mv(1) using moved mv(3) s2(1) by (simp add: dbus_string_set_length_def)
      moreover have "bytes_of s2 = takeWhile (\<lambda>c. c \<noteq> b) ?xs"
        using s2(4) bs by (simp add: k_def takeWhile_eq_take [symmetric])
      moreover have "bytes_of tail' = tl (dropWhile (\<lambda>c. c \<noteq> b) ?xs) @ bytes_of tail"
        using mv(7) moved by (simp add: splice_def k_def dropWhile_eq_drop tl_drop drop_Suc [symmetric])
      ultimately show thesis using split [OF True] mv(2,4) s2(2) by blast
    next
      case stuck: False
      then have "dbus_string_split_on_byte source b tail h = Some (False, source, tail', h')"
        unfolding eq mv(1) using mv(7) by simp
      moreover have "No_Memory \<in> set used \<or> max_length tail < len tail + len source"
        using mv(7) stuck unfolding lxs by (simp only: if_False) linarith
      ultimately show thesis using fail [of tail' h' used] mv(2,4,7) stuck by simp
    qed
  qed
qed

section \<open>Searches and lines\<close>


definition hello :: real_string where
  "hello = empty_string\<lparr>block := [0x68, 0x65, 0x6C, 0x0A, 0x6C, 0x6F, 0, 0, 0, 0, 0, 0, 0, 0, 0, 0], len := 6, allocated := 16\<rparr>"

lemma hello_ok: "str_ok hello" "bytes_of hello = [0x68, 0x65, 0x6C, 0x0A, 0x6C, 0x6F]"
  by (simp_all add: hello_def empty_string_def str_ok_def string_preamble_def generic_preamble_def
      PADDING_def MAX_MAX_LENGTH_def INT_MAX_def bytes_of_def)


text \<open>Reading a text line by line, as the client of \<open>_dbus_string_pop_line\<close> does, until it answers
  FALSE.\<close>

partial_function (option) pop_lines ::
    "real_string \<Rightarrow> real_string \<Rightarrow> heap \<Rightarrow> (byte list list \<times> real_string \<times> real_string \<times> heap) option" where
  "pop_lines source dest h =
     Option.bind (dbus_string_pop_line source dest h) (\<lambda>(ok, source, dest, h).
       if \<not> ok then Some ([], source, dest, h)
       else Option.bind (pop_lines source dest h) (\<lambda>(lines, source', dest', h).
         Some (bytes_of dest # lines, source', dest', h)))"

function text_lines :: "byte list \<Rightarrow> byte list list" where
  "text_lines xs = (if xs = [] then [] else first_line xs # text_lines (after_line xs))"
  by pat_completeness auto
termination
proof (relation "measure length")
  fix xs :: "byte list" assume "xs \<noteq> []"
  then show "(after_line xs, xs) \<in> measure length"
    using line_progress [of xs] line_fits [of xs] by (simp add: after_line_def)
qed simp

declare text_lines.simps [simp del]

lemma text_lines_Nil [simp]: "text_lines [] = []"
  by (simp add: text_lines.simps)

text \<open>C21: Reading a string line by line ends for every pattern of allocation failures and never faults;
  it yields the first lines of the text in order, a line being ended by a newline, a carriage return or
  both, and leaves exactly the unread lines; without failures it yields all of them.\<close>

theorem pop_lines_correct:
  assumes "str_ok source" and "str_ok dest" and "max_length source = max_length dest"
  shows "\<exists>lines source' dest' h'. pop_lines source dest h = Some (lines, source', dest', h') \<and>
     str_ok source' \<and> str_ok dest' \<and>
     text_lines (bytes_of source) = lines @ text_lines (bytes_of source') \<and>
     (No_Memory \<notin> set h \<longrightarrow> lines = text_lines (bytes_of source) \<and> bytes_of source' = [])"
  using assms
proof (induction "length (bytes_of source)" arbitrary: source dest h rule: less_induct)
  case less
  from less(2,3,4) show ?case
  proof (cases rule: pop_line_ok [where h = h])
    case (empty dest')
    then have "pop_lines source dest h = Some ([], source, dest', h)" by (subst pop_lines.simps) simp
    then show ?thesis using empty less(2) by (simp add: text_lines.simps [of "[]"])
  next
    case (fail dest' used h')
    then have "pop_lines source dest h = Some ([], source, dest', h')" by (subst pop_lines.simps) simp
    then show ?thesis using fail less(2) by simp
  next
    case (line source1 dest1 used h1)
    have "length (bytes_of source1) < length (bytes_of source)"
      using line(1,9) line_progress [of "bytes_of source"] line_fits [of "bytes_of source"]
      by (simp add: after_line_def)
    from less(1) [OF this line(4,5), of h1] line(6,7) less(4) obtain lines source' dest' h' where
      ih: "pop_lines source1 dest1 h1 = Some (lines, source', dest', h')" "str_ok source'" "str_ok dest'"
        "text_lines (bytes_of source1) = lines @ text_lines (bytes_of source')"
        "No_Memory \<notin> set h1 \<longrightarrow> lines = text_lines (bytes_of source1) \<and> bytes_of source' = []"
      by auto
    have "pop_lines source dest h = Some (bytes_of dest1 # lines, source', dest', h')"
      using line(2) ih(1) by (subst pop_lines.simps) simp
    moreover have "text_lines (bytes_of source) = bytes_of dest1 # text_lines (bytes_of source1)"
      using line(1,8,9) by (simp add: text_lines.simps [of "bytes_of source"])
    ultimately show ?thesis using ih line(3) by simp
  qed
qed

lemma pop_lines_correct_witness:
  "\<exists>lines source' dest' h'. pop_lines hello empty_string [Memory 5 [1, 2, 3], No_Memory] = Some (lines, source', dest', h') \<and>
     str_ok source' \<and> str_ok dest' \<and>
     text_lines (bytes_of hello) = lines @ text_lines (bytes_of source') \<and>
     (No_Memory \<notin> set [Memory 5 [1, 2, 3], No_Memory] \<longrightarrow> lines = text_lines (bytes_of hello) \<and> bytes_of source' = [])"
  by (rule pop_lines_correct) (simp_all add: hello_ok empty_string_ok, simp add: hello_def)

end
