(* ===== verification/String_Codec.thy ===== *)
theory String_Codec
  imports String_Scan
begin

text \<open>
  Encodings and character classes of strings (\<open>dbus/dbus-string.c\<close>): hexadecimal, ASCII, UTF-8, nul
  padding and ASCII case. Bytes are words of 8 bits, a \<open>dbus_unichar_t\<close> is a word of 32 bits. The
  encoders append to a temporary string which is then moved into its place, so that a failed allocation
  leaves the destination as it was.
\<close>

section \<open>The code\<close>

unbundle bit_operations_syntax

subsection \<open>Hexadecimal\<close>

definition hexdigits :: "byte list" where
  "hexdigits = [0x30, 0x31, 0x32, 0x33, 0x34, 0x35, 0x36, 0x37, 0x38, 0x39, 0x61, 0x62, 0x63, 0x64, 0x65, 0x66]"

definition dbus_string_append_byte_as_hex ::
    "real_string \<Rightarrow> byte \<Rightarrow> heap \<Rightarrow> (bool \<times> real_string \<times> heap) option" where
  "dbus_string_append_byte_as_hex s b h = do {
     hi \<leftarrow> read_block hexdigits (unat (drop_bit 4 b)) 1;
     (ok, s, h) \<leftarrow> dbus_string_append_byte s (hd hi) h;
     if \<not> ok then Some (False, s, h)
     else do {
       lo \<leftarrow> read_block hexdigits (unat (b AND 0x0F)) 1;
       (ok, s, h) \<leftarrow> dbus_string_append_byte s (hd lo) h;
       if \<not> ok then do {
         n \<leftarrow> dbus_string_get_length s;
         (ok, s, h) \<leftarrow> dbus_string_set_length s (n - 1) h;
         Some (False, s, h) }
       else Some (True, s, h) } }"

text \<open>A local string before its initialization.\<close>

definition uninitialized :: real_string where
  "uninitialized = \<lparr>block = [], addr = 0, align_offset = 0, len = 0, allocated = 0, max_length = 0,
     const_data = False, locked = False, invalid = True\<rparr>"

fun hex_encode_loop ::
    "real_string \<Rightarrow> nat \<Rightarrow> nat \<Rightarrow> real_string \<Rightarrow> heap \<Rightarrow> (bool \<times> real_string \<times> heap) option" where
  "hex_encode_loop source p 0 result h = Some (True, result, h)"
| "hex_encode_loop source p (Suc n) result h = do {
     b \<leftarrow> byte_at source p;
     (ok, result, h) \<leftarrow> dbus_string_append_byte_as_hex result b h;
     if \<not> ok then Some (False, result, h) else hex_encode_loop source (p + 1) n result h }"

definition dbus_string_hex_encode ::
    "real_string \<Rightarrow> nat \<Rightarrow> real_string \<Rightarrow> nat \<Rightarrow> heap \<Rightarrow> (bool \<times> real_string \<times> heap) option" where
  "dbus_string_hex_encode source start dest insert_at h = do {
     n \<leftarrow> dbus_string_get_length source;
     guard (start \<le> n);
     (ok, result, h) \<leftarrow> dbus_string_init uninitialized h;
     if \<not> ok then Some (False, dest, h)
     else do {
       (ok, result, h) \<leftarrow> hex_encode_loop source start (n - start) result h;
       (retval, result, dest, h) \<leftarrow>
         (if ok then dbus_string_move result 0 dest insert_at h else Some (False, result, dest, h));
       result \<leftarrow> dbus_string_free result;
       Some (retval, dest, h) } }"

definition hex_val :: "byte \<Rightarrow> byte option" where
  "hex_val c =
     (if c = 0x30 then Some 0 else if c = 0x31 then Some 1 else if c = 0x32 then Some 2
      else if c = 0x33 then Some 3 else if c = 0x34 then Some 4 else if c = 0x35 then Some 5
      else if c = 0x36 then Some 6 else if c = 0x37 then Some 7 else if c = 0x38 then Some 8
      else if c = 0x39 then Some 9
      else if c = 0x61 \<or> c = 0x41 then Some 10
      else if c = 0x62 \<or> c = 0x42 then Some 11
      else if c = 0x63 \<or> c = 0x43 then Some 12
      else if c = 0x64 \<or> c = 0x44 then Some 13
      else if c = 0x65 \<or> c = 0x45 then Some 14
      else if c = 0x66 \<or> c = 0x46 then Some 15
      else None)"

text \<open>The loop returns where it stopped; FALSE is its \<open>goto out\<close>.\<close>

fun hex_decode_loop ::
    "real_string \<Rightarrow> nat \<Rightarrow> nat \<Rightarrow> bool \<Rightarrow> real_string \<Rightarrow> heap \<Rightarrow> (bool \<times> nat \<times> real_string \<times> heap) option" where
  "hex_decode_loop source p 0 high_bits result h = Some (True, p, result, h)"
| "hex_decode_loop source p (Suc n) high_bits result h = do {
     c \<leftarrow> byte_at source p;
     (case hex_val c of
        None \<Rightarrow> Some (True, p, result, h)
      | Some val \<Rightarrow>
          if high_bits then do {
            (ok, result, h) \<leftarrow> dbus_string_append_byte result (push_bit 4 val) h;
            if \<not> ok then Some (False, p, result, h)
            else hex_decode_loop source (p + 1) n (\<not> high_bits) result h }
          else do {
            m \<leftarrow> dbus_string_get_length result;
            guard (1 \<le> m);
            b \<leftarrow> dbus_string_get_byte result (m - 1);
            result \<leftarrow> dbus_string_set_byte result (m - 1) (b OR val);
            hex_decode_loop source (p + 1) n (\<not> high_bits) result h }) }"

text \<open>The third component is \<open>*end_return\<close>, which is only set on success.\<close>

definition dbus_string_hex_decode ::
    "real_string \<Rightarrow> nat \<Rightarrow> real_string \<Rightarrow> nat \<Rightarrow> heap \<Rightarrow> (bool \<times> real_string \<times> nat option \<times> heap) option" where
  "dbus_string_hex_decode source start dest insert_at h = do {
     n \<leftarrow> dbus_string_get_length source;
     guard (start \<le> n);
     (ok, result, h) \<leftarrow> dbus_string_init uninitialized h;
     if \<not> ok then Some (False, dest, None, h)
     else do {
       (ok, p, result, h) \<leftarrow> hex_decode_loop source start (n - start) True result h;
       (retval, result, dest, h) \<leftarrow>
         (if ok then dbus_string_move result 0 dest insert_at h else Some (False, result, dest, h));
       result \<leftarrow> dbus_string_free result;
       Some (retval, dest, if retval then Some p else None, h) } }"

subsection \<open>UTF-8\<close>

text \<open>\<open>UTF8_COMPUTE\<close> gives the mask and the length that a first byte announces.\<close>

definition utf8_compute :: "byte \<Rightarrow> 32 word \<times> nat" where
  "utf8_compute c =
     (if c < 128 then (0x7F, 1)
      else if c AND 0xE0 = 0xC0 then (0x1F, 2)
      else if c AND 0xF0 = 0xE0 then (0x0F, 3)
      else if c AND 0xF8 = 0xF0 then (0x07, 4)
      else if c AND 0xFC = 0xF8 then (0x03, 5)
      else if c AND 0xFE = 0xFC then (0x01, 6)
      else (0, 0))"

definition utf8_length :: "32 word \<Rightarrow> nat" where
  "utf8_length c =
     (if c < 0x80 then 1 else if c < 0x800 then 2 else if c < 0x10000 then 3
      else if c < 0x200000 then 4 else if c < 0x4000000 then 5 else 6)"

text \<open>\<open>UTF8_GET\<close> reads the bytes from \<open>p + count\<close> on, \<open>n\<close> in number, into \<open>result\<close>.\<close>

fun utf8_get_loop :: "real_string \<Rightarrow> nat \<Rightarrow> nat \<Rightarrow> 32 word \<Rightarrow> 32 word option" where
  "utf8_get_loop s p 0 result = Some result"
| "utf8_get_loop s p (Suc n) result = do {
     c \<leftarrow> byte_at s p;
     if c AND 0xC0 \<noteq> 0x80 then Some (- 1)
     else utf8_get_loop s (p + 1) n (push_bit 6 result OR (ucast c AND 0x3F)) }"

definition utf8_get :: "real_string \<Rightarrow> nat \<Rightarrow> 32 word \<Rightarrow> nat \<Rightarrow> 32 word option" where
  "utf8_get s p msk n = do {
     c \<leftarrow> byte_at s p;
     utf8_get_loop s (p + 1) (n - 1) (ucast c AND msk) }"

definition unicode_valid :: "32 word \<Rightarrow> bool" where
  "unicode_valid c \<longleftrightarrow> c < 0x110000 \<and> c AND 0xFFFFF800 \<noteq> 0xD800 \<and> (c < 0xFDD0 \<or> c > 0xFDEF) \<and>
     c AND 0xFFFE \<noteq> 0xFFFE"

text \<open>One turn of the loop: \<open>None\<close> inside is its \<open>break\<close>, otherwise how far it advances.\<close>

definition utf8_step :: "real_string \<Rightarrow> nat \<Rightarrow> nat \<Rightarrow> nat option option" where
  "utf8_step s p end = do {
     c \<leftarrow> byte_at s p;
     if c = 0 then Some None
     else if c < 128 then Some (Some 1)
     else
       let (msk, char_len) = utf8_compute c in
       if char_len = 0 then Some None
       else if end - p < char_len then Some None
       else do {
         result \<leftarrow> utf8_get s p msk char_len;
         if utf8_length result \<noteq> char_len then Some None
         else if \<not> unicode_valid result then Some None
         else do { guard (result \<noteq> - 1); Some (Some char_len) } } }"

partial_function (option) utf8_loop :: "real_string \<Rightarrow> nat \<Rightarrow> nat \<Rightarrow> nat option" where
  "utf8_loop s p end =
     (if p < end then
        Option.bind (utf8_step s p end) (\<lambda>r.
          case r of None \<Rightarrow> Some p | Some n \<Rightarrow> utf8_loop s (p + n) end)
      else Some p)"

definition dbus_string_validate_utf8 :: "real_string \<Rightarrow> nat \<Rightarrow> nat \<Rightarrow> bool option" where
  "dbus_string_validate_utf8 s start n = do {
     guard (generic_preamble s \<and> start \<le> len s);
     if n > len s - start then Some False
     else do {
       p \<leftarrow> utf8_loop s start (start + n);
       Some (p = start + n) } }"

subsection \<open>Character classes and case\<close>

text \<open>\<open>_DBUS_ISASCII\<close>\<close>

definition is_ascii :: "byte \<Rightarrow> bool" where
  "is_ascii c \<longleftrightarrow> c \<noteq> 0 \<and> c AND NOT 0x7F = 0"

fun all_loop :: "(byte \<Rightarrow> bool) \<Rightarrow> real_string \<Rightarrow> nat \<Rightarrow> nat \<Rightarrow> bool option" where
  "all_loop P s p 0 = Some True"
| "all_loop P s p (Suc n) = do {
     c \<leftarrow> byte_at s p;
     if \<not> P c then Some False else all_loop P s (p + 1) n }"

definition dbus_string_validate_ascii :: "real_string \<Rightarrow> nat \<Rightarrow> nat \<Rightarrow> bool option" where
  "dbus_string_validate_ascii s start n = do {
     guard (generic_preamble s \<and> start \<le> len s);
     if n > len s - start then Some False else all_loop is_ascii s start n }"

definition dbus_string_validate_nul :: "real_string \<Rightarrow> nat \<Rightarrow> nat \<Rightarrow> bool option" where
  "dbus_string_validate_nul s start n = do {
     guard (generic_preamble s \<and> start \<le> len s);
     if n > len s - start then Some False else all_loop (\<lambda>c. c = 0) s start n }"

fun map_loop :: "(byte \<Rightarrow> byte) \<Rightarrow> real_string \<Rightarrow> nat \<Rightarrow> nat \<Rightarrow> real_string option" where
  "map_loop f s p 0 = Some s"
| "map_loop f s p (Suc n) = do {
     c \<leftarrow> byte_at s p;
     s \<leftarrow> poke s p [f c];
     map_loop f s (p + 1) n }"

definition tolower :: "byte \<Rightarrow> byte" where
  "tolower c = (if 0x41 \<le> c \<and> c \<le> 0x5A then c + (0x61 - 0x41) else c)"

definition toupper :: "byte \<Rightarrow> byte" where
  "toupper c = (if 0x61 \<le> c \<and> c \<le> 0x7A then c + (0x41 - 0x61) else c)"

definition dbus_string_tolower_ascii :: "real_string \<Rightarrow> nat \<Rightarrow> nat \<Rightarrow> real_string option" where
  "dbus_string_tolower_ascii s start n = do {
     guard (string_preamble s \<and> start \<le> len s \<and> n \<le> len s - start);
     map_loop tolower s start n }"

definition dbus_string_toupper_ascii :: "real_string \<Rightarrow> nat \<Rightarrow> nat \<Rightarrow> real_string option" where
  "dbus_string_toupper_ascii s start n = do {
     guard (string_preamble s \<and> start \<le> len s \<and> n \<le> len s - start);
     map_loop toupper s start n }"

section \<open>Appending piece by piece\<close>

text \<open>The interface of the operations that append a piece to a string, and their common client: a loop
  that appends a list of pieces and stops at the first failure.\<close>

fun append_all :: "(real_string \<Rightarrow> 'a \<Rightarrow> heap \<Rightarrow> (bool \<times> real_string \<times> heap) option) \<Rightarrow> 'a list \<Rightarrow>
    real_string \<Rightarrow> heap \<Rightarrow> (bool \<times> real_string \<times> heap) option" where
  "append_all app [] s h = Some (True, s, h)"
| "append_all app (x # xs) s h = do {
     (ok, s, h) \<leftarrow> app s x h;
     if \<not> ok then Some (False, s, h) else append_all app xs s h }"

locale appender =
  fixes app :: "real_string \<Rightarrow> 'a \<Rightarrow> heap \<Rightarrow> (bool \<times> real_string \<times> heap) option"
    and enc :: "'a \<Rightarrow> byte list"
  assumes app: "str_ok s \<Longrightarrow> contract s h (\<lambda>bs. bs = bytes_of s @ enc x) (len s + length (enc x)) (app s x h)"
begin

lemma append_all_ok:
  assumes "str_ok s"
  shows "\<exists>ok s' used h' k. append_all app xs s h = Some (ok, s', h') \<and> h = used @ h' \<and> str_ok s' \<and>
     max_length s' = max_length s \<and> bytes_of s' = bytes_of s @ concat (map enc (take k xs)) \<and>
     (if ok then k = length xs
      else No_Memory \<in> set used \<or> max_length s < len s + length (concat (map enc xs)))"
  using assms
proof (induction xs arbitrary: s h)
  case Nil
  then show ?case by (intro exI [of _ True] exI [of _ s] exI [of _ "[]"] exI [of _ h] exI [of _ 0]) simp
next
  case (Cons x xs)
  from app [OF Cons.prems, of h x] show ?case
  proof (cases rule: contractE)
    case (ok s1 used1 h1)
    from Cons.IH [OF ok(3), of h1] obtain b s' used h' k where
      ih: "append_all app xs s1 h1 = Some (b, s', h')" "h1 = used @ h'" "str_ok s'" "max_length s' = max_length s1"
        "bytes_of s' = bytes_of s1 @ concat (map enc (take k xs))"
        "if b then k = length xs else No_Memory \<in> set used \<or> max_length s1 < len s1 + length (concat (map enc xs))"
      by blast
    have "len s1 = len s + length (enc x)"
      using ok(3,5) Cons.prems len_bytes [of s1] by simp
    then show ?thesis using ok ih
      by (intro exI [of _ b] exI [of _ s'] exI [of _ "used1 @ used"] exI [of _ h'] exI [of _ "Suc k"])
        (auto split: if_splits)
  next
    case (fail s1 used1 h1)
    then show ?thesis
      by (intro exI [of _ False] exI [of _ s1] exI [of _ used1] exI [of _ h1] exI [of _ 0]) auto
  qed
qed

end

definition hex_of_byte :: "byte \<Rightarrow> byte list" where
  "hex_of_byte b = [hexdigits ! unat (drop_bit 4 b), hexdigits ! unat (b AND 0x0F)]"

lemma nibbles: "unat (drop_bit 4 (b :: byte)) < 16" "unat (b AND 0x0F) < 16"
proof -
  show "unat (drop_bit 4 b) < 16"
  proof -
    have "unat b < 256" using unsigned_less [of b] by simp
    then show ?thesis by (simp add: drop_bit_eq_div unat_div less_mult_imp_div_less)
  qed
  have "b AND 0x0F = take_bit 4 b" by (simp add: take_bit_eq_mask mask_eq_exp_minus_1)
  then show "unat (b AND 0x0F) < 16" by (simp add: take_bit_eq_mod unat_mod)
qed

lemma append_byte_as_hex_ok:
  assumes s: "str_ok s"
  shows "contract s h (\<lambda>bs. bs = bytes_of s @ hex_of_byte b) (len s + length (hex_of_byte b))
    (dbus_string_append_byte_as_hex s b h)"
proof -
  let ?hi = "hexdigits ! unat (drop_bit 4 b)" and ?lo = "hexdigits ! unat (b AND 0x0F)"
  have r: "read_block hexdigits (unat (drop_bit 4 b)) 1 = Some [?hi]"
    "read_block hexdigits (unat (b AND 0x0F)) 1 = Some [?lo]"
    using nibbles [of b] by (simp_all add: read_block_def hexdigits_def take_Suc_conv_app_nth hd_drop_conv_nth take_Suc)
  have eq: "dbus_string_append_byte_as_hex s b h = do {
       (ok, s, h) \<leftarrow> dbus_string_append_byte s ?hi h;
       if \<not> ok then Some (False, s, h)
       else do {
         (ok, s, h) \<leftarrow> dbus_string_append_byte s ?lo h;
         if \<not> ok then do {
           n \<leftarrow> dbus_string_get_length s;
           (ok, s, h) \<leftarrow> dbus_string_set_length s (n - 1) h;
           Some (False, s, h) }
         else Some (True, s, h) } }"
    unfolding dbus_string_append_byte_as_hex_def r Option.bind.bind_lunit list.sel ..
  from append_byte_ok [OF s, of h ?hi] show ?thesis
  proof (cases rule: contractE)
    case (fail s1 used h1)
    then show ?thesis unfolding eq by (auto simp: hex_of_byte_def intro!: contract_failI [where used = used])
  next
    case (ok s1 used h1)
    note first = this
    from append_byte_ok [OF first(3), of h1 ?lo] show ?thesis
    proof (cases rule: contractE)
      case (ok s2 used2 h2)
      then show ?thesis using first unfolding eq by (simp add: contract_okI hex_of_byte_def)
    next
      case (fail s2 used2 h2)
      have l: "len s2 = len s + 1" using fail(3,5) first(5) s len_bytes [of s2] by simp
      have "len s2 - 1 \<le> len s2" by simp
      then obtain s3 where s3: "set_length s2 (len s2 - 1) h2 = Some (True, s3, h2)" "str_ok s3"
        "max_length s3 = max_length s2" "bytes_of s3 = take (len s2 - 1) (bytes_of s2)"
        by (rule set_length_shorter [OF fail(3)])
      have "dbus_string_append_byte_as_hex s b h = Some (False, s3, h2)"
        using first(1) fail(1,3) s3(1) unfolding eq by (simp add: dbus_string_get_length_def dbus_string_set_length_def)
      moreover have "bytes_of s3 = bytes_of s" using s3(4) fail(5) first(5) l s by simp
      moreover have "len s1 = len s + 1" using first(3,5) s len_bytes [of s1] by simp
      ultimately show ?thesis using first fail s3
        by (auto simp: hex_of_byte_def intro!: contract_failI [where used = "used @ used2"])
    qed
  qed
qed

interpretation bytewise: appender dbus_string_append_byte "\<lambda>b. [b]"
  by unfold_locales (use append_byte_ok in simp)

interpretation hexwise: appender dbus_string_append_byte_as_hex hex_of_byte
  by unfold_locales (rule append_byte_as_hex_ok)

interpretation piecewise: appender "\<lambda>s bs h. dbus_string_append_len s bs (length bs) h" "\<lambda>bs. bs"
proof
  fix s h and x :: "byte list" assume "str_ok s"
  from append_len_ok [OF this le_refl, of h x]
  show "contract s h (\<lambda>bs. bs = bytes_of s @ x) (len s + length x) (dbus_string_append_len s x (length x) h)"
    by simp
qed

section \<open>Hexadecimal\<close>

lemma drop_step: "readable s \<Longrightarrow> i < len s \<Longrightarrow> drop i (bytes_of s) = bytes_of s ! i # drop (i + 1) (bytes_of s)"
  by (simp add: Cons_nth_drop_Suc)

lemma hex_encode_loop_append:
  "readable source \<Longrightarrow> p + n \<le> len source \<Longrightarrow>
     hex_encode_loop source p n = append_all dbus_string_append_byte_as_hex (take n (drop p (bytes_of source)))"
proof (induction n arbitrary: p)
  case 0
  show ?case by (intro ext) simp
next
  case (Suc n)
  then have "hex_encode_loop source (p + 1) n =
      append_all dbus_string_append_byte_as_hex (take n (drop (p + 1) (bytes_of source)))" by simp
  then show ?case using Suc.prems byte_at_readable [of source p] drop_step [of source p]
    by (intro ext) (simp cong: if_cong)
qed

text \<open>The temporary string is moved into its place; \<open>dest\<close> is left alone on failure.\<close>

lemma move_result_ok:
  assumes r: "str_ok result" and d: "str_ok dest" "i \<le> len dest" and m: "max_length result = max_length dest"
  obtains ok result' dest' used h' where
    "do { (retval, result, dest, h) \<leftarrow> dbus_string_move result 0 dest i h;
          result \<leftarrow> dbus_string_free result;
          Some (k retval dest h) } = Some (k ok dest' h')"
    "h = used @ h'" "str_ok dest'" "max_length dest' = max_length dest"
    "if ok then bytes_of dest' = splice i 0 (bytes_of result) (bytes_of dest)
     else bytes_of dest' = bytes_of dest \<and> (No_Memory \<in> set used \<or> max_length dest < len dest + len result)"
proof -
  have fits: "0 + (len result - 0) \<le> len result" by simp
  obtain ok result' dest' used h' where mv:
    "dbus_string_move_len result 0 (len result - 0) dest i h = Some (ok, result', dest', h')" "h = used @ h'"
    "str_ok result'" "str_ok dest'" "max_length result' = max_length result" "max_length dest' = max_length dest"
    "if ok then bytes_of dest' = splice i 0 (take (len result - 0) (drop 0 (bytes_of result))) (bytes_of dest)
              \<and> bytes_of result' = splice 0 (len result - 0) [] (bytes_of result)
     else bytes_of dest' = bytes_of dest \<and> result' = result
              \<and> (No_Memory \<in> set used \<or> max_length dest < len dest + (len result - 0))"
    by (rule move_len_ok [OF r fits d m, of h])
  show thesis
    using mv r by (intro that [of ok dest' h' used]) (auto simp: dbus_string_move_def dbus_string_free_def)
qed

lemma hex_encode_ok:
  assumes s: "str_ok source" "start \<le> len source" and d: "str_ok dest" "i \<le> len dest"
    and m: "max_length dest = MAX_MAX_LENGTH"
  shows "contract dest h (\<lambda>bs. bs = splice i 0 (concat (map hex_of_byte (drop start (bytes_of source)))) (bytes_of dest))
    (len dest + 2 * (len source - start)) (dbus_string_hex_encode source start dest i h)"
proof -
  let ?xs = "drop start (bytes_of source)"
  have lx: "length (concat (map hex_of_byte ?xs)) = 2 * (len source - start)"
    using s by (simp add: hex_of_byte_def length_concat comp_def sum_list_triv)
  have gl: "dbus_string_get_length source = Some (len source)" using s by (simp add: dbus_string_get_length_def)
  have g: "guard (start \<le> len source) = Some ()" using s by simp
  show ?thesis
  proof (cases rule: init_ok [where old = uninitialized and h = h, case_names failed granted])
    case (failed h1)
    then show ?thesis using gl g d by (simp add: dbus_string_hex_encode_def contract_failI [where used = "[No_Memory]"])
  next
    case (granted r used h1)
    have loop: "hex_encode_loop source start (len source - start) r h1 = append_all dbus_string_append_byte_as_hex ?xs r h1"
      using hex_encode_loop_append [of source start "len source - start"] s by simp
    from hexwise.append_all_ok [OF granted(3), where xs = ?xs and h = h1] obtain ok r' used1 h2 k where
      a: "append_all dbus_string_append_byte_as_hex ?xs r h1 = Some (ok, r', h2)" "h1 = used1 @ h2" "str_ok r'"
        "max_length r' = max_length r" "bytes_of r' = bytes_of r @ concat (map hex_of_byte (take k ?xs))"
        "if ok then k = length ?xs
         else No_Memory \<in> set used1 \<or> max_length r < len r + length (concat (map hex_of_byte ?xs))" by blast
    have r0: "len r = 0" using granted(3,4) len_bytes [of r] by simp
    show ?thesis
    proof (cases ok)
      case False
      then have "dbus_string_hex_encode source start dest i h = Some (False, dest, h2)"
        using gl g granted(1) loop a(1,3)
        by (simp add: dbus_string_hex_encode_def dbus_string_free_def)
      then show ?thesis using d(1) granted a False r0 m lx
        by (auto intro!: contract_failI [where used = "used @ used1"])
    next
      case True
      have mr: "max_length r' = max_length dest" using a(4) granted(5) m by simp
      obtain ok2 r2 dest' used2 h3 where mv:
        "do { (retval, result, dest, h) \<leftarrow> dbus_string_move r' 0 dest i h2;
              result \<leftarrow> dbus_string_free result;
              Some (retval, dest, h) } = Some (ok2, dest', h3)"
        "h2 = used2 @ h3" "str_ok dest'" "max_length dest' = max_length dest"
        "if ok2 then bytes_of dest' = splice i 0 (bytes_of r') (bytes_of dest)
         else bytes_of dest' = bytes_of dest \<and> (No_Memory \<in> set used2 \<or> max_length dest < len dest + len r')"
        by (rule move_result_ok [OF a(3) d mr, where k = "\<lambda>ok dest h. (ok, dest, h)" and h = h2])
      have b: "bytes_of r' = concat (map hex_of_byte ?xs)" using a(5,6) True granted(4) by simp
      have l: "len r' = 2 * (len source - start)" using lx b a(3) len_bytes [of r'] by simp
      have "dbus_string_hex_encode source start dest i h = Some (ok2, dest', h3)"
        unfolding dbus_string_hex_encode_def gl g granted(1) Option.bind.bind_lunit prod.case loop a(1) mv(1) [symmetric]
        using True by simp
      then show ?thesis using mv b l granted(2) a(2)
        by (cases ok2) (auto intro!: contract_okI [where used = "used @ used1 @ used2"]
            contract_failI [where used = "used @ used1 @ used2"])
    qed
  qed
qed

text \<open>What a run of hexadecimal digits decodes to: two digits a byte, an odd last digit being the high
  half of a byte.\<close>

fun pack :: "byte list \<Rightarrow> byte list" where
  "pack (a # b # vs) = (push_bit 4 a OR b) # pack vs"
| "pack [a] = [push_bit 4 a]"
| "pack [] = []"

definition hex_prefix :: "byte list \<Rightarrow> byte list" where
  "hex_prefix xs = takeWhile (\<lambda>c. hex_val c \<noteq> None) xs"

definition hex_decoded :: "byte list \<Rightarrow> byte list" where
  "hex_decoded xs = pack (map (\<lambda>c. the (hex_val c)) (hex_prefix xs))"

text \<open>The bytes decoded so far and the digits to come, in the two states of the loop.\<close>

fun resume :: "bool \<Rightarrow> byte list \<Rightarrow> byte list \<Rightarrow> byte list" where
  "resume True acc vs = acc @ pack vs"
| "resume False acc [] = acc"
| "resume False acc (v # vs) = butlast acc @ (last acc OR v) # pack vs"

lemma resume_high: "resume False (acc @ [push_bit 4 v]) vs = acc @ pack (v # vs)"
  by (cases vs) simp_all

lemma hex_decode_loop_ok:
  assumes "readable source" "p + n \<le> len source" "str_ok result" "\<not> high \<Longrightarrow> bytes_of result \<noteq> []"
  shows "\<exists>ok k result' used h'. hex_decode_loop source p n high result h = Some (ok, k, result', h') \<and> h = used @ h' \<and>
     str_ok result' \<and> max_length result' = max_length result \<and>
     (if ok then k = p + length (hex_prefix (take n (drop p (bytes_of source)))) \<and>
          bytes_of result' = resume high (bytes_of result)
            (map (\<lambda>c. the (hex_val c)) (hex_prefix (take n (drop p (bytes_of source)))))
      else No_Memory \<in> set used \<or> max_length result < len result + n)"
  using assms
proof (induction n arbitrary: p high result h)
  case 0
  have "resume high (bytes_of result) [] = bytes_of result" by (cases high) simp_all
  then show ?case using 0
    by (intro exI [of _ True] exI [of _ p] exI [of _ result] exI [of _ "[]"] exI [of _ h]) (simp add: hex_prefix_def)
next
  case (Suc n)
  let ?c = "bytes_of source ! p" and ?rest = "take n (drop (p + 1) (bytes_of source))"
  have lt: "p < len source" and p1: "p + 1 + n \<le> len source" using Suc.prems(2) by simp_all
  have c: "byte_at source p = Some ?c" by (rule byte_at_readable [OF Suc.prems(1) lt])
  have d: "take (Suc n) (drop p (bytes_of source)) = ?c # ?rest" using drop_step [OF Suc.prems(1) lt] by simp
  show ?case
  proof (cases "hex_val ?c")
    case None
    have "resume high (bytes_of result) [] = bytes_of result" by (cases high) simp_all
    then show ?thesis using None c d Suc.prems(3)
      by (intro exI [of _ True] exI [of _ p] exI [of _ result] exI [of _ "[]"] exI [of _ h]) (simp add: hex_prefix_def)
  next
    case (Some val)
    have pre: "hex_prefix (take (Suc n) (drop p (bytes_of source))) = ?c # hex_prefix ?rest"
      using d Some by (simp add: hex_prefix_def)
    let ?vs = "map (\<lambda>c. the (hex_val c)) (hex_prefix ?rest)"
    show ?thesis
    proof (cases high)
      case True
      have step: "hex_decode_loop source p (Suc n) high result h = do {
          (ok, result, h) \<leftarrow> dbus_string_append_byte result (push_bit 4 val) h;
          if \<not> ok then Some (False, p, result, h)
          else hex_decode_loop source (p + 1) n False result h }"
        using True by (simp add: c Some cong: if_cong)
      from append_byte_ok [OF Suc.prems(3), of h "push_bit 4 val"] show ?thesis
      proof (cases rule: contractE)
        case (fail r1 used h1)
        have "No_Memory \<in> set used \<or> max_length result < len result + Suc n" using fail(6) by auto
        then show ?thesis unfolding step using fail
          by (intro exI [of _ False] exI [of _ p] exI [of _ r1] exI [of _ used] exI [of _ h1]) simp
      next
        case (ok r1 used h1)
        have "bytes_of r1 \<noteq> []" using ok(5) by simp
        from Suc.IH [OF Suc.prems(1) p1 ok(3) this, of False h1] obtain b k result' used2 h' where
          ih: "hex_decode_loop source (p + 1) n False r1 h1 = Some (b, k, result', h')" "h1 = used2 @ h'"
            "str_ok result'" "max_length result' = max_length r1"
            "if b then k = p + 1 + length (hex_prefix ?rest) \<and> bytes_of result' = resume False (bytes_of r1) ?vs
             else No_Memory \<in> set used2 \<or> max_length r1 < len r1 + n" by blast
        have l: "len r1 = len result + 1" using ok(3,5) Suc.prems(3) len_bytes [of r1] by simp
        have "resume False (bytes_of r1) ?vs = resume high (bytes_of result) (val # ?vs)"
          unfolding ok(5) resume_high using True by simp
        then show ?thesis unfolding step ok(1) pre using ok(2,4) ih l Some
          by (intro exI [of _ b] exI [of _ k] exI [of _ result'] exI [of _ "used @ used2"] exI [of _ h']) auto
      qed
    next
      case False
      then have ne: "bytes_of result \<noteq> []" using Suc.prems(4) by simp
      define m where "m = len result"
      have lm: "length (bytes_of result) = m" using Suc.prems(3) by (simp add: m_def)
      moreover have "0 < length (bytes_of result)" using ne by (rule length_greater_0_conv [THEN iffD2])
      ultimately have m: "1 \<le> m" "length (bytes_of result) = m" by linarith+
      have gl: "dbus_string_get_length result = Some m" using Suc.prems(3) by (simp add: dbus_string_get_length_def m_def)
      have gb: "dbus_string_get_byte result (m - 1) = Some (last (bytes_of result))"
        using Suc.prems(3) m byte_at_readable [of result "m - 1"] ne
        by (simp add: dbus_string_get_byte_def m_def last_conv_nth)
      have fits: "m - 1 + length [last (bytes_of result) OR val] \<le> len result" using m by (simp add: m_def)
      obtain r1 where r1: "poke result (m - 1) [last (bytes_of result) OR val] = Some r1" "str_ok r1"
        "max_length r1 = max_length result"
        "bytes_of r1 = take (m - 1) (bytes_of result) @ [last (bytes_of result) OR val] @
           drop (m - 1 + length [last (bytes_of result) OR val]) (bytes_of result)"
        by (rule poke_ok [OF Suc.prems(3) fits])
      have b1: "bytes_of r1 = butlast (bytes_of result) @ [last (bytes_of result) OR val]"
        using r1(4) m by (simp add: butlast_conv_take)
      have step: "hex_decode_loop source p (Suc n) high result h = hex_decode_loop source (p + 1) n True r1 h"
        using False m r1(1) gl gb Suc.prems(3)
        by (simp add: c Some dbus_string_set_byte_def)
      from Suc.IH [OF Suc.prems(1) p1 r1(2), of True h] obtain b k result' used2 h' where
        ih: "hex_decode_loop source (p + 1) n True r1 h = Some (b, k, result', h')" "h = used2 @ h'"
          "str_ok result'" "max_length result' = max_length r1"
          "if b then k = p + 1 + length (hex_prefix ?rest) \<and> bytes_of result' = resume True (bytes_of r1) ?vs
           else No_Memory \<in> set used2 \<or> max_length r1 < len r1 + n" by blast
      have l: "len r1 = len result" using b1 m r1(2) len_bytes [of r1] by (simp add: m_def)
      have "resume True (bytes_of r1) ?vs = resume high (bytes_of result) (val # ?vs)"
        using False b1 by simp
      then show ?thesis unfolding step pre using ih l r1(3) Some
        by (intro exI [of _ b] exI [of _ k] exI [of _ result'] exI [of _ used2] exI [of _ h']) auto
    qed
  qed
qed

lemma hex_decode_ok:
  assumes s: "str_ok source" "start \<le> len source" and d: "str_ok dest" "i \<le> len dest"
    and m: "max_length dest = MAX_MAX_LENGTH"
  shows "\<exists>ok dest' e used h'. dbus_string_hex_decode source start dest i h = Some (ok, dest', e, h') \<and> h = used @ h' \<and>
     str_ok dest' \<and> max_length dest' = max_length dest \<and>
     (if ok then e = Some (start + length (hex_prefix (drop start (bytes_of source)))) \<and>
          bytes_of dest' = splice i 0 (hex_decoded (drop start (bytes_of source))) (bytes_of dest)
      else e = None \<and> bytes_of dest' = bytes_of dest \<and>
          (No_Memory \<in> set used \<or> max_length dest < len dest + (len source - start)))"
proof -
  let ?xs = "drop start (bytes_of source)"
  have gl: "dbus_string_get_length source = Some (len source)" using s by (simp add: dbus_string_get_length_def)
  have g: "guard (start \<le> len source) = Some ()" using s by simp
  show ?thesis
  proof (cases rule: init_ok [where old = uninitialized and h = h, case_names failed granted])
    case (failed h1)
    then show ?thesis using gl g d
      by (intro exI [of _ False] exI [of _ dest] exI [of _ None] exI [of _ "[No_Memory]"] exI [of _ h1])
        (simp add: dbus_string_hex_decode_def)
  next
    case (granted r used h1)
    have all: "take (len source - start) ?xs = ?xs" using s by simp
    have r0: "len r = 0" using granted(3,4) len_bytes [of r] by simp
    have fit: "start + (len source - start) \<le> len source" using s by simp
    from hex_decode_loop_ok [OF str_ok_readable [OF s(1)] fit granted(3), of True h1, unfolded all]
    obtain ok k r' used1 h2 where
      a: "hex_decode_loop source start (len source - start) True r h1 = Some (ok, k, r', h2)" "h1 = used1 @ h2"
        "str_ok r'" "max_length r' = max_length r"
        "if ok then k = start + length (hex_prefix ?xs) \<and>
            bytes_of r' = resume True (bytes_of r) (map (\<lambda>c. the (hex_val c)) (hex_prefix ?xs))
         else No_Memory \<in> set used1 \<or> max_length r < len r + (len source - start)" by auto
    show ?thesis
    proof (cases ok)
      case False
      then have "dbus_string_hex_decode source start dest i h = Some (False, dest, None, h2)"
        unfolding dbus_string_hex_decode_def gl g granted(1) Option.bind.bind_lunit prod.case a(1)
        using a(3) by (simp add: dbus_string_free_def)
      moreover have "No_Memory \<in> set (used @ used1) \<or> max_length dest < len dest + (len source - start)"
        using a(5) False r0 m granted(5) by auto
      ultimately show ?thesis using d(1) granted(2) a(2)
        by (intro exI [of _ False] exI [of _ dest] exI [of _ None] exI [of _ "used @ used1"] exI [of _ h2]) simp
    next
      case True
      have mr: "max_length r' = max_length dest" using a(4) granted(5) m by simp
      obtain ok2 r2 dest' used2 h3 where mv:
        "do { (retval, result, dest, h) \<leftarrow> dbus_string_move r' 0 dest i h2;
              result \<leftarrow> dbus_string_free result;
              Some (retval, dest, if retval then Some k else None, h) } = Some (ok2, dest', if ok2 then Some k else None, h3)"
        "h2 = used2 @ h3" "str_ok dest'" "max_length dest' = max_length dest"
        "if ok2 then bytes_of dest' = splice i 0 (bytes_of r') (bytes_of dest)
         else bytes_of dest' = bytes_of dest \<and> (No_Memory \<in> set used2 \<or> max_length dest < len dest + len r')"
        by (rule move_result_ok [OF a(3) d mr, where k = "\<lambda>ok dest h. (ok, dest, if ok then Some k else None, h)" and h = h2])
      have b: "bytes_of r' = hex_decoded ?xs" using a(5) True granted(4) by (simp add: hex_decoded_def)
      have "length (pack vs) \<le> length vs" for vs by (induction vs rule: pack.induct) simp_all
      then have "length (hex_decoded ?xs) \<le> length (hex_prefix ?xs)" unfolding hex_decoded_def by (metis length_map)
      moreover have "length (hex_prefix ?xs) \<le> length ?xs" unfolding hex_prefix_def by (rule length_takeWhile_le)
      ultimately have l: "len r' \<le> len source - start" using b a(3) s(1) len_bytes [of r'] by simp
      have "dbus_string_hex_decode source start dest i h = Some (ok2, dest', if ok2 then Some k else None, h3)"
        unfolding dbus_string_hex_decode_def gl g granted(1) Option.bind.bind_lunit prod.case a(1) mv(1) [symmetric]
        using True by simp
      then show ?thesis using mv b l granted(2) a(2,5) True
        by (intro exI [of _ ok2] exI [of _ dest'] exI [of _ "if ok2 then Some k else None"]
            exI [of _ "used @ used1 @ used2"] exI [of _ h3]) auto
    qed
  qed
qed

text \<open>Decoding undoes encoding.\<close>

lemma all_bytes:
  assumes "list_all (\<lambda>n. P (word_of_nat n)) [0..<256]"
  shows "P (b :: byte)"
proof -
  have "unat b < 256" using unsigned_less [of b] by simp
  then have "unat b \<in> set [0..<256]" by simp
  then have "P (word_of_nat (unat b))" using assms by (simp only: list_all_iff)
  then show ?thesis by simp
qed

lemma hex_val_digits: "map hex_val hexdigits = map Some [0, 1, 2, 3, 4, 5, 6, 7, 8, 9, 10, 11, 12, 13, 14, 15]"
  by (simp add: hexdigits_def hex_val_def)

lemma hex_val_hexdigit: "k < 16 \<Longrightarrow> hex_val (hexdigits ! k) = Some (word_of_nat k)"
proof -
  assume k: "k < 16"
  have l: "length hexdigits = 16" by (simp add: hexdigits_def)
  have "[0, 1, 2, 3, 4, 5, 6, 7, 8, 9, 10, 11, 12, 13, 14, 15] = map word_of_nat [0..<16 :: nat]"
    by (simp add: upt_rec)
  then have "map hex_val hexdigits ! k = map Some (map word_of_nat [0..<16 :: nat]) ! k"
    unfolding hex_val_digits by (rule arg_cong)
  also have "\<dots> = Some (word_of_nat k)" using k by simp
  finally show ?thesis using k l by simp
qed

lemma hex_decoded_bytes: "hex_decoded (concat (map hex_of_byte bs)) = bs \<and>
    hex_prefix (concat (map hex_of_byte bs)) = concat (map hex_of_byte bs)"
proof (induction bs)
  case Nil
  then show ?case by (simp add: hex_decoded_def hex_prefix_def)
next
  case (Cons b bs)
  have v: "hex_val (hexdigits ! unat (drop_bit 4 b)) = Some (drop_bit 4 b)"
    "hex_val (hexdigits ! unat (b AND 0x0F)) = Some (b AND 0x0F)"
    using hex_val_hexdigit nibbles [of b] by simp_all
  have "push_bit 4 (drop_bit 4 b) OR (b AND 0x0F) = b"
  proof -
    have "b AND 0x0F = take_bit 4 b" by (simp add: take_bit_eq_mask mask_eq_exp_minus_1)
    then show ?thesis by (simp only:) (rule bit_word_eqI, auto simp: bit_simps)
  qed
  then show ?case using Cons v by (simp add: hex_decoded_def hex_prefix_def hex_of_byte_def)
qed

section \<open>UTF-8\<close>

text \<open>Bit fields as arithmetic.\<close>

lemma and_field: "x AND push_bit n (mask m) = push_bit n (take_bit m (drop_bit n (x :: 'a::len word)))"
  by (rule bit_word_eqI) (auto simp: bit_simps)

lemma unat_field: "n + m \<le> LENGTH('a) \<Longrightarrow> unat (push_bit n (take_bit m (drop_bit n (x :: 'a::len word)))) = unat x div 2 ^ n mod 2 ^ m * 2 ^ n"
proof -
  assume l: "n + m \<le> LENGTH('a)"
  have "unat x div 2 ^ n mod 2 ^ m * 2 ^ n < 2 ^ (m + n)"
    by (simp add: power_add)
  also have "\<dots> \<le> 2 ^ LENGTH('a)" using l by (simp add: add.commute)
  finally have less: "unat x div 2 ^ n mod 2 ^ m * 2 ^ n < 2 ^ LENGTH('a)" .
  have "unat (drop_bit n x) = unat x div 2 ^ n"
    unfolding unat_drop_bit_eq by (rule drop_bit_eq_div)
  then have "unat (take_bit m (drop_bit n x)) = unat x div 2 ^ n mod 2 ^ m"
    unfolding unsigned_take_bit_eq by (simp only: take_bit_eq_mod)
  then show ?thesis
    unfolding unsigned_push_bit_eq by (simp only: push_bit_eq_mult take_bit_eq_mod mod_less [OF less])
qed

lemma surrogate: "(r :: 32 word) AND 0xFFFFF800 = 0xD800 \<longleftrightarrow> unat r div 2048 = 27"
proof -
  have e: "push_bit 11 (mask 21) = (0xFFFFF800 :: 32 word)" by (simp add: mask_eq_exp_minus_1)
  have "unat (r AND 0xFFFFF800) = unat r div 2048 mod 2097152 * 2048"
    using unat_field [of 11 21 r] and_field [of r 11 21] unfolding e by simp
  moreover have "unat r < 4294967296" using unsigned_less [of r] by simp
  moreover have "r AND 0xFFFFF800 = 0xD800 \<longleftrightarrow> unat (r AND 0xFFFFF800) = unat (0xD800 :: 32 word)"
    by (simp only: word_unat_eq_iff)
  ultimately show ?thesis by simp
qed

lemma nonchar: "(r :: 32 word) AND 0xFFFE = 0xFFFE \<longleftrightarrow> unat r mod 65536 div 2 = 32767"
proof -
  have e: "push_bit 1 (mask 15) = (0xFFFE :: 32 word)" by (simp add: mask_eq_exp_minus_1)
  have "unat (r AND 0xFFFE) = unat r div 2 mod 32768 * 2"
    using unat_field [of 1 15 r] and_field [of r 1 15] unfolding e by simp
  moreover have "r AND 0xFFFE = 0xFFFE \<longleftrightarrow> unat (r AND 0xFFFE) = unat (0xFFFE :: 32 word)"
    by (simp only: word_unat_eq_iff)
  moreover have "unat r mod 65536 div 2 = unat r div 2 mod 32768" using mod_mult2_eq [of "unat r" 2 32768] by simp
  ultimately show ?thesis by simp
qed

text \<open>The code points that may be interchanged and their encodings.\<close>

definition scalar :: "nat \<Rightarrow> bool" where
  "scalar c \<longleftrightarrow> 0 < c \<and> c < 0x110000 \<and> c div 0x800 \<noteq> 27 \<and> (c < 0xFDD0 \<or> 0xFDEF < c) \<and>
     c mod 0x10000 div 2 \<noteq> 0x7FFF"

definition utf8_encode :: "nat \<Rightarrow> byte list" where
  "utf8_encode c =
     (if c < 0x80 then [word_of_nat c]
      else if c < 0x800 then [word_of_nat (0xC0 + c div 64), word_of_nat (0x80 + c mod 64)]
      else if c < 0x10000 then
        [word_of_nat (0xE0 + c div 4096), word_of_nat (0x80 + c div 64 mod 64), word_of_nat (0x80 + c mod 64)]
      else [word_of_nat (0xF0 + c div 262144), word_of_nat (0x80 + c div 4096 mod 64),
            word_of_nat (0x80 + c div 64 mod 64), word_of_nat (0x80 + c mod 64)])"

definition utf8_text :: "byte list \<Rightarrow> bool" where
  "utf8_text xs \<longleftrightarrow> (\<exists>cs. list_all scalar cs \<and> xs = concat (map utf8_encode cs))"

text \<open>One turn of the loop on the bytes that are left.\<close>

fun gather :: "32 word \<Rightarrow> byte list \<Rightarrow> 32 word" where
  "gather r [] = r"
| "gather r (c # cs) = (if c AND 0xC0 \<noteq> 0x80 then - 1 else gather (push_bit 6 r OR (ucast c AND 0x3F)) cs)"

fun turn :: "byte list \<Rightarrow> nat option" where
  "turn [] = None"
| "turn (c # cs) =
     (if c = 0 then None
      else if c < 128 then Some 1
      else
        let (msk, n) = utf8_compute c; r = gather (ucast c AND msk) (take (n - 1) cs) in
        if n = 0 \<or> Suc (length cs) < n \<or> utf8_length r \<noteq> n \<or> \<not> unicode_valid r then None else Some n)"

lemma utf8_get_loop_gather:
  "readable s \<Longrightarrow> p + n \<le> len s \<Longrightarrow> utf8_get_loop s p n r = Some (gather r (take n (drop p (bytes_of s))))"
proof (induction n arbitrary: p r)
  case (Suc n)
  then show ?case using byte_at_readable [of s p] drop_step [of s p] by simp
qed simp

lemma not_minus_one: "unicode_valid r \<Longrightarrow> r \<noteq> - 1"
  by (auto simp: unicode_valid_def)

lemma utf8_step_turn:
  assumes s: "readable s" and p: "p < end" "end \<le> len s"
  shows "utf8_step s p end = Some (turn (take (end - p) (drop p (bytes_of s))))"
proof -
  let ?c = "bytes_of s ! p" and ?cs = "take (end - p - 1) (drop (p + 1) (bytes_of s))"
  have d: "take (end - p) (drop p (bytes_of s)) = ?c # ?cs"
    using drop_step [OF s, of p] p by (simp add: take_Cons')
  have l: "length ?cs = end - p - 1" using s p by simp
  have c: "byte_at s p = Some ?c" using byte_at_readable [OF s] p by simp
  obtain msk n where mn: "utf8_compute ?c = (msk, n)" by fastforce
  have get: "utf8_get s p msk n = Some (gather (ucast ?c AND msk) (take (n - 1) ?cs))" if "n \<noteq> 0" "n \<le> end - p"
  proof -
    have "p + 1 + (n - 1) \<le> len s" using that p by simp
    moreover have "take (n - 1) ?cs = take (n - 1) (drop (p + 1) (bytes_of s))" using that by (simp add: min_def)
    ultimately show ?thesis using utf8_get_loop_gather [OF s, of "p + 1" "n - 1"] by (simp add: utf8_get_def c)
  qed
  show ?thesis
    unfolding d utf8_step_def c Option.bind.bind_lunit
    using get l p not_minus_one by (auto simp: mn Let_def)
qed

text \<open>The bytes of a sequence, by their values.\<close>

lemma mask_value: "n \<le> 8 \<Longrightarrow> unat (ucast (c :: byte) AND mask n :: 32 word) = unat c mod 2 ^ n"
proof -
  assume n: "n \<le> 8"
  have "unat c < 2 ^ 8" using unsigned_less [of c] by simp
  then have "unat (ucast c :: 32 word) = unat c" by (simp add: unsigned_ucast_eq take_bit_eq_mod)
  then show ?thesis unfolding take_bit_eq_mask [symmetric] unsigned_take_bit_eq by (simp only: take_bit_eq_mod)
qed

lemma mask_six: "unat (ucast (c :: byte) AND 0x3F :: 32 word) = unat c mod 64"
  using mask_value [of 6 c] by (simp add: mask_eq_exp_minus_1)

lemma mask_five: "unat (ucast (c :: byte) AND 0x1F :: 32 word) = unat c mod 32"
  using mask_value [of 5 c] by (simp add: mask_eq_exp_minus_1)

lemma mask_four: "unat (ucast (c :: byte) AND 0x0F :: 32 word) = unat c mod 16"
  using mask_value [of 4 c] by (simp add: mask_eq_exp_minus_1)

lemma mask_three: "unat (ucast (c :: byte) AND 0x07 :: 32 word) = unat c mod 8"
  using mask_value [of 3 c] by (simp add: mask_eq_exp_minus_1)

lemma mask_two: "unat (ucast (c :: byte) AND 0x03 :: 32 word) = unat c mod 4"
  using mask_value [of 2 c] by (simp add: mask_eq_exp_minus_1)

lemma mask_one: "unat (ucast (c :: byte) AND 0x01 :: 32 word) = unat c mod 2"
  using mask_value [of 1 c] by (simp add: mask_eq_exp_minus_1)

lemmas byte_masks = mask_six mask_five mask_four mask_three mask_two mask_one

text \<open>The leading bits of a byte.\<close>

lemma field_eq:
  assumes "n + m = 8"
  shows "(c :: byte) AND push_bit n (mask m) = k \<longleftrightarrow> unat c div 2 ^ n * 2 ^ n = unat k"
proof -
  have "unat c < 2 ^ (m + n)" using unsigned_less [of c] assms by (simp add: add.commute)
  then have "unat c div 2 ^ n < 2 ^ m" by (simp add: power_add less_mult_imp_div_less)
  then have "unat c div 2 ^ n mod 2 ^ m = unat c div 2 ^ n" by simp
  then have "unat (c AND push_bit n (mask m)) = unat c div 2 ^ n * 2 ^ n"
    using unat_field [of n m c] assms by (simp add: and_field)
  then show ?thesis by (simp only: word_unat_eq_iff)
qed

lemma continuation: "((c :: byte) AND 0xC0 = 0x80) = (unat c div 64 = 2)"
proof -
  have "push_bit 6 (mask 2) = (0xC0 :: byte)" by (simp add: mask_eq_exp_minus_1)
  then show ?thesis using field_eq [where n = 6 and m = 2 and c = c and k = "0x80"] by (simp only:) simp
qed

lemma lead_two: "((c :: byte) AND 0xE0 = 0xC0) = (unat c div 32 = 6)"
proof -
  have "push_bit 5 (mask 3) = (0xE0 :: byte)" by (simp add: mask_eq_exp_minus_1)
  then show ?thesis using field_eq [where n = 5 and m = 3 and c = c and k = "0xC0"] by (simp only:) simp
qed

lemma lead_three: "((c :: byte) AND 0xF0 = 0xE0) = (unat c div 16 = 14)"
proof -
  have "push_bit 4 (mask 4) = (0xF0 :: byte)" by (simp add: mask_eq_exp_minus_1)
  then show ?thesis using field_eq [where n = 4 and m = 4 and c = c and k = "0xE0"] by (simp only:) simp
qed

lemma lead_four: "((c :: byte) AND 0xF8 = 0xF0) = (unat c div 8 = 30)"
proof -
  have "push_bit 3 (mask 5) = (0xF8 :: byte)" by (simp add: mask_eq_exp_minus_1)
  then show ?thesis using field_eq [where n = 3 and m = 5 and c = c and k = "0xF0"] by (simp only:) simp
qed

lemma lead_five: "((c :: byte) AND 0xFC = 0xF8) = (unat c div 4 = 62)"
proof -
  have "push_bit 2 (mask 6) = (0xFC :: byte)" by (simp add: mask_eq_exp_minus_1)
  then show ?thesis using field_eq [where n = 2 and m = 6 and c = c and k = "0xF8"] by (simp only:) simp
qed

lemma lead_six: "((c :: byte) AND 0xFE = 0xFC) = (unat c div 2 = 126)"
proof -
  have "push_bit 1 (mask 7) = (0xFE :: byte)" by (simp add: mask_eq_exp_minus_1)
  then show ?thesis using field_eq [where n = 1 and m = 7 and c = c and k = "0xFC"] by (simp only:) simp
qed

lemma utf8_compute_value:
  "utf8_compute c =
     (if unat c < 128 then (0x7F, 1) else if unat c div 32 = 6 then (0x1F, 2)
      else if unat c div 16 = 14 then (0x0F, 3) else if unat c div 8 = 30 then (0x07, 4)
      else if unat c div 4 = 62 then (0x03, 5) else if unat c div 2 = 126 then (0x01, 6) else (0, 0))"
  unfolding utf8_compute_def lead_two lead_three lead_four lead_five lead_six word_less_nat_alt by simp

lemma shift_or:
  assumes "unat (r :: 32 word) * 64 + 63 < 2 ^ 32"
  shows "unat (push_bit 6 r OR (ucast (c :: byte) AND 0x3F)) = unat r * 64 + unat c mod 64"
proof -
  let ?x = "ucast c AND 0x3F :: 32 word"
  have x: "?x = take_bit 6 (ucast c)" by (simp add: take_bit_eq_mask mask_eq_exp_minus_1)
  have "push_bit 6 r AND ?x = 0" unfolding x by (rule bit_word_eqI) (auto simp: bit_simps)
  then have or: "push_bit 6 r OR ?x = push_bit 6 r + ?x" by (simp only: disjunctive_add_eq_or)
  have ux: "unat ?x = unat c mod 64" by (rule mask_six)
  have "unat (push_bit 6 r) = unat r * 64"
    unfolding unsigned_push_bit_eq using assms by (simp add: push_bit_eq_mult take_bit_eq_mod)
  moreover have "unat c mod 64 < 64" by simp
  ultimately have "unat (push_bit 6 r) + unat ?x < 2 ^ LENGTH(32)" using assms ux by simp
  then have "unat (push_bit 6 r + ?x) = unat (push_bit 6 r) + unat ?x"
    by (simp only: unat_add_lem [THEN iffD1])
  then show ?thesis unfolding or using ux \<open>unat (push_bit 6 r) = unat r * 64\<close> by simp
qed

lemma gather_continuation:
  assumes "\<exists>c \<in> set cs. unat c div 64 \<noteq> 2"
  shows "gather r cs = - 1"
  using assms by (induction cs arbitrary: r) (auto simp: continuation)

lemma gather_2:
  assumes "unat d div 64 = 2" "unat r < 32"
  shows "unat (gather r [d]) = unat r * 64 + unat d mod 64"
  using assms shift_or [of r d] by (simp add: continuation)

lemma gather_3:
  assumes "unat d div 64 = 2" "unat e div 64 = 2" "unat r < 32"
  shows "unat (gather r [d, e]) = (unat r * 64 + unat d mod 64) * 64 + unat e mod 64"
proof -
  let ?r = "push_bit 6 r OR (ucast d AND 0x3F)"
  have r: "unat ?r = unat r * 64 + unat d mod 64" using assms shift_or [of r d] by simp
  moreover have "unat d mod 64 < 64" by simp
  ultimately have "unat ?r * 64 + 63 < 2 ^ 32" using assms(3) by simp
  from shift_or [OF this, of e] show ?thesis using assms r by (simp add: continuation)
qed

lemma gather_4:
  assumes "unat d div 64 = 2" "unat e div 64 = 2" "unat f div 64 = 2" "unat r < 32"
  shows "unat (gather r [d, e, f]) = ((unat r * 64 + unat d mod 64) * 64 + unat e mod 64) * 64 + unat f mod 64"
proof -
  let ?r = "push_bit 6 r OR (ucast d AND 0x3F)"
  let ?q = "push_bit 6 ?r OR (ucast e AND 0x3F)"
  have r: "unat ?r = unat r * 64 + unat d mod 64" using assms shift_or [of r d] by simp
  moreover have m: "unat d mod 64 < 64" "unat e mod 64 < 64" by simp_all
  ultimately have "unat ?r * 64 + 63 < 2 ^ 32" using assms(4) by simp
  from shift_or [OF this, of e] have q: "unat ?q = (unat r * 64 + unat d mod 64) * 64 + unat e mod 64" using r by simp
  then have "unat ?q * 64 + 63 < 2 ^ 32" using assms(4) m by simp
  from shift_or [OF this, of f] show ?thesis using assms q by (simp add: continuation)
qed

lemma unicode_valid_value:
  "unicode_valid r \<and> r \<noteq> 0 \<longleftrightarrow> scalar (unat r)"
  by (auto simp: unicode_valid_def scalar_def surrogate nonchar word_less_nat_alt unat_gt_0)

lemma utf8_length_value:
  "utf8_length r = (if unat r < 0x80 then 1 else if unat r < 0x800 then 2 else if unat r < 0x10000 then 3
      else if unat r < 0x200000 then 4 else if unat r < 0x4000000 then 5 else 6)"
  by (simp add: utf8_length_def word_less_nat_alt)

lemma word_of_value: "unat (b :: byte) = k \<Longrightarrow> word_of_nat k = b"
  by auto

lemma digits: "(a * 64 + b mod 64) div 64 = (a :: nat)" "(a * 64 + b mod 64) mod 64 = b mod 64"
  by simp_all

lemma high_part: "(a :: nat) div k = q \<Longrightarrow> a = k * q + a mod k"
  by (metis mult_div_mod_eq)

lemma encode_2:
  fixes c d :: byte
  assumes "unat c div 32 = 6" "unat d div 64 = 2" and v: "v = unat c mod 32 * 64 + unat d mod 64" "0x80 \<le> v" "v < 0x800"
  shows "utf8_encode v = [c, d]"
proof -
  have "unat c = 192 + v div 64" "unat d = 128 + v mod 64"
    using high_part [OF assms(1)] high_part [OF assms(2)] digits [of "unat c mod 32" "unat d"]
    unfolding v(1) by linarith+
  then show ?thesis using v(2,3) by (simp add: utf8_encode_def word_of_value del: of_nat_add)
qed

lemma encode_3:
  fixes c d e :: byte
  assumes "unat c div 16 = 14" "unat d div 64 = 2" "unat e div 64 = 2"
    and v: "v = (unat c mod 16 * 64 + unat d mod 64) * 64 + unat e mod 64" "0x800 \<le> v" "v < 0x10000"
  shows "utf8_encode v = [c, d, e]"
proof -
  have q: "v div 64 = unat c mod 16 * 64 + unat d mod 64" "v mod 64 = unat e mod 64" unfolding v(1) by (rule digits)+
  have "v div 4096 = v div 64 div 64" by (simp add: div_mult2_eq [symmetric])
  then have "v div 4096 = unat c mod 16" unfolding q by simp
  moreover have "v div 64 mod 64 = unat d mod 64" unfolding q by simp
  ultimately have "unat c = 224 + v div 4096" "unat d = 128 + v div 64 mod 64" "unat e = 128 + v mod 64"
    using high_part [OF assms(1)] high_part [OF assms(2)] high_part [OF assms(3)] q(2) by linarith+
  then show ?thesis using v(2,3) by (simp add: utf8_encode_def word_of_value del: of_nat_add)
qed

lemma encode_4:
  fixes c d e f :: byte
  assumes "unat c div 8 = 30" "unat d div 64 = 2" "unat e div 64 = 2" "unat f div 64 = 2"
    and v: "v = ((unat c mod 8 * 64 + unat d mod 64) * 64 + unat e mod 64) * 64 + unat f mod 64" "0x10000 \<le> v"
  shows "utf8_encode v = [c, d, e, f]"
proof -
  define w where "w = (unat c mod 8 * 64 + unat d mod 64) * 64 + unat e mod 64"
  define u where "u = unat c mod 8 * 64 + unat d mod 64"
  have q: "v div 64 = w" "v mod 64 = unat f mod 64" unfolding v(1) w_def by (rule digits)+
  have r: "w div 64 = u" "w mod 64 = unat e mod 64" unfolding w_def u_def by (rule digits)+
  have t: "u div 64 = unat c mod 8" "u mod 64 = unat d mod 64" unfolding u_def by (rule digits)+
  have "v div 4096 = v div 64 div 64" "v div 262144 = v div 64 div 64 div 64" by (simp_all add: div_mult2_eq [symmetric])
  then have "v div 262144 = unat c mod 8" "v div 4096 mod 64 = unat d mod 64" "v div 64 mod 64 = unat e mod 64"
    by (simp_all only: q r t)
  then have "unat c = 240 + v div 262144" "unat d = 128 + v div 4096 mod 64" "unat e = 128 + v div 64 mod 64"
    "unat f = 128 + v mod 64"
    using high_part [OF assms(1)] high_part [OF assms(2)] high_part [OF assms(3)] high_part [OF assms(4)] q(2)
    by simp_all
  then show ?thesis using v(2) by (simp add: utf8_encode_def word_of_value del: of_nat_add)
qed

declare gather.simps [simp del]

text \<open>A turn of the loop accepts exactly the encoding of a code point.\<close>

lemma utf8_length_bounds:
  "utf8_length v = 2 \<Longrightarrow> 0x80 \<le> unat v \<and> unat v < 0x800"
  "utf8_length v = 3 \<Longrightarrow> 0x800 \<le> unat v \<and> unat v < 0x10000"
  "utf8_length v = 4 \<Longrightarrow> 0x10000 \<le> unat v \<and> unat v < 0x200000"
  by (auto simp: utf8_length_value split: if_splits)

lemma turn_sound:
  assumes "turn xs = Some n"
  shows "0 < n \<and> n \<le> length xs \<and> (\<exists>v. scalar v \<and> take n xs = utf8_encode v)"
proof -
  obtain c cs where xs: "xs = c # cs" using assms by (cases xs) auto
  show ?thesis
  proof (cases "c < 128")
    case True
    then have "n = 1" "c \<noteq> 0" using assms xs by (auto split: if_splits)
    moreover have u: "unat c < 128" using True by (simp add: word_less_nat_alt)
    moreover have "utf8_encode (unat c) = [c]" using u by (simp add: utf8_encode_def)
    moreover have "scalar (unat c)" using u \<open>c \<noteq> 0\<close> by (simp add: scalar_def unat_gt_0)
    ultimately show ?thesis using xs by (intro conjI exI [of _ "unat c"]) simp_all
  next
    case False
    obtain msk k where mk: "utf8_compute c = (msk, k)" by fastforce
    define v where "v = gather (ucast c AND msk) (take (k - 1) cs)"
    have r: "n = k" "k \<noteq> 0" "k \<le> Suc (length cs)" "utf8_length v = k" "unicode_valid v"
      using assms xs False mk by (auto simp: v_def Let_def split: if_splits)
    have "v \<noteq> 0" using r(4) mk utf8_compute_value [of c] False
      by (auto simp: utf8_length_value word_less_nat_alt split: if_splits)
    with r(5) have sc: "scalar (unat v)" using unicode_valid_value by blast
    have cont: "\<forall>d \<in> set (take (k - 1) cs). unat d div 64 = 2"
    proof (rule ccontr)
      assume "\<not> ?thesis"
      then have "v = - 1" unfolding v_def by (intro gather_continuation) auto
      then show False using r(5) not_minus_one by simp
    qed
    have big: "unat v < 0x110000" using sc by (simp add: scalar_def)
    from mk utf8_compute_value [of c] False r(2) big r(4)
    consider (two) "k = 2" "msk = 0x1F" "unat c div 32 = 6" | (three) "k = 3" "msk = 0x0F" "unat c div 16 = 14"
      | (four) "k = 4" "msk = 0x07" "unat c div 8 = 30"
      by (auto simp: utf8_length_value word_less_nat_alt split: if_splits)
    then have "take k xs = utf8_encode (unat v)"
    proof cases
      case two
      then obtain d ds where cs: "cs = d # ds" using r(3) by (cases cs) auto
      have t: "take (k - 1) cs = [d]" using two(1) cs by simp
      have d: "unat d div 64 = 2" using cont unfolding t by simp
      have m: "unat (ucast c AND msk :: 32 word) = unat c mod 32" unfolding two(2) by (rule mask_five)
      then have "unat v = unat c mod 32 * 64 + unat d mod 64"
        unfolding v_def t using gather_2 [OF d, of "ucast c AND msk"] by simp
      then have "utf8_encode (unat v) = [c, d]"
        using encode_2 [OF two(3) d] utf8_length_bounds(1) [of v] r(4) two(1) by simp
      then show ?thesis using two(1) cs xs by simp
    next
      case three
      then obtain d e ds where cs: "cs = d # e # ds" using r(3) by (cases cs; cases "tl cs") auto
      have t: "take (k - 1) cs = [d, e]" using three(1) cs by simp
      have d: "unat d div 64 = 2" "unat e div 64 = 2" using cont unfolding t by simp_all
      have m: "unat (ucast c AND msk :: 32 word) = unat c mod 16" unfolding three(2) by (rule mask_four)
      moreover have "unat c mod 16 < 16" by simp
      ultimately have "unat (ucast c AND msk :: 32 word) < 32" by linarith
      then have "unat v = (unat c mod 16 * 64 + unat d mod 64) * 64 + unat e mod 64"
        unfolding v_def t using gather_3 [OF d, of "ucast c AND msk"] m by simp
      then have "utf8_encode (unat v) = [c, d, e]"
        using encode_3 [OF three(3) d] utf8_length_bounds(2) [of v] r(4) three(1) by simp
      then show ?thesis using three(1) cs xs by simp
    next
      case four
      then obtain d e f ds where cs: "cs = d # e # f # ds"
        using r(3) by (cases cs; cases "tl cs"; cases "tl (tl cs)") auto
      have t: "take (k - 1) cs = [d, e, f]" using four(1) cs by simp
      have d: "unat d div 64 = 2" "unat e div 64 = 2" "unat f div 64 = 2" using cont unfolding t by simp_all
      have m: "unat (ucast c AND msk :: 32 word) = unat c mod 8" unfolding four(2) by (rule mask_three)
      moreover have "unat c mod 8 < 8" by simp
      ultimately have "unat (ucast c AND msk :: 32 word) < 32" by linarith
      then have "unat v = ((unat c mod 8 * 64 + unat d mod 64) * 64 + unat e mod 64) * 64 + unat f mod 64"
        unfolding v_def t using gather_4 [OF d, of "ucast c AND msk"] m by simp
      then have "utf8_encode (unat v) = [c, d, e, f]"
        using encode_4 [OF four(3) d] utf8_length_bounds(3) [of v] r(4) four(1) by simp
      then show ?thesis using four(1) cs xs by simp
    qed
    then show ?thesis using sc r xs by auto
  qed
qed

lemma value_of_word: "k < 256 \<Longrightarrow> unat (word_of_nat k :: byte) = k"
  by (simp add: unsigned_of_nat take_bit_eq_mod)

lemma div_mod_of: "a = q * k + r \<Longrightarrow> r < k \<Longrightarrow> a div k = q \<and> a mod k = (r :: nat)"
  by auto

lemma turn_complete:
  assumes "scalar v"
  shows "turn (utf8_encode v @ ys) = Some (length (utf8_encode v))"
proof -
  have v: "v < 0x110000" "v \<noteq> 0" using assms by (auto simp: scalar_def)
  have accept: "turn (c # cs @ ys) = Some (Suc (length cs))"
    if "utf8_compute c = (msk, Suc (length cs))" "\<not> c < 128" "unat (gather (ucast c AND msk) cs) = v"
      "utf8_length (gather (ucast c AND msk) cs) = Suc (length cs)" for c cs msk
  proof -
    have "unicode_valid (gather (ucast c AND msk) cs)" using that(3) assms unicode_valid_value by metis
    moreover have "c \<noteq> 0" using that(2) by auto
    ultimately show ?thesis using that by (simp add: Let_def)
  qed
  consider (one) "v < 0x80" | (two) "0x80 \<le> v" "v < 0x800" | (three) "0x800 \<le> v" "v < 0x10000" | (four) "0x10000 \<le> v"
    by linarith
  then show ?thesis
  proof cases
    case one
    let ?c = "word_of_nat v :: byte"
    have "unat ?c = v" using one by (simp add: value_of_word)
    then have "?c < 128" "?c \<noteq> 0" using one v by (auto simp: word_less_nat_alt)
    then show ?thesis using one by (simp add: utf8_encode_def)
  next
    case two
    define c d :: byte where "c = word_of_nat (0xC0 + v div 64)" and "d = word_of_nat (0x80 + v mod 64)"
    have u: "unat c = 0xC0 + v div 64" "unat d = 0x80 + v mod 64" "v div 64 < 32"
      using two by (simp_all add: c_def d_def value_of_word del: of_nat_add)
    have f: "unat c div 32 = 6 \<and> unat c mod 32 = v div 64" "unat d div 64 = 2 \<and> unat d mod 64 = v mod 64"
      by (rule div_mod_of; use u in simp)+
    have g: "unat (gather (ucast c AND 0x1F) [d]) = v"
      using gather_2 [of d "ucast c AND 0x1F"] f u(3) by (simp add: mask_five)
    have "turn (c # [d] @ ys) = Some (Suc (length [d]))"
    proof (rule accept [where msk = "0x1F"])
      show "\<not> c < 128" using u(1) by (simp add: word_less_nat_alt)
    qed (use g in \<open>simp_all only: utf8_compute_value utf8_length_value\<close>, use u(1) f two in simp_all)
    then show ?thesis using two by (simp add: utf8_encode_def c_def d_def del: of_nat_add)
  next
    case three
    define c d e :: byte where "c = word_of_nat (0xE0 + v div 4096)" and "d = word_of_nat (0x80 + v div 64 mod 64)"
      and "e = word_of_nat (0x80 + v mod 64)"
    have u: "unat c = 0xE0 + v div 4096" "unat d = 0x80 + v div 64 mod 64" "unat e = 0x80 + v mod 64" "v div 4096 < 16"
      using three by (simp_all add: c_def d_def e_def value_of_word del: of_nat_add)
    have f: "unat c div 16 = 14 \<and> unat c mod 16 = v div 4096" "unat d div 64 = 2 \<and> unat d mod 64 = v div 64 mod 64"
      "unat e div 64 = 2 \<and> unat e mod 64 = v mod 64" "unat c div 32 = 7 \<and> unat c mod 32 = v div 4096"
      by (rule div_mod_of; use u in simp)+
    have "v div 4096 = v div 64 div 64" by (simp add: div_mult2_eq [symmetric])
    then have w: "(v div 4096 * 64 + v div 64 mod 64) * 64 + v mod 64 = v" by simp
    have g: "unat (gather (ucast c AND 0x0F) [d, e]) = v"
      using gather_3 [of d e "ucast c AND 0x0F"] f w u(4) by (simp add: mask_four)
    have "turn (c # [d, e] @ ys) = Some (Suc (length [d, e]))"
    proof (rule accept [where msk = "0x0F"])
      show "\<not> c < 128" using u(1) by (simp add: word_less_nat_alt)
    qed (use g in \<open>simp_all only: utf8_compute_value utf8_length_value\<close>, use u(1) f three in simp_all)
    then show ?thesis using three by (simp add: utf8_encode_def c_def d_def e_def del: of_nat_add)
  next
    case four
    define c d e f :: byte where "c = word_of_nat (0xF0 + v div 262144)" and "d = word_of_nat (0x80 + v div 4096 mod 64)"
      and "e = word_of_nat (0x80 + v div 64 mod 64)" and "f = word_of_nat (0x80 + v mod 64)"
    have u: "unat c = 0xF0 + v div 262144" "unat d = 0x80 + v div 4096 mod 64" "unat e = 0x80 + v div 64 mod 64"
        "unat f = 0x80 + v mod 64" "v div 262144 < 5"
      using v by (simp_all add: c_def d_def e_def f_def value_of_word del: of_nat_add)
    have p: "unat c div 8 = 30 \<and> unat c mod 8 = v div 262144" "unat d div 64 = 2 \<and> unat d mod 64 = v div 4096 mod 64"
      "unat e div 64 = 2 \<and> unat e mod 64 = v div 64 mod 64" "unat f div 64 = 2 \<and> unat f mod 64 = v mod 64"
      "unat c div 32 = 7 \<and> unat c mod 32 = 16 + v div 262144" "unat c div 16 = 15 \<and> unat c mod 16 = v div 262144"
      by (rule div_mod_of; use u in simp)+
    have q: "v div 4096 = v div 64 div 64" "v div 262144 = v div 4096 div 64" by (simp_all add: div_mult2_eq [symmetric])
    then have w: "((v div 262144 * 64 + v div 4096 mod 64) * 64 + v div 64 mod 64) * 64 + v mod 64 = v" by simp
    have g: "unat (gather (ucast c AND 0x07) [d, e, f]) = v"
      using gather_4 [of d e f "ucast c AND 0x07"] p w u(5) by (simp add: mask_three)
    have "turn (c # [d, e, f] @ ys) = Some (Suc (length [d, e, f]))"
    proof (rule accept [where msk = "0x07"])
      show "\<not> c < 128" using u(1) by (simp add: word_less_nat_alt)
    qed (use g in \<open>simp_all only: utf8_compute_value utf8_length_value\<close>, use u(1) p four v in simp_all)
    then show ?thesis using four by (simp add: utf8_encode_def c_def d_def e_def f_def del: of_nat_add)
  qed
qed

lemma utf8_text_Cons:
  assumes "scalar v" "utf8_text xs"
  shows "utf8_text (utf8_encode v @ xs)"
proof -
  from assms(2) obtain cs where "list_all scalar cs" "xs = concat (map utf8_encode cs)" by (auto simp: utf8_text_def)
  then show ?thesis using assms(1) unfolding utf8_text_def by (intro exI [of _ "v # cs"]) simp
qed

lemma utf8_text_turn:
  assumes "xs \<noteq> []"
  shows "utf8_text xs \<longleftrightarrow> (\<exists>n. turn xs = Some n \<and> utf8_text (drop n xs))"
proof
  assume "utf8_text xs"
  then obtain cs where cs: "list_all scalar cs" "xs = concat (map utf8_encode cs)" by (auto simp: utf8_text_def)
  with assms obtain v vs where "cs = v # vs" by (cases cs) auto
  with cs turn_complete [of v "concat (map utf8_encode vs)"]
  show "\<exists>n. turn xs = Some n \<and> utf8_text (drop n xs)" by (auto simp: utf8_text_def)
next
  assume "\<exists>n. turn xs = Some n \<and> utf8_text (drop n xs)"
  then obtain n where n: "turn xs = Some n" "utf8_text (drop n xs)" by blast
  from turn_sound [OF n(1)] obtain v where "scalar v" "take n xs = utf8_encode v" by blast
  with n(2) utf8_text_Cons [of v "drop n xs"] show "utf8_text xs" by (metis append_take_drop_id)
qed

lemma utf8_loop_spec:
  assumes "readable s" "p \<le> end" "end \<le> len s"
  shows "\<exists>q. utf8_loop s p end = Some q \<and> (q = end \<longleftrightarrow> utf8_text (take (end - p) (drop p (bytes_of s))))"
  using assms
proof (induction "end - p" arbitrary: p rule: less_induct)
  case less
  let ?xs = "take (end - p) (drop p (bytes_of s))"
  show ?case
  proof (cases "p < end")
    case False
    then show ?thesis using less(3) by (subst utf8_loop.simps) (simp add: utf8_text_def exI [of _ "[]"])
  next
    case True
    have lx: "length ?xs = end - p" using less(2,4) by simp
    then have ne: "?xs \<noteq> []" using True by auto
    have st: "utf8_step s p end = Some (turn ?xs)" by (rule utf8_step_turn [OF less(2) True less(4)])
    show ?thesis
    proof (cases "turn ?xs")
      case None
      then have "utf8_loop s p end = Some p" using True st by (subst utf8_loop.simps) simp
      then show ?thesis using True None utf8_text_turn [OF ne] by auto
    next
      case (Some n)
      have n: "0 < n" "n \<le> end - p" using turn_sound [OF Some] lx by auto
      have "utf8_loop s p end = utf8_loop s (p + n) end" using True st Some by (subst utf8_loop.simps) simp
      moreover have "drop n ?xs = take (end - (p + n)) (drop (p + n) (bytes_of s))"
        using n by (simp add: drop_take add.commute)
      moreover have "\<exists>q. utf8_loop s (p + n) end = Some q \<and>
          (q = end \<longleftrightarrow> utf8_text (take (end - (p + n)) (drop (p + n) (bytes_of s))))"
        using less(1) [of "p + n"] less(2,4) n True by simp
      ultimately show ?thesis using utf8_text_turn [OF ne] Some by simp
    qed
  qed
qed

text \<open>C23: \<open>_dbus_string_validate_utf8\<close> never reads outside the string, always ends, and accepts a range exactly
  if it lies within the string and is the concatenation of the encodings of Unicode scalar values other than
  nul and the noncharacters: no overlong forms, no surrogates, nothing beyond U+10FFFF, no partial character.\<close>

theorem validate_utf8_iff:
  assumes "readable s" and "start \<le> len s"
  shows "dbus_string_validate_utf8 s start n =
    Some (n \<le> len s - start \<and> (\<exists>cs. list_all scalar cs \<and> take n (drop start (bytes_of s)) = concat (map utf8_encode cs)))"
proof (cases "n \<le> len s - start")
  case True
  then have fit: "start \<le> start + n" "start + n \<le> len s" using assms by simp_all
  from utf8_loop_spec [OF assms(1) this] obtain q where q: "utf8_loop s start (start + n) = Some q"
    "q = start + n \<longleftrightarrow> utf8_text (take n (drop start (bytes_of s)))" by auto
  then show ?thesis using True assms by (simp add: dbus_string_validate_utf8_def readable_def utf8_text_def)
next
  case False
  then show ?thesis using assms by (simp add: dbus_string_validate_utf8_def readable_def)
qed

text \<open>A constant string of the bytes of U+00E9, U+20AC and U+1F600.\<close>

definition sample :: real_string where
  "sample = \<lparr>block = [0xC3, 0xA9, 0xE2, 0x82, 0xAC, 0xF0, 0x9F, 0x98, 0x80], addr = 0, align_offset = 0,
     len = 9, allocated = 17, max_length = 10, const_data = True, locked = True, invalid = False\<rparr>"

lemma sample_readable: "readable sample"
  by (simp add: sample_def readable_def generic_preamble_def PADDING_def)

lemma validate_utf8_iff_witness:
  "dbus_string_validate_utf8 sample 2 7 = Some (7 \<le> len sample - 2 \<and>
     (\<exists>cs. list_all scalar cs \<and> take 7 (drop 2 (bytes_of sample)) = concat (map utf8_encode cs)))"
  using validate_utf8_iff [OF sample_readable, of 2 7] by (simp add: sample_def)

section \<open>Hexadecimal round trip\<close>

text \<open>C24: \<open>_dbus_string_hex_encode\<close> followed by \<open>_dbus_string_hex_decode\<close> gives back the bytes, whatever they are, and
  reports that all digits were consumed; neither faults, and either of them fails only when an allocation
  fails or the digits do not fit into a string, leaving its destination as it was.\<close>

theorem hex_roundtrip:
  assumes "str_ok s" and "str_ok t" and "str_ok u" and "bytes_of t = []" and "bytes_of u = []"
    and "max_length t = MAX_MAX_LENGTH" and "max_length u = MAX_MAX_LENGTH"
  shows "\<exists>ok t' used h'. dbus_string_hex_encode s 0 t 0 h = Some (ok, t', h') \<and> str_ok t' \<and> h = used @ h' \<and>
    (\<not> ok \<longrightarrow> bytes_of t' = [] \<and> (No_Memory \<in> set used \<or> MAX_MAX_LENGTH < 2 * len s)) \<and>
    (ok \<longrightarrow> (\<exists>ok' u' e used' h''. dbus_string_hex_decode t' 0 u 0 h' = Some (ok', u', e, h'') \<and> str_ok u' \<and> h' = used' @ h'' \<and>
       (\<not> ok' \<longrightarrow> bytes_of u' = [] \<and> No_Memory \<in> set used') \<and>
       (ok' \<longrightarrow> bytes_of u' = bytes_of s \<and> e = Some (2 * len s))))"
proof -
  let ?hex = "concat (map hex_of_byte (bytes_of s))"
  have t0: "len t = 0" and u0: "len u = 0" using assms(2-5) len_bytes [of t] len_bytes [of u] by simp_all
  have ls: "length (bytes_of s) = len s" using assms(1) by simp
  have lh: "length ?hex = 2 * len s" using ls by (simp add: hex_of_byte_def length_concat comp_def sum_list_triv)
  from hex_encode_ok [OF assms(1) le0 assms(2) le0 assms(6), of h] show ?thesis
  proof (cases rule: contractE)
    case (fail t' used h')
    then show ?thesis using assms(4,6) t0
      by (intro exI [of _ False] exI [of _ t'] exI [of _ used] exI [of _ h']) simp
  next
    case (ok t' used h')
    have b: "bytes_of t' = ?hex" using ok(5) assms(4) by (simp add: splice_def)
    have lt: "len t' = 2 * len s" using b lh ok(3) len_bytes [of t'] by simp
    have room: "\<not> max_length u < len u + (len t' - 0)"
      using str_ok_bounds [OF ok(3)] ok(4) assms(6,7) u0 by simp
    from hex_decode_ok [OF ok(3) le0 assms(3) le0 assms(7), of h'] obtain ok' u' e used' h'' where
      d: "dbus_string_hex_decode t' 0 u 0 h' = Some (ok', u', e, h'')" "h' = used' @ h''" "str_ok u'"
        "if ok' then e = Some (0 + length (hex_prefix (drop 0 (bytes_of t')))) \<and>
            bytes_of u' = splice 0 0 (hex_decoded (drop 0 (bytes_of t'))) (bytes_of u)
         else e = None \<and> bytes_of u' = bytes_of u \<and> (No_Memory \<in> set used' \<or> max_length u < len u + (len t' - 0))"
      by blast
    have "\<not> ok' \<longrightarrow> bytes_of u' = [] \<and> No_Memory \<in> set used'" using d(4) room assms(5) by (cases ok') simp_all
    moreover have "ok' \<longrightarrow> bytes_of u' = bytes_of s \<and> e = Some (2 * len s)"
      using d(4) b hex_decoded_bytes [of "bytes_of s"] lh assms(5) by (simp add: splice_def)
    ultimately have "\<exists>ok' u' e used' h''. dbus_string_hex_decode t' 0 u 0 h' = Some (ok', u', e, h'') \<and> str_ok u' \<and> h' = used' @ h'' \<and>
       (\<not> ok' \<longrightarrow> bytes_of u' = [] \<and> No_Memory \<in> set used') \<and>
       (ok' \<longrightarrow> bytes_of u' = bytes_of s \<and> e = Some (2 * len s))" using d(1,2,3) by blast
    then show ?thesis using ok
      by (intro exI [of _ True] exI [of _ t'] exI [of _ used] exI [of _ h']) simp
  qed
qed

definition three_bytes :: real_string where
  "three_bytes = empty_string\<lparr>block := [0, 0x7F, 0xFF, 0, 0, 0, 0, 0, 0, 0, 0], len := 3, allocated := 11\<rparr>"

lemma three_bytes_ok: "str_ok three_bytes"
  by (simp add: three_bytes_def empty_string_def str_ok_def string_preamble_def generic_preamble_def
      PADDING_def MAX_MAX_LENGTH_def INT_MAX_def)

lemma hex_roundtrip_witness:
  "\<exists>ok t' used h'. dbus_string_hex_encode three_bytes 0 empty_string 0 [Memory 1 [9]] = Some (ok, t', h') \<and> str_ok t' \<and>
    [Memory 1 [9]] = used @ h' \<and>
    (\<not> ok \<longrightarrow> bytes_of t' = [] \<and> (No_Memory \<in> set used \<or> MAX_MAX_LENGTH < 2 * len three_bytes)) \<and>
    (ok \<longrightarrow> (\<exists>ok' u' e used' h''. dbus_string_hex_decode t' 0 empty_string 0 h' = Some (ok', u', e, h'') \<and> str_ok u' \<and>
       h' = used' @ h'' \<and>
       (\<not> ok' \<longrightarrow> bytes_of u' = [] \<and> No_Memory \<in> set used') \<and>
       (ok' \<longrightarrow> bytes_of u' = bytes_of three_bytes \<and> e = Some (2 * len three_bytes))))"
  by (rule hex_roundtrip [OF three_bytes_ok empty_string_ok(1) empty_string_ok(1) empty_string_ok(2) empty_string_ok(2)])
    (simp_all add: empty_string_def)

text \<open>An odd digit at the end is taken for the high half of a byte: \<open>abc\<close> decodes to two bytes.\<close>

lemma odd_digits: "hex_decoded [0x61, 0x62, 0x63] = [0xAB, 0xC0]"
  by (simp add: hex_decoded_def hex_prefix_def hex_val_def)

section \<open>Character classes and case\<close>

lemma all_loop_spec:
  "readable s \<Longrightarrow> p + n \<le> len s \<Longrightarrow> all_loop P s p n = Some (list_all P (take n (drop p (bytes_of s))))"
proof (induction n arbitrary: p)
  case (Suc n)
  then show ?case using byte_at_readable [of s p] drop_step [of s p] by simp
qed simp

lemma validate_ascii_spec:
  assumes "readable s" "start \<le> len s"
  shows "dbus_string_validate_ascii s start n =
    Some (n \<le> len s - start \<and> (\<forall>c \<in> set (take n (drop start (bytes_of s))). 0 < unat c \<and> unat c < 128))"
proof -
  have c: "is_ascii c \<longleftrightarrow> 0 < unat c \<and> unat c < 128" for c
  proof -
    have "push_bit 7 (mask 1) = (NOT 0x7F :: byte)" by (simp add: mask_eq_exp_minus_1)
    then have m: "c AND NOT 0x7F = c AND push_bit 7 (mask 1)" by (simp only:)
    have "c AND push_bit 7 (mask 1) = 0 \<longleftrightarrow> unat c div 2 ^ 7 * 2 ^ 7 = unat (0 :: byte)" by (rule field_eq) simp
    then have "c AND NOT 0x7F = 0 \<longleftrightarrow> unat c < 128" unfolding m by auto
    then show ?thesis by (auto simp: is_ascii_def unat_gt_0)
  qed
  show ?thesis using assms all_loop_spec [of s start n is_ascii]
    by (auto simp: dbus_string_validate_ascii_def readable_def list_all_iff c)
qed

lemma validate_nul_spec:
  assumes "readable s" "start \<le> len s"
  shows "dbus_string_validate_nul s start n = Some (n \<le> len s - start \<and> take n (drop start (bytes_of s)) = replicate n 0)"
proof -
  have "n \<le> len s - start \<Longrightarrow>
      list_all (\<lambda>c. c = 0) (take n (drop start (bytes_of s))) \<longleftrightarrow> take n (drop start (bytes_of s)) = replicate n 0"
    using replicate_length_same [of "take n (drop start (bytes_of s))" 0] assms(1)
    by (auto simp: list_all_iff min_def split: if_splits dest: arg_cong [where f = set])
  then show ?thesis using assms all_loop_spec [of s start n "\<lambda>c. c = 0"]
    by (auto simp: dbus_string_validate_nul_def readable_def)
qed

lemma map_loop_ok:
  assumes "str_ok s" "p + n \<le> len s"
  shows "\<exists>s'. map_loop f s p n = Some s' \<and> str_ok s' \<and> max_length s' = max_length s \<and>
    bytes_of s' = take p (bytes_of s) @ map f (take n (drop p (bytes_of s))) @ drop (p + n) (bytes_of s)"
  using assms
proof (induction n arbitrary: p s)
  case (Suc n)
  let ?c = "bytes_of s ! p"
  have lt: "p < len s" and r: "readable s" using Suc.prems by simp_all
  have fits: "p + length [f ?c] \<le> len s" using lt by simp
  obtain s1 where s1: "poke s p [f ?c] = Some s1" "str_ok s1" "max_length s1 = max_length s"
    "bytes_of s1 = take p (bytes_of s) @ [f ?c] @ drop (p + length [f ?c]) (bytes_of s)"
    by (rule poke_ok [OF Suc.prems(1) fits])
  have l: "len s1 = len s" using s1(2,4) lt r len_bytes [of s1] by simp
  from Suc.IH [OF s1(2), of "p + 1"] l Suc.prems(2) obtain s' where
    s': "map_loop f s1 (p + 1) n = Some s'" "str_ok s'" "max_length s' = max_length s1"
      "bytes_of s' = take (p + 1) (bytes_of s1) @ map f (take n (drop (p + 1) (bytes_of s1))) @ drop (p + 1 + n) (bytes_of s1)"
    by auto
  then show ?case using s1 byte_at_readable [OF r lt] drop_step [OF r lt] r lt by (simp add: add.commute)
qed simp

lemma tolower_ok:
  assumes "str_ok s" "start \<le> len s" "n \<le> len s - start"
  obtains s' where "dbus_string_tolower_ascii s start n = Some s'" "str_ok s'"
    "bytes_of s' = take start (bytes_of s) @ map tolower (take n (drop start (bytes_of s))) @ drop (start + n) (bytes_of s)"
proof -
  have "start + n \<le> len s" using assms by simp
  from map_loop_ok [OF assms(1) this, of tolower] that assms show thesis by (auto simp: dbus_string_tolower_ascii_def)
qed

lemma toupper_ok:
  assumes "str_ok s" "start \<le> len s" "n \<le> len s - start"
  obtains s' where "dbus_string_toupper_ascii s start n = Some s'" "str_ok s'"
    "bytes_of s' = take start (bytes_of s) @ map toupper (take n (drop start (bytes_of s))) @ drop (start + n) (bytes_of s)"
proof -
  have "start + n \<le> len s" using assms by simp
  from map_loop_ok [OF assms(1) this, of toupper] that assms show thesis by (auto simp: dbus_string_toupper_ascii_def)
qed

end
