(* ===== verification/Sha.thy ===== *)
theory Sha
  imports String_Codec
begin

text \<open>
  SHA-1 (\<open>dbus/dbus-sha.c\<close>). The code keeps the message schedule in a circular buffer of 16 words, renames
  the five working variables instead of moving them, and accesses the data area of its context both as bytes
  and as words; on a little endian machine it reverses the bytes of the words, so the byte order of the
  machine is a parameter. The reference is the definition of FIPS 180-1 on a padded message; the main
  theorem says that the streaming computation over any pieces gives it.
\<close>

unbundle bit_operations_syntax

section \<open>The code\<close>

definition SHA_DATASIZE :: nat where "SHA_DATASIZE = 64"
definition SHA_DIGESTSIZE :: nat where "SHA_DIGESTSIZE = 20"

definition f1 :: "32 word \<Rightarrow> 32 word \<Rightarrow> 32 word \<Rightarrow> 32 word" where "f1 x y z = z XOR (x AND (y XOR z))"
definition f2 :: "32 word \<Rightarrow> 32 word \<Rightarrow> 32 word \<Rightarrow> 32 word" where "f2 x y z = x XOR y XOR z"
definition f3 :: "32 word \<Rightarrow> 32 word \<Rightarrow> 32 word \<Rightarrow> 32 word" where "f3 x y z = (x AND y) OR (z AND (x OR y))"
definition f4 :: "32 word \<Rightarrow> 32 word \<Rightarrow> 32 word \<Rightarrow> 32 word" where "f4 x y z = x XOR y XOR z"

definition K1 :: "32 word" where "K1 = 0x5A827999"
definition K2 :: "32 word" where "K2 = 0x6ED9EBA1"
definition K3 :: "32 word" where "K3 = 0x8F1BBCDC"
definition K4 :: "32 word" where "K4 = 0xCA62C1D6"

definition h_init :: "32 word list" where
  "h_init = [0x67452301, 0xEFCDAB89, 0x98BADCFE, 0x10325476, 0xC3D2E1F0]"

definition ROTL :: "nat \<Rightarrow> 32 word \<Rightarrow> 32 word" where
  "ROTL n X = push_bit n X OR drop_bit (32 - n) X"

definition expand :: "32 word list \<Rightarrow> nat \<Rightarrow> 32 word list" where
  "expand W i = W[i mod 16 :=
     ROTL 1 (W ! (i mod 16) XOR W ! ((i - 14) mod 16) XOR W ! ((i - 8) mod 16) XOR W ! ((i - 3) mod 16))]"

text \<open>The \<open>i\<close>-th \<open>subRound\<close> line of \<open>SHATransform\<close> names the five variables A, B, C, D, E in an order
  that is rotated by one each line; \<open>role i k\<close> is the variable that line \<open>i\<close> passes as the \<open>k\<close>-th argument.\<close>

definition role :: "nat \<Rightarrow> nat \<Rightarrow> nat" where
  "role i k = (k + 5 - i mod 5) mod 5"

definition sub_round :: "nat \<Rightarrow> (32 word \<Rightarrow> 32 word \<Rightarrow> 32 word \<Rightarrow> 32 word) \<Rightarrow> 32 word \<Rightarrow> 32 word \<Rightarrow> 32 word list \<Rightarrow> 32 word list" where
  "sub_round i f k data vs =
     (let a = role i 0; b = role i 1; c = role i 2; d = role i 3; e = role i 4;
          vs = vs[e := vs ! e + (ROTL 5 (vs ! a) + f (vs ! b) (vs ! c) (vs ! d) + k + data)]
      in vs[b := ROTL 30 (vs ! b)])"

definition round_fun :: "nat \<Rightarrow> 32 word \<Rightarrow> 32 word \<Rightarrow> 32 word \<Rightarrow> 32 word" where
  "round_fun i = (if i < 20 then f1 else if i < 40 then f2 else if i < 60 then f3 else f4)"

definition round_const :: "nat \<Rightarrow> 32 word" where
  "round_const i = (if i < 20 then K1 else if i < 40 then K2 else if i < 60 then K3 else K4)"

definition transform_line :: "nat \<Rightarrow> 32 word list \<times> 32 word list \<Rightarrow> 32 word list \<times> 32 word list" where
  "transform_line i = (\<lambda>(vs, eData).
     let eData = (if i < 16 then eData else expand eData i)
     in (sub_round i (round_fun i) (round_const i) (eData ! (i mod 16)) vs, eData))"

definition SHATransform :: "32 word list \<Rightarrow> 32 word list \<Rightarrow> 32 word list" where
  "SHATransform digest data =
     (let (vs, eData) = fold transform_line [0..<80] (digest, data)
      in map2 (+) digest vs)"

text \<open>Words in memory, on a machine of either byte order.\<close>

definition word_at :: "bool \<Rightarrow> byte \<Rightarrow> byte \<Rightarrow> byte \<Rightarrow> byte \<Rightarrow> 32 word" where
  "word_at bigendian a b c d =
     (if bigendian then push_bit 24 (ucast a) OR push_bit 16 (ucast b) OR push_bit 8 (ucast c) OR ucast d
      else push_bit 24 (ucast d) OR push_bit 16 (ucast c) OR push_bit 8 (ucast b) OR ucast a)"

definition bytes_at :: "bool \<Rightarrow> 32 word \<Rightarrow> byte list" where
  "bytes_at bigendian w =
     (let bs = [ucast (drop_bit 24 w), ucast (drop_bit 16 w), ucast (drop_bit 8 w), ucast w]
      in if bigendian then bs else rev bs)"

fun words_in :: "bool \<Rightarrow> byte list \<Rightarrow> 32 word list" where
  "words_in bigendian (a # b # c # d # bs) = word_at bigendian a b c d # words_in bigendian bs"
| "words_in bigendian bs = []"

definition bytes_in :: "bool \<Rightarrow> 32 word list \<Rightarrow> byte list" where
  "bytes_in bigendian ws = concat (map (bytes_at bigendian) ws)"

definition swap_le_be :: "32 word \<Rightarrow> 32 word" where
  "swap_le_be w = push_bit 24 (w AND 0x000000FF) OR push_bit 8 (w AND 0x0000FF00)
     OR drop_bit 8 (w AND 0x00FF0000) OR drop_bit 24 (w AND 0xFF000000)"

definition swap_words :: "bool \<Rightarrow> byte list \<Rightarrow> nat \<Rightarrow> byte list" where
  "swap_words bigendian buffer byte_count =
     (if bigendian then buffer
      else bytes_in bigendian (map swap_le_be (words_in bigendian (take byte_count buffer))) @ drop byte_count buffer)"

record sha_context =
  digest :: "32 word list"
  count_lo :: "32 word"
  count_hi :: "32 word"
  data :: "byte list"

definition sha_init :: "sha_context \<Rightarrow> sha_context" where
  "sha_init context = context\<lparr>digest := h_init, count_lo := 0, count_hi := 0\<rparr>"

text \<open>\<open>swap_words\<close> on the whole data area and the transformation that follows it each time.\<close>

definition process :: "bool \<Rightarrow> sha_context \<Rightarrow> sha_context" where
  "process bigendian context =
     (let area = swap_words bigendian (data context) SHA_DATASIZE
      in context\<lparr>data := area, digest := SHATransform (digest context) (words_in bigendian area)\<rparr>)"

function chunk_loop :: "bool \<Rightarrow> byte list \<Rightarrow> sha_context \<Rightarrow> (byte list \<times> sha_context) option" where
  "chunk_loop bigendian buffer context =
     (if length buffer \<ge> SHA_DATASIZE then do {
        area \<leftarrow> write_block (data context) 0 (take SHA_DATASIZE buffer);
        chunk_loop bigendian (drop SHA_DATASIZE buffer) (process bigendian (context\<lparr>data := area\<rparr>)) }
      else Some (buffer, context))"
  by pat_completeness auto
termination by (relation "measure (\<lambda>(e, buffer, c). length buffer)") (auto simp: SHA_DATASIZE_def)

definition sha_append :: "bool \<Rightarrow> sha_context \<Rightarrow> byte list \<Rightarrow> sha_context option" where
  "sha_append bigendian context buffer =
     (let tmp = count_lo context; count = length buffer;
          lo = tmp + push_bit 3 (word_of_nat count);
          hi = (if lo < tmp then count_hi context + 1 else count_hi context);
          context = context\<lparr>count_lo := lo, count_hi := hi + word_of_nat (drop_bit 29 count)\<rparr>;
          dataCount = unat (drop_bit 3 tmp AND 0x3F)
      in if dataCount \<noteq> 0 \<and> count < SHA_DATASIZE - dataCount then do {
           area \<leftarrow> write_block (data context) dataCount buffer;
           Some (context\<lparr>data := area\<rparr>) }
         else do {
           (buffer, context) \<leftarrow>
             (if dataCount \<noteq> 0 then do {
                area \<leftarrow> write_block (data context) dataCount (take (SHA_DATASIZE - dataCount) buffer);
                Some (drop (SHA_DATASIZE - dataCount) buffer, process bigendian (context\<lparr>data := area\<rparr>)) }
              else Some (buffer, context));
           (buffer, context) \<leftarrow> chunk_loop bigendian buffer context;
           area \<leftarrow> write_block (data context) 0 buffer;
           Some (context\<lparr>data := area\<rparr>) })"

definition sha_finish :: "bool \<Rightarrow> sha_context \<Rightarrow> (byte list \<times> sha_context) option" where
  "sha_finish bigendian context =
     (let count = unat (signed_drop_bit 3 (count_lo context) AND 0x3F) in do {
        area \<leftarrow> write_block (data context) count [0x80];
        let data_p = count + 1;
        let count = SHA_DATASIZE - 1 - count;
        context \<leftarrow>
          (if count < 8 then do {
             area \<leftarrow> write_block area data_p (replicate count 0);
             let context = process bigendian (context\<lparr>data := area\<rparr>);
             area \<leftarrow> write_block (data context) 0 (replicate (SHA_DATASIZE - 8) 0);
             Some (context\<lparr>data := area\<rparr>) }
           else do {
             area \<leftarrow> write_block area data_p (replicate (count - 8) 0);
             Some (context\<lparr>data := area\<rparr>) });
        area \<leftarrow> write_block (data context) 56 (bytes_at bigendian (count_hi context));
        area \<leftarrow> write_block area 60 (bytes_at bigendian (count_lo context));
        let area = swap_words bigendian area (SHA_DATASIZE - 8);
        let d = SHATransform (digest context) (words_in bigendian area);
        let out = swap_words bigendian (bytes_in bigendian d) SHA_DIGESTSIZE;
        Some (take SHA_DIGESTSIZE out, context\<lparr>data := area, digest := words_in bigendian out\<rparr>) })"

definition dbus_sha_init :: "sha_context \<Rightarrow> sha_context" where
  "dbus_sha_init context = sha_init context"

definition dbus_sha_update :: "bool \<Rightarrow> sha_context \<Rightarrow> real_string \<Rightarrow> sha_context option" where
  "dbus_sha_update bigendian context s = do {
     n \<leftarrow> dbus_string_get_length s;
     input \<leftarrow> peek s 0 n;
     sha_append bigendian context input }"

definition zero_context :: sha_context where
  "zero_context = \<lparr>digest = replicate 5 0, count_lo = 0, count_hi = 0, data = replicate 64 0\<rparr>"

definition dbus_sha_final ::
    "bool \<Rightarrow> sha_context \<Rightarrow> real_string \<Rightarrow> heap \<Rightarrow> (bool \<times> sha_context \<times> real_string \<times> heap) option" where
  "dbus_sha_final bigendian context results h = do {
     (d, context) \<leftarrow> sha_finish bigendian context;
     (ok, results, h) \<leftarrow> dbus_string_append_len results d 20 h;
     if \<not> ok then Some (False, context, results, h)
     else Some (True, zero_context, results, h) }"

text \<open>\<open>old\<close> is what the stack holds where the context lives.\<close>

definition dbus_sha_compute ::
    "bool \<Rightarrow> sha_context \<Rightarrow> real_string \<Rightarrow> real_string \<Rightarrow> heap \<Rightarrow> (bool \<times> real_string \<times> heap) option" where
  "dbus_sha_compute bigendian old s ascii_output h = do {
     let context = dbus_sha_init old;
     context \<leftarrow> dbus_sha_update bigendian context s;
     (ok, d, h) \<leftarrow> dbus_string_init uninitialized h;
     if \<not> ok then Some (False, ascii_output, h)
     else do {
       (ok, context, d, h) \<leftarrow> dbus_sha_final bigendian context d h;
       (ok, ascii_output, h) \<leftarrow>
         (if \<not> ok then Some (False, ascii_output, h)
          else do {
            n \<leftarrow> dbus_string_get_length ascii_output;
            dbus_string_hex_encode d 0 ascii_output n h });
       d \<leftarrow> dbus_string_free d;
       Some (ok, ascii_output, h) } }"

section \<open>The standard\<close>

text \<open>FIPS 180-1: the functions and constants of a round, the schedule of 80 words, the compression of a
  block, and the padding of a message to whole blocks.\<close>

definition sha_f :: "nat \<Rightarrow> 32 word \<Rightarrow> 32 word \<Rightarrow> 32 word \<Rightarrow> 32 word" where
  "sha_f t b c d =
     (if t < 20 then (b AND c) OR (NOT b AND d) else if t < 40 then b XOR c XOR d
      else if t < 60 then (b AND c) OR (b AND d) OR (c AND d) else b XOR c XOR d)"

definition sha_k :: "nat \<Rightarrow> 32 word" where
  "sha_k t = (if t < 20 then 0x5A827999 else if t < 40 then 0x6ED9EBA1 else if t < 60 then 0x8F1BBCDC else 0xCA62C1D6)"

definition schedule_word :: "32 word list \<Rightarrow> nat \<Rightarrow> 32 word" where
  "schedule_word W t = word_rotl 1 (W ! (t - 3) XOR W ! (t - 8) XOR W ! (t - 14) XOR W ! (t - 16))"

definition schedule :: "32 word list \<Rightarrow> nat \<Rightarrow> 32 word list" where
  "schedule M n = fold (\<lambda>t W. W @ [schedule_word W t]) [16..<n] M"

fun sha_round :: "32 word list \<Rightarrow> nat \<Rightarrow> 32 word list \<Rightarrow> 32 word list" where
  "sha_round W t [a, b, c, d, e] =
     [word_rotl 5 a + sha_f t b c d + e + W ! t + sha_k t, a, word_rotl 30 b, c, d]"
| "sha_round W t vs = vs"

definition compress :: "32 word list \<Rightarrow> 32 word list \<Rightarrow> 32 word list" where
  "compress H M = map2 (+) H (fold (sha_round (schedule M 80)) [0..<80] H)"

function blocks :: "byte list \<Rightarrow> byte list list" where
  "blocks xs = (if length xs < 64 then [] else take 64 xs # blocks (drop 64 xs))"
  by pat_completeness auto
termination by (relation "measure length") auto

definition big_endian_64 :: "nat \<Rightarrow> byte list" where
  "big_endian_64 n = map (\<lambda>i. word_of_nat (n div 256 ^ (7 - i))) [0..<8]"

definition pad :: "byte list \<Rightarrow> byte list" where
  "pad m = m @ [0x80] @ replicate ((119 - length m mod 64) mod 64) 0 @ big_endian_64 (8 * length m)"

definition sha_chain :: "byte list \<Rightarrow> 32 word list" where
  "sha_chain m = fold (\<lambda>b H. compress H (words_in True b)) (blocks m) h_init"

definition sha1 :: "byte list \<Rightarrow> byte list" where
  "sha1 m = bytes_in True (sha_chain (pad m))"


section \<open>The block transformation\<close>

subsection \<open>The functions of a round\<close>

lemma ROTL_rotl:
  assumes "0 < n" "n < 32" shows "ROTL n w = word_rotl n w"
proof (rule bit_word_eqI)
  fix k assume "k < LENGTH(32)"
  then have k: "k < 32" by simp
  show "bit (ROTL n w) k = bit (word_rotl n w) k"
  proof (cases "n \<le> k")
    case True
    then have "(k + (32 - n)) mod 32 = k - n" using k assms by (metis (no_types, lifting) Nat.add_diff_assoc add.commute diff_add_assoc2 less_imp_le_nat less_imp_diff_less mod_add_self2 mod_less)
    moreover have "\<not> bit w (32 - n + k)" using True bit_imp_le_length [of w "32 - n + k"] by auto
    ultimately show ?thesis using k assms True by (simp add: ROTL_def bit_simps)
  next
    case False
    then have "(k + (32 - n)) mod 32 = 32 - n + k" using assms by simp
    with False show ?thesis using k assms by (simp add: ROTL_def bit_simps)
  qed
qed

lemma round_fun_is: "round_fun i x y z = sha_f i x y z"
proof -
  have f1: "f1 x y z = (x AND y) OR (NOT x AND z)"
    unfolding f1_def by (rule bit_word_eqI) (auto simp: bit_simps)
  have f3: "f3 x y z = (x AND y) OR (x AND z) OR (y AND z)"
    unfolding f3_def by (rule bit_word_eqI) (auto simp: bit_simps)
  show ?thesis by (simp add: round_fun_def sha_f_def f1 f3) (simp add: f2_def f4_def)
qed

lemma round_const_is: "round_const i = sha_k i"
  by (simp add: round_const_def sha_k_def K1_def K2_def K3_def K4_def)

subsection \<open>The renamed variables\<close>

text \<open>The variables after \<open>i\<close> lines hold the values of the standard in the order rotated by \<open>i\<close>.\<close>

definition renamed :: "nat \<Rightarrow> 32 word list \<Rightarrow> 32 word list" where
  "renamed i vs = map (\<lambda>k. vs ! ((k + i) mod 5)) [0..<5]"

lemma five: "length vs = 5 \<Longrightarrow> \<exists>a b c d e. vs = [a, b, c, d, e]"
  by (simp add: numeral_eq_Suc length_Suc_conv) blast

lemma mod_five_cases: "(i :: nat) mod 5 = 0 \<or> i mod 5 = 1 \<or> i mod 5 = 2 \<or> i mod 5 = 3 \<or> i mod 5 = 4"
  by presburger

lemma renamed_mod: "renamed i vs = renamed (i mod 5) vs"
  by (simp add: renamed_def mod_simps)

lemma role_mod: "role i k = role (i mod 5) k"
  by (simp add: role_def)

lemma sub_round_renamed:
  assumes "length vs = 5"
  shows "sub_round i (round_fun i) (round_const i) (W ! i) (renamed i vs) = renamed (Suc i) (sha_round W i vs)"
proof -
  obtain a b c d e where vs: "vs = [a, b, c, d, e]" using five [OF assms] by blast
  define m where "m = i mod 5"
  have Suc_m: "Suc i mod 5 = Suc m mod 5" by (simp add: m_def mod_simps)
  have "sub_round i f k x (renamed i vs) = sub_round m f k x (renamed m vs)" for f k x
    by (simp add: sub_round_def role_mod [of i] renamed_mod [of i] m_def)
  moreover have "renamed (Suc i) us = renamed (Suc m) us" for us
    by (metis Suc_m renamed_mod)
  moreover have "sub_round m f k x (renamed m vs)
      = renamed (Suc m) [word_rotl 5 a + f b c d + e + x + k, a, word_rotl 30 b, c, d]" for f k x
    using mod_five_cases [of i]
    by (auto simp: m_def [symmetric] sub_round_def role_def renamed_def upt_rec ROTL_rotl Let_def vs ac_simps)
  ultimately show ?thesis by (simp add: vs round_fun_is round_const_is)
qed

lemma length_sha_round: "length vs = 5 \<Longrightarrow> length (sha_round W i vs) = 5"
  using five [of vs] by auto

lemma length_rounds: "length vs = 5 \<Longrightarrow> length (fold (sha_round W) is vs) = 5"
  by (induction "is" arbitrary: vs) (simp_all add: length_sha_round)

subsection \<open>The circular schedule\<close>

lemma schedule_Suc: "16 \<le> n \<Longrightarrow> schedule M (Suc n) = schedule M n @ [schedule_word (schedule M n) n]"
  by (simp add: schedule_def)

lemma length_schedule: "16 \<le> n \<Longrightarrow> length M = 16 \<Longrightarrow> length (schedule M n) = n"
  by (induction n rule: dec_induct) (simp_all add: schedule_Suc, simp add: schedule_def)

lemma schedule_prefix:
  assumes "length M = 16" "16 \<le> n" "n \<le> m" "t < n"
  shows "schedule M m ! t = schedule M n ! t"
  using assms(3, 4)
proof (induction m rule: dec_induct)
  case (step m)
  then show ?case using assms by (simp add: schedule_Suc nth_append length_schedule)
qed simp

lemma schedule_start: "length M = 16 \<Longrightarrow> t < 16 \<Longrightarrow> 16 \<le> m \<Longrightarrow> schedule M m ! t = M ! t"
  using schedule_prefix [of M 16 m t] by (simp add: schedule_def)

lemma schedule_later:
  assumes "length M = 16" "16 \<le> t" "t < m"
  shows "schedule M m ! t = schedule_word (schedule M m) t"
proof -
  have "schedule M m ! t = schedule M (Suc t) ! t" using assms by (intro schedule_prefix) auto
  also have "\<dots> = schedule_word (schedule M t) t"
    using assms by (simp add: schedule_Suc nth_append length_schedule)
  also have "\<dots> = schedule_word (schedule M m) t"
    using assms by (simp add: schedule_word_def schedule_prefix [of M t m])
  finally show ?thesis .
qed

text \<open>The buffer of 16 words holds the last 16 words of the schedule.\<close>

definition holds :: "32 word list \<Rightarrow> nat \<Rightarrow> 32 word list \<Rightarrow> bool" where
  "holds W n eData \<longleftrightarrow> length eData = 16 \<and> (\<forall>j < n. n \<le> j + 16 \<longrightarrow> eData ! (j mod 16) = W ! j)"

lemma holdsD: "holds W n eData \<Longrightarrow> j < n \<Longrightarrow> n \<le> j + 16 \<Longrightarrow> eData ! (j mod 16) = W ! j"
  by (simp add: holds_def)

lemma holds_start: "length M = 16 \<Longrightarrow> 16 \<le> m \<Longrightarrow> holds (schedule M m) 16 M"
  by (simp add: holds_def schedule_start)

lemma holds_expand:
  assumes e: "holds W i eData" and i: "16 \<le> i" and W: "W ! i = schedule_word W i"
  shows "holds W (Suc i) (expand eData i)"
  unfolding holds_def
proof (intro conjI allI impI)
  have len: "length eData = 16" using e by (simp add: holds_def)
  then show "length (expand eData i) = 16" by (simp add: expand_def)
  have prev: "eData ! ((i - k) mod 16) = W ! (i - k)" if "0 < k" "k \<le> 16" for k
    using holdsD [OF e, of "i - k"] that i by simp
  have "(i - 16) mod 16 = i mod 16" using i by (simp add: le_mod_geq)
  then have new: "ROTL 1 (eData ! (i mod 16) XOR eData ! ((i - 14) mod 16) XOR eData ! ((i - 8) mod 16)
      XOR eData ! ((i - 3) mod 16)) = W ! i"
    using prev [of 16] by (simp add: W schedule_word_def ROTL_rotl prev ac_simps)
  fix j assume j: "j < Suc i" "Suc i \<le> j + 16"
  show "expand eData i ! (j mod 16) = W ! j"
  proof (cases "j = i")
    case True
    then show ?thesis by (simp add: expand_def new [symmetric] len)
  next
    case False
    have "j mod 16 \<noteq> i mod 16"
    proof
      assume "j mod 16 = i mod 16"
      then have "16 dvd i - j" using j mod_eq_dvd_iff_nat [of j i 16] by simp
      then show False using j False by (auto dest!: dvd_imp_le)
    qed
    then show ?thesis using holdsD [OF e, of j] False j by (simp add: expand_def)
  qed
qed

lemma transform_lines:
  assumes M: "length M = 16" and H: "length H = 5" and i: "i \<le> 80"
  defines "W \<equiv> schedule M 80"
  shows "\<exists>eData. fold transform_line [0..<i] (H, M) = (renamed i (fold (sha_round W) [0..<i] H), eData)
    \<and> holds W (max 16 i) eData"
  using i
proof (induction i)
  case 0
  have "renamed 0 H = H" using five [OF H] by (auto simp: renamed_def upt_rec)
  then show ?case by (simp add: W_def holds_start M)
next
  case (Suc i)
  then obtain eData where IH:
    "fold transform_line [0..<i] (H, M) = (renamed i (fold (sha_round W) [0..<i] H), eData)"
    "holds W (max 16 i) eData" by auto
  define eData' where "eData' = (if i < 16 then eData else expand eData i)"
  have e: "holds W (max 16 (Suc i)) eData'"
    using IH(2) holds_expand [of W i eData] schedule_later [OF M, of i 80] Suc.prems
    by (cases "i < 16", cases "i = 15") (auto simp: eData'_def W_def max_def split: if_splits)
  have "eData' ! (i mod 16) = W ! i" using holdsD [OF e, of i] by simp
  then have "fold transform_line [0..<Suc i] (H, M)
      = (sub_round i (round_fun i) (round_const i) (W ! i) (renamed i (fold (sha_round W) [0..<i] H)), eData')"
    by (simp add: IH(1)) (simp add: transform_line_def Let_def eData'_def)
  then show ?case using e by (simp add: sub_round_renamed length_rounds H)
qed

lemma SHATransform_is_compress:
  assumes "length M = 16" "length H = 5"
  shows "SHATransform H M = compress H M"
proof -
  obtain eData where "fold transform_line [0..<80] (H, M)
      = (renamed 80 (fold (sha_round (schedule M 80)) [0..<80] H), eData)"
    using transform_lines [OF assms, of 80] by auto
  moreover have "renamed 80 vs = vs" if "length vs = 5" for vs
    using five [OF that] by (auto simp: renamed_def upt_rec)
  ultimately show ?thesis
    using assms by (simp add: SHATransform_def compress_def length_rounds del: upt_conv_Cons)
qed

lemma length_compress: "length H = 5 \<Longrightarrow> length (compress H M) = 5"
  by (simp add: compress_def length_rounds)


section \<open>Words in memory\<close>

lemma shifted_masks:
  "(0xFF00 :: 32 word) = push_bit 8 (mask 8)" "(0xFF0000 :: 32 word) = push_bit 16 (mask 8)"
  "(0xFF000000 :: 32 word) = push_bit 24 (mask 8)" "(0xFF :: 32 word) = mask 8"
  by (simp_all add: mask_eq_exp_minus_1)

lemma byte_bit: "8 \<le> n \<Longrightarrow> \<not> bit (a :: byte) n"
  using bit_imp_le_length [of a n] by auto

lemma four_bytes:
  obtains "n < 8" | k where "n = k + 8" "k < 8" | k where "n = k + 16" "k < 8" | k where "n = k + 24" "k < 8"
  | k where "n = k + (32 :: nat)"
proof -
  consider "n < 8" | "8 \<le> n" "n < 16" | "16 \<le> n" "n < 24" | "24 \<le> n" "n < 32" | "32 \<le> n" by linarith
  then show thesis
    using that(1) that(2) [of "n - 8"] that(3) [of "n - 16"] that(4) [of "n - 24"] that(5) [of "n - 32"]
    by cases simp_all
qed

lemma bit_word_at: "bit (word_at True a b c d) n =
    (if n < 8 then bit d n else if n < 16 then bit c (n - 8) else if n < 24 then bit b (n - 16)
     else n < 32 \<and> bit a (n - 24))"
  unfolding word_at_def by (cases n rule: four_bytes) (simp_all add: bit_simps byte_bit)

lemma word_at_order: "word_at False a b c d = word_at True d c b a"
  by (simp add: word_at_def)

lemma bit_swap_le_be: "bit (swap_le_be w) n =
    (if n < 8 then bit w (24 + n) else if n < 16 then bit w (n + 8) else if n < 24 then bit w (n - 8)
     else n < 32 \<and> bit w (n - 24))"
  by (cases n rule: four_bytes) (simp_all add: swap_le_be_def shifted_masks bit_simps)

lemma swap_le_be_word: "swap_le_be (word_at False a b c d) = word_at True a b c d"
proof (rule bit_word_eqI)
  show "bit (swap_le_be (word_at False a b c d)) n = bit (word_at True a b c d) n" for n
    by (cases n rule: four_bytes) (simp_all add: bit_swap_le_be word_at_order bit_word_at)
qed

lemma bytes_at_swap: "bytes_at False (swap_le_be w) = bytes_at True w"
  by (auto simp: bytes_at_def Let_def bit_simps bit_swap_le_be add.commute intro!: bit_word_eqI)

lemma word_at_bytes:
  "word_at True (ucast (drop_bit 24 w)) (ucast (drop_bit 16 w)) (ucast (drop_bit 8 w)) (ucast w) = w"
proof (rule bit_word_eqI)
  show "bit (word_at True (ucast (drop_bit 24 w)) (ucast (drop_bit 16 w)) (ucast (drop_bit 8 w)) (ucast w)) n
      = bit w n" if "n < LENGTH(32)" for n
    using that by (cases n rule: four_bytes) (simp_all add: bit_word_at bit_simps ac_simps)
qed

lemma words_in_append:
  "length xs mod 4 = 0 \<Longrightarrow> words_in e (xs @ ys) = words_in e xs @ words_in e ys"
  by (induction e xs rule: words_in.induct) auto

lemma length_words_in: "length (words_in e bs) = length bs div 4"
  by (induction e bs rule: words_in.induct) auto

lemma length_bytes_at [simp]: "length (bytes_at e w) = 4"
  by (simp add: bytes_at_def Let_def)

lemma length_bytes_in [simp]: "length (bytes_in e ws) = 4 * length ws"
  by (induction ws) (simp_all add: bytes_in_def)

lemma bytes_in_Cons: "bytes_in e (w # ws) = bytes_at e w @ bytes_in e ws"
  by (simp add: bytes_in_def)

lemma words_in_bytes_at: "words_in e (bytes_at e w @ bs) = w # words_in e bs"
  by (cases e) (simp_all add: bytes_at_def Let_def word_at_bytes word_at_order)

lemma words_in_bytes_in: "words_in e (bytes_in e ws) = ws"
  by (induction ws) (simp_all add: bytes_in_Cons words_in_bytes_at, simp add: bytes_in_def)

lemma words_in_swapped: "length bs mod 4 = 0 \<Longrightarrow> map swap_le_be (words_in False bs) = words_in True bs"
  by (induction False bs rule: words_in.induct) (auto simp: swap_le_be_word)

lemma bytes_in_swapped: "bytes_in False (map swap_le_be ws) = bytes_in True ws"
  by (induction ws) (simp_all add: bytes_in_Cons bytes_at_swap, simp add: bytes_in_def)

text \<open>Whatever the byte order of the machine, the words of the swapped area are those a big endian machine
  reads; the words behind the swapped part are read as they are.\<close>

lemma words_in_swap_words:
  assumes "length xs mod 4 = 0"
  shows "words_in e (swap_words e (xs @ bytes_in e ws) (length xs)) = words_in True xs @ ws"
proof (cases e)
  case True
  then show ?thesis using assms by (simp add: swap_words_def words_in_append words_in_bytes_in)
next
  case False
  then show ?thesis using assms
    by (simp add: swap_words_def words_in_append words_in_bytes_in words_in_swapped)
qed

lemma swap_words_bytes_in: "swap_words e (bytes_in e ws) (4 * length ws) = bytes_in True ws"
  by (cases e) (simp_all add: swap_words_def words_in_bytes_in bytes_in_swapped)

lemma length_swap_words: "length xs mod 4 = 0 \<Longrightarrow> n mod 4 = 0 \<Longrightarrow> n \<le> length xs \<Longrightarrow> length (swap_words e xs n) = length xs"
  by (auto simp: swap_words_def length_words_in min_def)


section \<open>Blocks and the context\<close>

declare blocks.simps [simp del] chunk_loop.simps [simp del]

lemma blocks_short: "length t < 64 \<Longrightarrow> blocks t = []"
  by (simp add: blocks.simps)

lemma blocks_one: "length b = 64 \<Longrightarrow> blocks b = [b]"
  by (simp add: blocks.simps)

lemma blocks_append: "64 dvd length xs \<Longrightarrow> blocks (xs @ ys) = blocks xs @ blocks ys"
proof (induction xs rule: blocks.induct)
  case (1 xs)
  show ?case
  proof (cases "length xs < 64")
    case True
    then have "xs = []" using 1 by (auto dest!: dvd_imp_le)
    then show ?thesis by (simp add: blocks_short)
  next
    case False
    then have "64 dvd length xs - 64" using 1 by (simp add: dvd_minus_self)
    then show ?thesis using False 1 by (simp add: blocks.simps [of "xs @ ys"] blocks.simps [of xs])
  qed
qed

lemma sha_chain_append:
  "64 dvd length xs \<Longrightarrow> sha_chain (xs @ ys) = fold (\<lambda>b H. compress H (words_in True b)) (blocks ys) (sha_chain xs)"
  by (simp add: sha_chain_def blocks_append)

lemma sha_chain_tail: "64 dvd length xs \<Longrightarrow> length t < 64 \<Longrightarrow> sha_chain (xs @ t) = sha_chain xs"
  by (simp add: sha_chain_append blocks_short)

lemma sha_chain_block:
  "64 dvd length xs \<Longrightarrow> length b = 64 \<Longrightarrow> sha_chain (xs @ b) = compress (sha_chain xs) (words_in True b)"
  by (simp add: sha_chain_append blocks_one)

lemma length_sha_chain [simp]: "length (sha_chain m) = 5"
proof -
  have "length H = 5 \<Longrightarrow> length (fold (\<lambda>b H. compress H (words_in True b)) bs H) = 5" for bs H
    by (induction bs arbitrary: H) (simp_all add: length_compress)
  then show ?thesis by (simp add: sha_chain_def h_init_def)
qed

text \<open>The digest and the data area of a context that has absorbed whole blocks \<open>xs\<close> and holds \<open>t\<close>.\<close>

definition absorbed :: "sha_context \<Rightarrow> byte list \<Rightarrow> byte list \<Rightarrow> bool" where
  "absorbed c xs t \<longleftrightarrow> 64 dvd length xs \<and> digest c = sha_chain xs \<and> length (data c) = 64 \<and> length t \<le> 64
     \<and> take (length t) (data c) = t"

lemma absorbedI:
  "64 dvd length xs \<Longrightarrow> digest c = sha_chain xs \<Longrightarrow> data c = t @ rest \<Longrightarrow> length t + length rest = 64 \<Longrightarrow> absorbed c xs t"
  by (simp add: absorbed_def)

lemma absorbedE:
  assumes "absorbed c xs t"
  obtains rest where "64 dvd length xs" "digest c = sha_chain xs" "data c = t @ rest" "length t + length rest = 64"
proof -
  have "data c = t @ drop (length t) (data c)"
    using assms append_take_drop_id [of "length t" "data c"] by (simp add: absorbed_def)
  then show thesis using assms that by (simp add: absorbed_def)
qed

lemma absorbed_write:
  assumes c: "absorbed c xs t" and t: "length t + length b \<le> 64"
  obtains area where "write_block (data c) (length t) b = Some area"
    "\<And>c'. digest c' = digest c \<Longrightarrow> data c' = area \<Longrightarrow> absorbed c' xs (t @ b)"
proof -
  obtain rest where "64 dvd length xs" "digest c = sha_chain xs" "data c = t @ rest" "length t + length rest = 64"
    using c by (rule absorbedE)
  moreover from this have "write_block (data c) (length t) b = Some ((t @ b) @ drop (length b) rest)"
    using t by (simp add: write_block_def)
  ultimately show thesis using t by (intro that) (assumption, intro absorbedI, auto)
qed

lemma absorbed_process:
  assumes c: "absorbed c xs b" and b: "length b = 64"
  shows "absorbed (process e c) (xs @ b) []" "count_lo (process e c) = count_lo c" "count_hi (process e c) = count_hi c"
proof -
  have d: "data c = b" "digest c = sha_chain xs" "64 dvd length xs" using c b by (auto simp: absorbed_def)
  have "words_in e (swap_words e b 64) = words_in True b"
    using words_in_swap_words [of b e "[]"] b by (simp add: bytes_in_def)
  then have "digest (process e c) = sha_chain (xs @ b)"
    using d b by (simp add: process_def Let_def SHA_DATASIZE_def SHATransform_is_compress length_words_in sha_chain_block)
  moreover have "length (data (process e c)) = 64"
    using b by (simp add: process_def Let_def SHA_DATASIZE_def d length_swap_words)
  ultimately show "absorbed (process e c) (xs @ b) []" using d b by (simp add: absorbed_def)
qed (simp_all add: process_def Let_def)

lemma chunk_loop_absorbs:
  assumes "absorbed c xs []"
  shows "\<exists>ys t c'. buf = ys @ t \<and> length t < 64 \<and> chunk_loop e buf c = Some (t, c') \<and> absorbed c' (xs @ ys) []
    \<and> count_lo c' = count_lo c \<and> count_hi c' = count_hi c"
  using assms
proof (induction e buf c arbitrary: xs rule: chunk_loop.induct)
  case (1 e buf c)
  show ?case
  proof (cases "length buf < 64")
    case True
    then show ?thesis using 1(2) by (simp add: chunk_loop.simps SHA_DATASIZE_def)
  next
    case False
    then have b: "length (take 64 buf) = 64" by simp
    obtain area where area: "write_block (data c) 0 (take 64 buf) = Some area"
      "absorbed (c\<lparr>data := area\<rparr>) xs (take 64 buf)"
      by (rule absorbed_write [OF 1(2), of "take 64 buf"]) (use b in auto)
    note p = absorbed_process [OF area(2) b, of e]
    have big: "SHA_DATASIZE \<le> length buf" using False by (simp add: SHA_DATASIZE_def)
    obtain ys t c' where r: "drop 64 buf = ys @ t" "length t < 64"
      "chunk_loop e (drop 64 buf) (process e (c\<lparr>data := area\<rparr>)) = Some (t, c')"
      "absorbed c' ((xs @ take 64 buf) @ ys) []" "count_lo c' = count_lo c" "count_hi c' = count_hi c"
      using 1(1) [OF big _ p(1), unfolded SHA_DATASIZE_def] area(1) p(2, 3) by auto
    have "buf = (take 64 buf @ ys) @ t" using r(1) append_take_drop_id [of 64 buf] by simp
    moreover have "chunk_loop e buf c = Some (t, c')"
      using r(3) area(1) big by (simp add: chunk_loop.simps [of e buf c] SHA_DATASIZE_def)
    ultimately show ?thesis using r by (intro exI [of _ "take 64 buf @ ys"] exI [of _ t] exI [of _ c']) simp
  qed
qed

subsection \<open>The bit count\<close>

definition counted :: "sha_context \<Rightarrow> nat \<Rightarrow> bool" where
  "counted c n \<longleftrightarrow> count_lo c = word_of_nat (8 * n) \<and> count_hi c = word_of_nat (8 * n div 2 ^ 32)"

lemma unat_32: "unat (word_of_nat n :: 32 word) = n mod 2 ^ 32"
  by (simp add: unsigned_of_nat take_bit_eq_mod)

lemma six_bits: "(0x3F :: 32 word) = mask 6"
  by (simp add: mask_eq_exp_minus_1)

lemma unat_drop_3: "unat (drop_bit 3 (word_of_nat m :: 32 word) AND 0x3F) = m mod 2 ^ 32 div 8 mod 64"
proof -
  have "unat (drop_bit 3 (word_of_nat m :: 32 word) AND 0x3F) = take_bit 6 (drop_bit 3 (m mod 2 ^ 32))"
    unfolding six_bits take_bit_eq_mask [symmetric] unsigned_take_bit_eq unat_drop_bit_eq unat_32 ..
  then show ?thesis unfolding take_bit_eq_mod drop_bit_eq_div by simp
qed

lemma held_bytes: "unat (drop_bit 3 (word_of_nat (8 * n) :: 32 word) AND 0x3F) = n mod 64"
proof -
  have "8 * n mod 2 ^ 32 = 8 * (n mod 2 ^ 29)" using mult_mod_right [of 8 n "2 ^ 29"] by simp
  then have "unat (drop_bit 3 (word_of_nat (8 * n) :: 32 word) AND 0x3F) = n mod 2 ^ 29 mod 64"
    unfolding unat_drop_3 by simp
  also have "\<dots> = n mod 64" by (rule mod_mod_cancel) simp
  finally show ?thesis .
qed

lemma carry:
  assumes "0 < (M :: nat)"
  shows "(a + b) div M = a div M + b div M + (if M \<le> a mod M + b mod M then 1 else 0)"
    "(a + b) mod M < a mod M \<longleftrightarrow> M \<le> a mod M + b mod M"
proof -
  have less: "a mod M < M" "b mod M < M" using assms by auto
  have two: "x div M = (if M \<le> x then 1 else 0)" "x mod M = (if M \<le> x then x - M else x)" if "x < 2 * M" for x
    using that assms by (auto simp: div_if mod_if)
  have sum: "a mod M + b mod M < 2 * M" using add_strict_mono [OF less] by (simp only: mult_2)
  show "(a + b) div M = a div M + b div M + (if M \<le> a mod M + b mod M then 1 else 0)"
    unfolding div_add1_eq [of a b M] two(1) [OF sum] ..
  show "(a + b) mod M < a mod M \<longleftrightarrow> M \<le> a mod M + b mod M"
    unfolding mod_add_eq [of a M b, symmetric] two(2) [OF sum] using less by (simp only: split: if_splits) arith
qed

lemma counted_add:
  assumes c: "counted c n" and lo: "lo = count_lo c + push_bit 3 (word_of_nat k)"
  shows "lo = word_of_nat (8 * (n + k))"
    "(if lo < count_lo c then count_hi c + 1 else count_hi c) + word_of_nat (drop_bit 29 k) = word_of_nat (8 * (n + k) div 2 ^ 32)"
proof -
  have "push_bit 3 (word_of_nat k :: 32 word) = word_of_nat (8 * k)"
    by (simp add: push_bit_eq_mult)
  then show l: "lo = word_of_nat (8 * (n + k))"
    using c unfolding lo counted_def by (simp only: of_nat_add [symmetric] distrib_left)
  have d: "drop_bit 29 k = 8 * k div 2 ^ 32"
    using div_mult_mult1 [of 8 k "2 ^ 29"] by (simp add: drop_bit_eq_div)
  have i: "lo < count_lo c \<longleftrightarrow> 2 ^ 32 \<le> 8 * n mod 2 ^ 32 + 8 * k mod 2 ^ 32"
    using c unfolding l counted_def word_less_nat_alt
    by (simp only: unat_32 distrib_left carry(2) [of "2 ^ 32" "8 * n" "8 * k", OF zero_less_power, OF zero_less_numeral])
  show "(if lo < count_lo c then count_hi c + 1 else count_hi c) + word_of_nat (drop_bit 29 k) = word_of_nat (8 * (n + k) div 2 ^ 32)"
    using c carry(1) [of "2 ^ 32" "8 * n" "8 * k"] unfolding i d counted_def distrib_left
    by (simp only: of_nat_add split: if_splits) simp_all
qed

lemma byte_of_count: "k \<le> 24 \<Longrightarrow> ucast (drop_bit k (word_of_nat n :: 32 word)) = (word_of_nat (n div 2 ^ k) :: byte)"
  unfolding drop_bit_eq_div [symmetric] by (rule bit_word_eqI) (simp add: bit_simps)

lemma big_endian_64_words: "big_endian_64 n = bytes_at True (word_of_nat (n div 2 ^ 32)) @ bytes_at True (word_of_nat n)"
proof -
  have "[0..<8] = [0, 1, 2, 3, 4, 5, 6, 7 :: nat]" by code_simp
  then show ?thesis
    using byte_of_count [of 0 n] byte_of_count [of 0 "n div 2 ^ 32"]
    by (simp add: big_endian_64_def bytes_at_def Let_def byte_of_count div_mult2_eq [symmetric])
qed

subsection \<open>Streaming\<close>

definition ctx_ok :: "sha_context \<Rightarrow> byte list \<Rightarrow> bool" where
  "ctx_ok c m \<longleftrightarrow> (\<exists>xs t. m = xs @ t \<and> length t < 64 \<and> absorbed c xs t \<and> counted c (length m))"

lemma ctx_okE:
  assumes "ctx_ok c m"
  obtains xs t where "m = xs @ t" "length t < 64" "absorbed c xs t" "counted c (length m)" "length m mod 64 = length t"
    "64 dvd length xs"
proof -
  obtain xs t where *: "m = xs @ t" "length t < 64" "absorbed c xs t" "counted c (length m)"
    using assms by (auto simp: ctx_ok_def)
  moreover from this have "64 dvd length xs" by (simp add: absorbed_def)
  moreover from this have "(length xs + length t) mod 64 = length t"
    using *(2) by (simp add: mod_add_left_eq [symmetric] dvd_imp_mod_0 del: mod_add_left_eq)
  ultimately show thesis using that by simp
qed

lemma sha_init_ok: "length (data c) = 64 \<Longrightarrow> ctx_ok (sha_init c) []"
  by (simp add: ctx_ok_def absorbed_def counted_def sha_init_def sha_chain_def blocks_short)

lemma sha_append_ok:
  assumes "ctx_ok c m"
  obtains c' where "sha_append e c buf = Some c'" "ctx_ok c' (m @ buf)"
proof -
  obtain xs t where m: "m = xs @ t" "length t < 64" "absorbed c xs t" "counted c (length m)" "length m mod 64 = length t"
    "64 dvd length xs"
    using assms by (rule ctx_okE)
  define lo where "lo = count_lo c + push_bit 3 (word_of_nat (length buf))"
  define hi where "hi = (if lo < count_lo c then count_hi c + 1 else count_hi c) + word_of_nat (drop_bit 29 (length buf))"
  define c1 where "c1 = c\<lparr>count_lo := lo, count_hi := hi\<rparr>"
  have cnt: "count_lo c' = lo \<Longrightarrow> count_hi c' = hi \<Longrightarrow> counted c' (length (m @ buf))" for c'
    using counted_add [OF m(4) lo_def] by (simp add: hi_def counted_def)
  have c1: "absorbed c1 xs t" using m(3) by (simp add: c1_def absorbed_def)
  have held: "unat (drop_bit 3 (count_lo c) AND 0x3F) = length t"
    using m(4, 5) by (simp only: counted_def held_bytes)
  show thesis
  proof (cases "t \<noteq> [] \<and> length buf < 64 - length t")
    case True
    obtain area where area: "write_block (data c1) (length t) buf = Some area" "absorbed (c1\<lparr>data := area\<rparr>) xs (t @ buf)"
      by (rule absorbed_write [OF c1, of buf]) (use True in auto)
    have "sha_append e c buf = Some (c1\<lparr>data := area\<rparr>)"
      using area(1) True unfolding sha_append_def Let_def held lo_def [symmetric] hi_def [symmetric] c1_def [symmetric]
      by (simp add: SHA_DATASIZE_def)
    moreover have "ctx_ok (c1\<lparr>data := area\<rparr>) (m @ buf)"
      unfolding ctx_ok_def using area(2) m(1) True
      by (intro exI [of _ xs] exI [of _ "t @ buf"] conjI cnt) (auto simp: c1_def)
    ultimately show thesis by (rule that)
  next
    case False
    define k where "k = (if t = [] then 0 else 64 - length t)"
    have k: "k \<le> length buf" "t \<noteq> [] \<Longrightarrow> k = 64 - length t" "t = [] \<Longrightarrow> k = 0" using False by (auto simp: k_def)
    obtain c2 where c2: "(if length t \<noteq> 0 then do {
          area \<leftarrow> write_block (data c1) (length t) (take (SHA_DATASIZE - length t) buf);
          Some (drop (SHA_DATASIZE - length t) buf, process e (c1\<lparr>data := area\<rparr>)) } else Some (buf, c1))
        = Some (drop k buf, c2)" "absorbed c2 (xs @ t @ take k buf) []" "count_lo c2 = lo" "count_hi c2 = hi"
    proof (cases "t = []")
      case True
      then show thesis using that [of c1] c1 k(3) by (simp add: c1_def)
    next
      case t: False
      obtain area where area: "write_block (data c1) (length t) (take k buf) = Some area"
        "absorbed (c1\<lparr>data := area\<rparr>) xs (t @ take k buf)"
        by (rule absorbed_write [OF c1, of "take k buf"]) (use k t m(2) in auto)
      have "length (t @ take k buf) = 64" using k t m(2) by auto
      note p = absorbed_process [OF area(2) this, of e]
      show thesis by (rule that [of "process e (c1\<lparr>data := area\<rparr>)"])
        (use t k area(1) p in \<open>auto simp: SHA_DATASIZE_def c1_def\<close>)
    qed
    obtain ys r c3 where c3: "drop k buf = ys @ r" "length r < 64" "chunk_loop e (drop k buf) c2 = Some (r, c3)"
      "absorbed c3 ((xs @ t @ take k buf) @ ys) []" "count_lo c3 = lo" "count_hi c3 = hi"
      using chunk_loop_absorbs [OF c2(2), of "drop k buf" e] c2(3, 4) by auto
    obtain area where area: "write_block (data c3) 0 r = Some area"
        "absorbed (c3\<lparr>data := area\<rparr>) ((xs @ t @ take k buf) @ ys) r"
      by (rule absorbed_write [OF c3(4), of r]) (use c3(2) in auto)
    have "\<not> (length t \<noteq> 0 \<and> length buf < SHA_DATASIZE - length t)" using False by (simp add: SHA_DATASIZE_def)
    note not_early = if_not_P [OF this]
    have "sha_append e c buf = Some (c3\<lparr>data := area\<rparr>)"
      unfolding sha_append_def Let_def held lo_def [symmetric] hi_def [symmetric] c1_def [symmetric] not_early c2(1)
      by (simp add: c3(3) area(1))
    moreover have "m @ buf = ((xs @ t @ take k buf) @ ys) @ r"
      using m(1) c3(1) append_take_drop_id [of k buf] by simp
    then have "ctx_ok (c3\<lparr>data := area\<rparr>) (m @ buf)"
      unfolding ctx_ok_def using area(2) c3(2) by (intro exI conjI cnt) (assumption | simp add: c3)+
    ultimately show thesis by (rule that)
  qed
qed

text \<open>Padding: the bytes from the end of the message to the last eight of a block.\<close>

lemma pad_blocks:
  assumes "length m mod 64 = length t" "m = xs @ t" "64 dvd length xs"
  shows "length t < 56 \<Longrightarrow> pad m = xs @ (t @ [0x80] @ replicate (55 - length t) 0) @ big_endian_64 (8 * length m)"
    "56 \<le> length t \<Longrightarrow> length t < 64 \<Longrightarrow>
       pad m = (xs @ t @ [0x80] @ replicate (63 - length t) 0) @ replicate 56 0 @ big_endian_64 (8 * length m)"
proof -
  have "length t < 56 \<Longrightarrow> (119 - length t) mod 64 = 55 - length t"
    using div_mod_of [of "119 - length t" 1 64 "55 - length t"] by simp
  then show "length t < 56 \<Longrightarrow> pad m = xs @ (t @ [0x80] @ replicate (55 - length t) 0) @ big_endian_64 (8 * length m)"
    unfolding pad_def assms(1) by (simp add: assms(2))
  assume t: "56 \<le> length t" "length t < 64"
  then have "(119 - length t) mod 64 = (63 - length t) + 56" by simp
  then have z: "replicate ((119 - length t) mod 64) 0 = replicate (63 - length t) 0 @ replicate 56 (0 :: byte)"
    by (simp only: replicate_add)
  then show "pad m = (xs @ t @ [0x80] @ replicate (63 - length t) 0) @ replicate 56 0 @ big_endian_64 (8 * length m)"
    unfolding pad_def assms(1) z by (simp add: assms(2))
qed

lemma last_block:
  assumes c: "absorbed c xs t" and t: "length t = 56" and n: "counted c n"
  shows "\<exists>c'. (do {
        area \<leftarrow> write_block (data c) 56 (bytes_at e (count_hi c));
        area \<leftarrow> write_block area 60 (bytes_at e (count_lo c));
        let area = swap_words e area (SHA_DATASIZE - 8);
        let d = SHATransform (digest c) (words_in e area);
        let out = swap_words e (bytes_in e d) SHA_DIGESTSIZE;
        Some (take SHA_DIGESTSIZE out, c\<lparr>data := area, digest := words_in e out\<rparr>) })
    = Some (bytes_in True (sha_chain (xs @ t @ big_endian_64 (8 * n))), c')"
proof -
  obtain rest where d: "64 dvd length xs" "digest c = sha_chain xs" "data c = t @ rest" "length t + length rest = 64"
    using c by (rule absorbedE)
  define ws where "ws = [count_hi c, count_lo c]"
  have "write_block (data c) 56 (bytes_at e (count_hi c)) = Some (t @ bytes_at e (count_hi c) @ drop 4 rest)"
    using d t by (simp add: write_block_def)
  moreover have "write_block (t @ bytes_at e (count_hi c) @ drop 4 rest) 60 (bytes_at e (count_lo c)) = Some (t @ bytes_in e ws)"
    using d t by (simp add: write_block_def ws_def bytes_in_def)
  moreover have w: "words_in e (swap_words e (t @ bytes_in e ws) 56) = words_in True t @ ws"
    using words_in_swap_words [of t e ws] t by simp
  have b: "big_endian_64 (8 * n) = bytes_in True ws"
    using n by (simp add: big_endian_64_words counted_def ws_def bytes_in_def)
  have "words_in True t @ ws = words_in True (t @ big_endian_64 (8 * n))"
    using t by (simp add: words_in_append b words_in_bytes_in)
  moreover from this have "SHATransform (digest c) (words_in True t @ ws) = sha_chain (xs @ t @ big_endian_64 (8 * n))"
    using d(1, 2) t SHATransform_is_compress [of "words_in True t @ ws" "digest c"]
      sha_chain_block [OF d(1), of "t @ big_endian_64 (8 * n)"]
    by (simp add: length_words_in ws_def b)
  moreover have "swap_words e (bytes_in e (sha_chain m)) 20 = bytes_in True (sha_chain m)" for m
    using swap_words_bytes_in [of e "sha_chain m"] by simp
  ultimately show ?thesis
    by (simp add: w SHA_DATASIZE_def SHA_DIGESTSIZE_def Let_def)
qed

lemma sha_finish_ok:
  assumes "ctx_ok c m"
  shows "\<exists>c'. sha_finish e c = Some (sha1 m, c')"
proof -
  obtain xs t where m: "m = xs @ t" "length t < 64" "absorbed c xs t" "counted c (length m)" "length m mod 64 = length t"
    "64 dvd length xs"
    using assms by (rule ctx_okE)
  have "signed_drop_bit 3 (count_lo c) AND 0x3F = drop_bit 3 (count_lo c) AND mask 6"
    unfolding six_bits by (rule bit_word_eqI) (auto simp: bit_simps)
  then have held: "unat (signed_drop_bit 3 (count_lo c) AND 0x3F) = length t"
    using held_bytes [of "length m"] m(4, 5) by (simp only: counted_def six_bits)
  obtain a1 where a1: "write_block (data c) (length t) [0x80] = Some a1" "absorbed (c\<lparr>data := a1\<rparr>) xs (t @ [0x80])"
    by (rule absorbed_write [OF m(3), of "[0x80]"]) (use m(2) in auto)
  show ?thesis
  proof (cases "length t < 56")
    case True
    obtain a2 where a2: "write_block a1 (length t + 1) (replicate (55 - length t) 0) = Some a2"
      "absorbed (c\<lparr>data := a2\<rparr>) xs ((t @ [0x80]) @ replicate (55 - length t) 0)"
      by (rule absorbed_write [OF a1(2), of "replicate (55 - length t) 0"]) (use True in auto)
    have "counted (c\<lparr>data := a2\<rparr>) (length m)" using m(4) by (simp add: counted_def)
    note l = last_block [OF a2(2) _ this, of e, unfolded append_assoc]
    have "\<not> 63 - length t < 8" using True by arith
    then show ?thesis
      using l True a1(1) a2(1) pad_blocks(1) [OF m(5, 1, 6)]
      by (simp add: sha_finish_def held SHA_DATASIZE_def sha1_def Let_def)
  next
    case False
    obtain a2 where a2: "write_block a1 (length t + 1) (replicate (63 - length t) 0) = Some a2"
      "absorbed (c\<lparr>data := a2\<rparr>) xs ((t @ [0x80]) @ replicate (63 - length t) 0)"
      by (rule absorbed_write [OF a1(2), of "replicate (63 - length t) 0"]) (use m(2) in auto)
    define c2 where "c2 = process e (c\<lparr>data := a2\<rparr>)"
    have p: "absorbed c2 (xs @ (t @ [0x80]) @ replicate (63 - length t) 0) []" "count_lo c2 = count_lo c" "count_hi c2 = count_hi c"
      using absorbed_process [OF a2(2), of e] m(2) by (simp_all add: c2_def)
    obtain a3 where a3: "write_block (data c2) 0 (replicate 56 0) = Some a3"
      "absorbed (c2\<lparr>data := a3\<rparr>) (xs @ (t @ [0x80]) @ replicate (63 - length t) 0) (replicate 56 0)"
      by (rule absorbed_write [OF p(1), of "replicate 56 0"]) auto
    have "counted (c2\<lparr>data := a3\<rparr>) (length m)" using m(4) p by (simp add: counted_def)
    note l = last_block [OF a3(2) _ this, of e, unfolded append_assoc]
    have "63 - length t < 8" using False m(2) by arith
    then show ?thesis
      using l False a1(1) a2(1) a3(1) m(2) pad_blocks(2) [OF m(5, 1, 6)]
      by (simp add: sha_finish_def held SHA_DATASIZE_def sha1_def Let_def c2_def [symmetric])
  qed
qed

section \<open>Theorems\<close>

text \<open>Feeding the pieces one after the other.\<close>

fun sha_appends :: "bool \<Rightarrow> sha_context \<Rightarrow> byte list list \<Rightarrow> sha_context option" where
  "sha_appends e c [] = Some c"
| "sha_appends e c (b # bs) = do { c \<leftarrow> sha_append e c b; sha_appends e c bs }"

lemma sha_appends_ok: "ctx_ok c m \<Longrightarrow> \<exists>c'. sha_appends e c bs = Some c' \<and> ctx_ok c' (m @ concat bs)"
proof (induction bs arbitrary: c m)
  case (Cons b bs)
  obtain c1 where "sha_append e c b = Some c1" "ctx_ok c1 (m @ b)"
    using Cons.prems by (rule sha_append_ok)
  then show ?case using Cons.IH [of c1 "m @ b"] by simp
qed simp

lemma length_sha1: "length (sha1 m) = 20"
  by (simp add: sha1_def)

lemma sha_finish_init:
  assumes "readable s" "length (data old) = 64"
  obtains c c' where "dbus_sha_update e (dbus_sha_init old) s = Some c" "sha_finish e c = Some (sha1 (bytes_of s), c')"
proof -
  have "ctx_ok (dbus_sha_init old) []" using assms by (simp add: dbus_sha_init_def sha_init_ok)
  then obtain c where c: "sha_append e (dbus_sha_init old) (bytes_of s) = Some c" "ctx_ok c ([] @ bytes_of s)"
    by (rule sha_append_ok)
  moreover have "dbus_sha_update e (dbus_sha_init old) s = Some c"
    using assms(1) c(1) peek_readable [of s 0 "len s"]
    by (simp add: dbus_sha_update_def dbus_string_get_length_def readable_def [of s])
  ultimately show thesis using sha_finish_ok [of c "bytes_of s" e] that by auto
qed

lemma sha_final_ok:
  assumes "sha_finish e c = Some (sha1 m, c')" "str_ok d" "max_length d = MAX_MAX_LENGTH" "bytes_of d = []"
  obtains (fail) d' used h' where "dbus_sha_final e c d h = Some (False, c', d', h')" "h = used @ h'"
      "No_Memory \<in> set used" "str_ok d'"
  | (ok) d' used h' where "dbus_sha_final e c d h = Some (True, zero_context, d', h')" "h = used @ h'"
      "str_ok d'" "bytes_of d' = sha1 m"
proof -
  have "len d = 0" using assms(2, 4) len_bytes [of d] by simp
  then have big: "\<not> max_length d < len d + 20" using assms(3) by (simp add: MAX_MAX_LENGTH_def INT_MAX_def PADDING_def)
  have "20 \<le> length (sha1 m)" by (simp add: length_sha1)
  from append_len_ok [OF assms(2) this, of h] show thesis
  proof (cases rule: contractE)
    case (ok d' used h')
    then show thesis using assms(1, 4) that(2) [of d' h' used] by (simp add: dbus_sha_final_def length_sha1)
  next
    case (fail d' used h')
    then show thesis using assms(1) big that(1) [of d' h' used] by (simp add: dbus_sha_final_def)
  qed
qed

lemma free_ok: "str_ok s \<Longrightarrow> \<exists>s'. dbus_string_free s = Some s'"
  by (simp add: dbus_string_free_def)

text \<open>C26: \<open>_dbus_sha_compute\<close> appends the digits of the hash of the data, or fails for want of memory (or of
  room in the output) and leaves the text of the output as it was.\<close>

lemma sha_compute_correct:
  assumes "readable s" "str_ok out" "max_length out = MAX_MAX_LENGTH" "length (data old) = 64"
  shows "contract out h (\<lambda>bs. bs = bytes_of out @ concat (map hex_of_byte (sha1 (bytes_of s)))) (len out + 40)
    (dbus_sha_compute e old s out h)"
proof -
  obtain c c' where c: "dbus_sha_update e (dbus_sha_init old) s = Some c" "sha_finish e c = Some (sha1 (bytes_of s), c')"
    using assms(1, 4) by (rule sha_finish_init)
  have gl: "dbus_string_get_length out = Some (len out)" using assms(2) by (simp add: dbus_string_get_length_def)
  show ?thesis
  proof (cases rule: init_ok [where old = uninitialized and h = h, case_names failed granted])
    case (failed h1)
    then show ?thesis using c assms(2)
      by (simp add: dbus_sha_compute_def contract_failI [where used = "[No_Memory]"])
  next
    case (granted d used h1)
    show ?thesis
    proof (cases rule: sha_final_ok [OF c(2) granted(3, 5, 4), where h = h1, case_names failed digest])
      case (failed d' used1 h2)
      obtain d'' where "dbus_string_free d' = Some d''" using free_ok [OF failed(4)] by blast
      then show ?thesis using c granted failed assms(2)
        by (auto simp: dbus_sha_compute_def intro!: contract_failI [where used = "used @ used1"])
    next
      case (digest d' used1 h2)
      obtain d'' where f: "dbus_string_free d' = Some d''" using free_ok [OF digest(3)] by blast
      have ld: "len d' = 20" using digest(3, 4) len_bytes [of d'] by (simp add: length_sha1)
      have "dbus_sha_compute e old s out h = dbus_string_hex_encode d' 0 out (len out) h2"
        using c granted(1) digest(1) gl f
        by (cases "dbus_string_hex_encode d' 0 out (len out) h2") (auto simp: dbus_sha_compute_def)
      moreover have "splice (len out) 0 xs (bytes_of out) = bytes_of out @ xs" for xs
        using assms(2) by (simp add: splice_end)
      ultimately show ?thesis
        using hex_encode_ok [OF digest(3) _ assms(2) _ assms(3), of 0 "len out" h2] digest(2, 4) granted(2) ld
        by (auto simp: contract_def) (metis append_assoc in_set_conv_decomp)+
    qed
  qed
qed

text \<open>C25: Initialising a context, feeding it any pieces and finishing gives, on a machine of either byte order, the
  SHA-1 hash (of FIPS 180-1) of the concatenation of the pieces, whatever the context held before.\<close>

lemma sha_streaming_is_sha1:
  assumes "length (data c) = 64"
  shows "do { c \<leftarrow> sha_appends e (dbus_sha_init c) pieces; (d, c) \<leftarrow> sha_finish e c; Some d } = Some (sha1 (concat pieces))"
proof -
  have "ctx_ok (dbus_sha_init c) []" using assms by (simp add: dbus_sha_init_def sha_init_ok)
  then obtain c' where "sha_appends e (dbus_sha_init c) pieces = Some c'" "ctx_ok c' (concat pieces)"
    using sha_appends_ok [of "dbus_sha_init c" "[]" e pieces] by auto
  then show ?thesis using sha_finish_ok [of c' "concat pieces" e] by auto
qed

lemma sha_streaming_is_sha1_witness:
  "do { c \<leftarrow> sha_appends False (dbus_sha_init zero_context) [[1, 2], [], [3]]; (d, c) \<leftarrow> sha_finish False c; Some d }
   = Some (sha1 [1, 2, 3])"
  using sha_streaming_is_sha1 [of zero_context False "[[1, 2], [], [3]]"] by (simp add: zero_context_def)

lemma sha_compute_correct_witness:
  "contract empty_string [Memory 3 [1], No_Memory]
     (\<lambda>bs. bs = bytes_of empty_string @ concat (map hex_of_byte (sha1 (bytes_of sample)))) (len empty_string + 40)
     (dbus_sha_compute False zero_context sample empty_string [Memory 3 [1], No_Memory])"
  by (rule sha_compute_correct) (simp_all add: sample_readable empty_string_ok, simp_all add: empty_string_def zero_context_def)

end
