(* ===== verification/Credentials.thy ===== *)
theory Credentials
  imports Dbus_String
begin

text \<open>
  Credentials (\<open>dbus/dbus-credentials.c\<close>): what is known of a peer. A user or process that is not known is the
  all ones word, as in the code; the windows identifier and the audit data are NULL or a copy of their own. The
  theorems: the result of merging, copying and comparing credentials, and the string form.
\<close>

section \<open>The code\<close>

definition DBUS_UID_UNSET :: "64 word" where "DBUS_UID_UNSET = - 1"
definition DBUS_PID_UNSET :: "64 word" where "DBUS_PID_UNSET = - 1"

record creds =
  refcount :: nat
  unix_uid :: "64 word"
  unix_pid :: "64 word"
  windows_sid :: "byte list option"
  adt_audit_data :: "byte list option"

datatype credential_type =
  DBUS_CREDENTIAL_UNIX_PROCESS_ID | DBUS_CREDENTIAL_UNIX_USER_ID
  | DBUS_CREDENTIAL_ADT_AUDIT_DATA_ID | DBUS_CREDENTIAL_WINDOWS_SID

definition empty_credentials :: creds where
  "empty_credentials = \<lparr>refcount = 1, unix_uid = DBUS_UID_UNSET, unix_pid = DBUS_PID_UNSET,
     windows_sid = None, adt_audit_data = None\<rparr>"

definition dbus_credentials_new :: "script \<Rightarrow> creds option \<times> script" where
  "dbus_credentials_new r = (let (ok, r) = malloc r in (if ok then Some empty_credentials else None, r))"

definition dbus_credentials_ref :: "creds \<Rightarrow> creds option" where
  "dbus_credentials_ref c = do { guard (refcount c > 0); Some (c\<lparr>refcount := refcount c + 1\<rparr>) }"

text \<open>\<open>None\<close> inside stands for the freed object.\<close>

definition dbus_credentials_unref :: "creds \<Rightarrow> creds option option" where
  "dbus_credentials_unref c = do {
     guard (refcount c > 0);
     let c = c\<lparr>refcount := refcount c - 1\<rparr>;
     Some (if refcount c = 0 then None else Some c) }"

definition dbus_credentials_add_unix_pid :: "creds \<Rightarrow> 64 word \<Rightarrow> script \<Rightarrow> bool \<times> creds \<times> script" where
  "dbus_credentials_add_unix_pid c pid r = (True, c\<lparr>unix_pid := pid\<rparr>, r)"

definition dbus_credentials_add_unix_uid :: "creds \<Rightarrow> 64 word \<Rightarrow> script \<Rightarrow> bool \<times> creds \<times> script" where
  "dbus_credentials_add_unix_uid c uid r = (True, c\<lparr>unix_uid := uid\<rparr>, r)"

definition dbus_credentials_add_windows_sid :: "creds \<Rightarrow> byte list \<Rightarrow> script \<Rightarrow> bool \<times> creds \<times> script" where
  "dbus_credentials_add_windows_sid c sid r =
     (let (ok, r) = malloc r in if \<not> ok then (False, c, r) else (True, c\<lparr>windows_sid := Some sid\<rparr>, r))"

text \<open>\<open>_dbus_memdup\<close>: \<open>dbus_malloc\<close> answers NULL when it is asked for no bytes.\<close>

definition dbus_memdup :: "byte list \<Rightarrow> script \<Rightarrow> byte list option \<times> script" where
  "dbus_memdup bs r = (if bs = [] then (None, r) else let (ok, r) = malloc r in (if ok then Some bs else None, r))"

definition dbus_credentials_add_adt_audit_data :: "creds \<Rightarrow> byte list \<Rightarrow> script \<Rightarrow> bool \<times> creds \<times> script" where
  "dbus_credentials_add_adt_audit_data c d r =
     (case dbus_memdup d r of (None, r) \<Rightarrow> (False, c, r) | (Some copy, r) \<Rightarrow> (True, c\<lparr>adt_audit_data := Some copy\<rparr>, r))"

definition dbus_credentials_include :: "creds \<Rightarrow> credential_type \<Rightarrow> bool" where
  "dbus_credentials_include c t = (case t of
     DBUS_CREDENTIAL_UNIX_PROCESS_ID \<Rightarrow> unix_pid c \<noteq> DBUS_PID_UNSET
   | DBUS_CREDENTIAL_UNIX_USER_ID \<Rightarrow> unix_uid c \<noteq> DBUS_UID_UNSET
   | DBUS_CREDENTIAL_WINDOWS_SID \<Rightarrow> windows_sid c \<noteq> None
   | DBUS_CREDENTIAL_ADT_AUDIT_DATA_ID \<Rightarrow> adt_audit_data c \<noteq> None)"

text \<open>\<open>memcmp\<close> over as many bytes as the first operand has.\<close>

definition same_start :: "byte list \<Rightarrow> byte list \<Rightarrow> bool option" where
  "same_start d d' = do { guard (length d \<le> length d'); Some (take (length d) d' = d) }"

definition dbus_credentials_are_superset :: "creds \<Rightarrow> creds \<Rightarrow> bool option" where
  "dbus_credentials_are_superset c sub =
     (if (unix_pid sub = DBUS_PID_UNSET \<or> unix_pid sub = unix_pid c) \<and>
         (unix_uid sub = DBUS_UID_UNSET \<or> unix_uid sub = unix_uid c) \<and>
         (windows_sid sub = None \<or> (windows_sid c \<noteq> None \<and> windows_sid sub = windows_sid c))
      then (case (adt_audit_data sub, adt_audit_data c) of
              (None, _) \<Rightarrow> Some True
            | (Some _, None) \<Rightarrow> Some False
            | (Some d', Some d) \<Rightarrow> same_start d d')
      else Some False)"

definition dbus_credentials_are_empty :: "creds \<Rightarrow> bool" where
  "dbus_credentials_are_empty c \<longleftrightarrow> unix_pid c = DBUS_PID_UNSET \<and> unix_uid c = DBUS_UID_UNSET \<and>
     windows_sid c = None \<and> adt_audit_data c = None"

definition dbus_credentials_are_anonymous :: "creds \<Rightarrow> bool" where
  "dbus_credentials_are_anonymous c \<longleftrightarrow> unix_uid c = DBUS_UID_UNSET \<and> windows_sid c = None"

definition dbus_credentials_add_credential ::
    "creds \<Rightarrow> credential_type \<Rightarrow> creds \<Rightarrow> script \<Rightarrow> bool \<times> creds \<times> script" where
  "dbus_credentials_add_credential c which other r =
     (if which = DBUS_CREDENTIAL_UNIX_PROCESS_ID \<and> unix_pid other \<noteq> DBUS_PID_UNSET
      then dbus_credentials_add_unix_pid c (unix_pid other) r
      else if which = DBUS_CREDENTIAL_UNIX_USER_ID \<and> unix_uid other \<noteq> DBUS_UID_UNSET
      then dbus_credentials_add_unix_uid c (unix_uid other) r
      else if which = DBUS_CREDENTIAL_WINDOWS_SID \<and> windows_sid other \<noteq> None
      then dbus_credentials_add_windows_sid c (the (windows_sid other)) r
      else if which = DBUS_CREDENTIAL_ADT_AUDIT_DATA_ID \<and> adt_audit_data other \<noteq> None
      then dbus_credentials_add_adt_audit_data c (the (adt_audit_data other)) r
      else (True, c, r))"

fun add_each :: "credential_type list \<Rightarrow> creds \<Rightarrow> creds \<Rightarrow> script \<Rightarrow> bool \<times> creds \<times> script" where
  "add_each [] c other r = (True, c, r)"
| "add_each (which # ws) c other r =
     (case dbus_credentials_add_credential c which other r of
        (False, c, r) \<Rightarrow> (False, c, r)
      | (True, c, r) \<Rightarrow> add_each ws c other r)"

definition dbus_credentials_add_credentials :: "creds \<Rightarrow> creds \<Rightarrow> script \<Rightarrow> bool \<times> creds \<times> script" where
  "dbus_credentials_add_credentials =
     add_each [DBUS_CREDENTIAL_UNIX_PROCESS_ID, DBUS_CREDENTIAL_UNIX_USER_ID, DBUS_CREDENTIAL_ADT_AUDIT_DATA_ID,
       DBUS_CREDENTIAL_WINDOWS_SID]"

definition dbus_credentials_clear :: "creds \<Rightarrow> creds" where
  "dbus_credentials_clear c = c\<lparr>unix_pid := DBUS_PID_UNSET, unix_uid := DBUS_UID_UNSET, windows_sid := None,
     adt_audit_data := None\<rparr>"

text \<open>A failed copy is freed again: the answer is NULL and the object is gone.\<close>

definition dbus_credentials_copy :: "creds \<Rightarrow> script \<Rightarrow> (creds option \<times> script) option" where
  "dbus_credentials_copy c r =
     (case dbus_credentials_new r of
        (None, r) \<Rightarrow> Some (None, r)
      | (Some copy, r) \<Rightarrow>
          (case dbus_credentials_add_credentials copy c r of
             (False, copy, r) \<Rightarrow> do { left \<leftarrow> dbus_credentials_unref copy; Some (left, r) }
           | (True, copy, r) \<Rightarrow> Some (Some copy, r)))"

text \<open>What the operating system knows of the current process is the parameter.\<close>

definition dbus_credentials_new_from_current_process ::
    "(creds \<Rightarrow> script \<Rightarrow> bool \<times> creds \<times> script) \<Rightarrow> script \<Rightarrow> (creds option \<times> script) option" where
  "dbus_credentials_new_from_current_process add_from_current_process r =
     (case dbus_credentials_new r of
        (None, r) \<Rightarrow> Some (None, r)
      | (Some c, r) \<Rightarrow>
          (case add_from_current_process c r of
             (False, c, r) \<Rightarrow> do { left \<leftarrow> dbus_credentials_unref c; Some (left, r) }
           | (True, c, r) \<Rightarrow> Some (Some c, r)))"

definition dbus_credentials_same_user :: "creds \<Rightarrow> creds \<Rightarrow> bool" where
  "dbus_credentials_same_user c other \<longleftrightarrow> unix_uid c = unix_uid other \<and>
     ((\<not> (windows_sid c \<noteq> None \<or> windows_sid other \<noteq> None)) \<or>
      (windows_sid c \<noteq> None \<and> windows_sid other \<noteq> None \<and> windows_sid c = windows_sid other))"

fun decimal :: "nat \<Rightarrow> byte list" where
  "decimal n = (if n < 10 then [0x30 + word_of_nat n] else decimal (n div 10) @ [0x30 + word_of_nat (n mod 10)])"

declare decimal.simps [simp del]

text \<open>A text constant of the code.\<close>

definition ascii :: "string \<Rightarrow> byte list" where
  "ascii s = map (\<lambda>c. of_nat (of_char c)) s"

text \<open>The text of the string, appended to by one printf at a time.\<close>

definition append_text :: "byte list \<Rightarrow> byte list \<Rightarrow> script \<Rightarrow> bool \<times> byte list \<times> script" where
  "append_text s xs r = (let (ok, r) = malloc r in (ok, if ok then s @ xs else s, r))"

definition dbus_credentials_to_string_append :: "creds \<Rightarrow> byte list \<Rightarrow> script \<Rightarrow> bool \<times> byte list \<times> script" where
  "dbus_credentials_to_string_append c s r =
     (let join = False;
          (ok, s, join, r) =
            (if unix_uid c \<noteq> DBUS_UID_UNSET
             then let (ok, s, r) = append_text s (ascii ''uid='' @ decimal (unat (unix_uid c))) r in (ok, s, True, r)
             else (True, s, join, r))
      in if \<not> ok then (False, s, r)
         else
     (let (ok, s, join, r) =
            (if unix_pid c \<noteq> DBUS_PID_UNSET
             then let (ok, s, r) = append_text s ((if join then ascii '' '' else []) @ ascii ''pid='' @ decimal (unat (unix_pid c))) r
                  in (ok, s, True, r)
             else (True, s, False, r))
      in if \<not> ok then (False, s, r)
         else
     (case windows_sid c of
        None \<Rightarrow> (True, s, r)
      | Some sid \<Rightarrow> append_text s ((if join then ascii '' '' else []) @ ascii ''sid='' @ sid) r)))"

section \<open>What the operations do\<close>

text \<open>The credentials of \<open>other\<close> laid over those of \<open>c\<close>.\<close>

definition merged :: "creds \<Rightarrow> creds \<Rightarrow> creds" where
  "merged c other = c\<lparr>
     unix_pid := (if unix_pid other = DBUS_PID_UNSET then unix_pid c else unix_pid other),
     unix_uid := (if unix_uid other = DBUS_UID_UNSET then unix_uid c else unix_uid other),
     windows_sid := (case windows_sid other of None \<Rightarrow> windows_sid c | Some s \<Rightarrow> Some s),
     adt_audit_data := (case adt_audit_data other of None \<Rightarrow> adt_audit_data c | Some d \<Rightarrow> Some d)\<rparr>"

text \<open>\<open>drawn c c0 other\<close>: every field of \<open>c\<close> is the one of \<open>c0\<close> or a known one of \<open>other\<close>.\<close>

definition drawn :: "creds \<Rightarrow> creds \<Rightarrow> creds \<Rightarrow> bool" where
  "drawn c c0 other \<longleftrightarrow> refcount c = refcount c0
     \<and> (unix_pid c = unix_pid c0 \<or> unix_pid other \<noteq> DBUS_PID_UNSET \<and> unix_pid c = unix_pid other)
     \<and> (unix_uid c = unix_uid c0 \<or> unix_uid other \<noteq> DBUS_UID_UNSET \<and> unix_uid c = unix_uid other)
     \<and> (windows_sid c = windows_sid c0 \<or> windows_sid other \<noteq> None \<and> windows_sid c = windows_sid other)
     \<and> (adt_audit_data c = adt_audit_data c0 \<or> adt_audit_data other \<noteq> None \<and> adt_audit_data c = adt_audit_data other)"

lemma drawn_refl: "drawn c c other"
  by (simp add: drawn_def)

lemma drawn_trans: "drawn c c1 other \<Longrightarrow> drawn c1 c0 other \<Longrightarrow> drawn c c0 other"
  unfolding drawn_def by (intro conjI; elim conjE; metis)

lemma add_audit_result:
  assumes "dbus_credentials_add_adt_audit_data c d r = (ok, c', r')"
  shows "c' = (if ok then c\<lparr>adt_audit_data := Some d\<rparr> else c)" "d \<noteq> [] \<Longrightarrow> r = [] \<Longrightarrow> ok"
proof -
  obtain m r1 where m: "dbus_memdup d r = (m, r1)" by force
  moreover have "m = None \<or> m = Some d" "d \<noteq> [] \<Longrightarrow> r = [] \<Longrightarrow> m = Some d"
    using m by (auto simp: dbus_memdup_def split: if_splits prod.splits)
  ultimately show "c' = (if ok then c\<lparr>adt_audit_data := Some d\<rparr> else c)" "d \<noteq> [] \<Longrightarrow> r = [] \<Longrightarrow> ok"
    using assms by (auto simp: dbus_credentials_add_adt_audit_data_def)
qed

lemma add_sid_result:
  assumes "dbus_credentials_add_windows_sid c d r = (ok, c', r')"
  shows "c' = (if ok then c\<lparr>windows_sid := Some d\<rparr> else c)" "r = [] \<Longrightarrow> ok"
proof -
  obtain m r1 where m: "malloc r = (m, r1)" by force
  then show "c' = (if ok then c\<lparr>windows_sid := Some d\<rparr> else c)" "r = [] \<Longrightarrow> ok"
    using assms by (cases m; simp add: dbus_credentials_add_windows_sid_def; auto)+
qed

lemmas add_credential_cases = dbus_credentials_add_credential_def dbus_credentials_add_unix_pid_def
  dbus_credentials_add_unix_uid_def

lemma add_credential_drawn:
  assumes "dbus_credentials_add_credential c which other r = (ok, c', r')"
  shows "drawn c' c other"
proof (cases which)
  case DBUS_CREDENTIAL_ADT_AUDIT_DATA_ID
  then show ?thesis
    using assms add_audit_result(1) [of c "the (adt_audit_data other)" r ok c' r']
    by (auto simp: add_credential_cases drawn_def split: if_splits)
next
  case DBUS_CREDENTIAL_WINDOWS_SID
  then show ?thesis
    using assms add_sid_result(1) [of c "the (windows_sid other)" r ok c' r']
    by (auto simp: add_credential_cases drawn_def split: if_splits)
qed (use assms in \<open>auto simp: add_credential_cases drawn_def split: if_splits\<close>)

lemma add_each_drawn: "add_each ws c other r = (ok, c', r') \<Longrightarrow> drawn c' c other"
proof (induction ws arbitrary: c r)
  case (Cons which ws)
  then show ?case
    by (auto split: prod.splits bool.splits dest!: add_credential_drawn intro: drawn_trans)
qed (simp add: drawn_refl)

lemma add_credentials_drawn: "dbus_credentials_add_credentials c other r = (ok, c', r') \<Longrightarrow> drawn c' c other"
  unfolding dbus_credentials_add_credentials_def by (rule add_each_drawn)

lemma add_credential_ok:
  "dbus_credentials_add_credential c DBUS_CREDENTIAL_UNIX_PROCESS_ID other r =
     (True, c\<lparr>unix_pid := if unix_pid other = DBUS_PID_UNSET then unix_pid c else unix_pid other\<rparr>, r)"
  "dbus_credentials_add_credential c DBUS_CREDENTIAL_UNIX_USER_ID other r =
     (True, c\<lparr>unix_uid := if unix_uid other = DBUS_UID_UNSET then unix_uid c else unix_uid other\<rparr>, r)"
  by (simp_all add: add_credential_cases)

lemma add_audit_ok:
  "dbus_credentials_add_credential c DBUS_CREDENTIAL_ADT_AUDIT_DATA_ID other r = (True, c', r') \<Longrightarrow>
     c' = c\<lparr>adt_audit_data := case adt_audit_data other of None \<Rightarrow> adt_audit_data c | Some d \<Rightarrow> Some d\<rparr>"
  using add_audit_result(1) [of c "the (adt_audit_data other)" r True c' r']
  by (auto simp: add_credential_cases split: if_splits)

lemma add_sid_ok:
  "dbus_credentials_add_credential c DBUS_CREDENTIAL_WINDOWS_SID other r = (True, c', r') \<Longrightarrow>
     c' = c\<lparr>windows_sid := case windows_sid other of None \<Rightarrow> windows_sid c | Some s \<Rightarrow> Some s\<rparr>"
  using add_sid_result(1) [of c "the (windows_sid other)" r True c' r']
  by (auto simp: add_credential_cases split: if_splits)

lemma add_credentials_ok:
  assumes "dbus_credentials_add_credentials c other r = (True, c', r')"
  shows "c' = merged c other"
proof -
  define c1 where "c1 = c\<lparr>unix_pid := if unix_pid other = DBUS_PID_UNSET then unix_pid c else unix_pid other\<rparr>"
  define c2 where "c2 = c1\<lparr>unix_uid := if unix_uid other = DBUS_UID_UNSET then unix_uid c1 else unix_uid other\<rparr>"
  obtain ok c3 r3 where a: "dbus_credentials_add_credential c2 DBUS_CREDENTIAL_ADT_AUDIT_DATA_ID other r = (ok, c3, r3)"
    by (metis prod_cases3)
  obtain ok' c4 r4 where b: "dbus_credentials_add_credential c3 DBUS_CREDENTIAL_WINDOWS_SID other r3 = (ok', c4, r4)"
    by (metis prod_cases3)
  have "ok" "ok'" "c' = c4"
    using assms a b
    by (auto simp: dbus_credentials_add_credentials_def add_credential_ok c1_def [symmetric] c2_def [symmetric]
        split: bool.splits)
  then show ?thesis using a b add_audit_ok [of c2 other r c3 r3] add_sid_ok [of c3 other r3 c4 r4]
    by (cases c; cases "windows_sid other"; cases "adt_audit_data other") (simp_all add: merged_def c1_def c2_def)
qed

lemma add_credentials_succeeds:
  assumes "adt_audit_data other \<noteq> Some []"
  shows "dbus_credentials_add_credentials c other [] = (True, merged c other, [])"
  using assms
  by (cases "adt_audit_data other"; cases "windows_sid other")
     (auto simp: dbus_credentials_add_credentials_def dbus_credentials_add_credential_def dbus_credentials_add_unix_pid_def
      dbus_credentials_add_unix_uid_def dbus_credentials_add_windows_sid_def dbus_credentials_add_adt_audit_data_def
      dbus_memdup_def merged_def)

lemma merged_empty: "merged empty_credentials c = c\<lparr>refcount := 1\<rparr>"
  by (cases c) (auto simp: merged_def empty_credentials_def split: option.split)

lemma clear_idem [simp]: "dbus_credentials_clear (dbus_credentials_clear c) = dbus_credentials_clear c"
  by (simp add: dbus_credentials_clear_def)

section \<open>Theorems\<close>



text \<open>C28: The string form of credentials with a user, no process and a windows identifier runs the two together
  without a separator: the flag that says a separator is due is cleared when the process is unknown.\<close>

lemma credentials_string_unseparated:
  assumes "unix_uid c \<noteq> DBUS_UID_UNSET" "unix_pid c = DBUS_PID_UNSET" "windows_sid c = Some sid"
  shows "dbus_credentials_to_string_append c s [] = (True, s @ ascii ''uid='' @ decimal (unat (unix_uid c)) @ ascii ''sid='' @ sid, [])"
  using assms by (simp add: dbus_credentials_to_string_append_def append_text_def)

lemma credentials_string_unseparated_witness:
  "dbus_credentials_to_string_append (empty_credentials\<lparr>unix_uid := 7, windows_sid := Some (ascii ''S'')\<rparr>) [] []
   = (True, ascii ''uid=7sid=S'', [])"
proof -
  let ?c = "empty_credentials\<lparr>unix_uid := 7, windows_sid := Some (ascii ''S'')\<rparr>"
  have "dbus_credentials_to_string_append ?c [] [] = (True, [] @ ascii ''uid='' @ decimal (unat (unix_uid ?c)) @ ascii ''sid='' @ ascii ''S'', [])"
    by (rule credentials_string_unseparated) (simp_all add: empty_credentials_def DBUS_UID_UNSET_def)
  moreover have "decimal (unat (unix_uid ?c)) = ascii ''7''" by (simp add: decimal.simps ascii_def)
  ultimately show ?thesis by (simp add: ascii_def)
qed

end
