(* ===== verification/Auth.thy ===== *)
theory Auth
  imports Sha Credentials
begin

text \<open>
  Authentication (\<open>dbus/dbus-auth.c\<close>): the conversation of lines by which a client proves who it is, for both
  sides and the three mechanisms. Strings are here their texts; an edit of a string either happens or fails and
  leaves the text alone, which is what \<open>Dbus_String\<close> proves of every one of them, and the answers come from
  the script \<open>mem\<close> of the \<open>world\<close>. Temporary strings are not kept: \<open>attempts n\<close> stands for \<open>n\<close> fallible steps on
  them that are undone together. A failed assertion is \<open>None\<close>.

  The user database, the cookie keyring and the name of the current user belong to other parts of the program
  and the operating system; they answer through the record \<open>auth_env\<close>, random bytes come from \<open>dice\<close>.
\<close>

section \<open>The world\<close>

record world =
  mem :: script
  dice :: "byte list list"

definition attempt :: "world \<Rightarrow> bool \<times> world" where
  "attempt w = (let (ok, r) = malloc (mem w) in (ok, w\<lparr>mem := r\<rparr>))"

fun attempts :: "nat \<Rightarrow> world \<Rightarrow> bool \<times> world" where
  "attempts 0 w = (True, w)"
| "attempts (Suc n) w = (let (ok, w) = attempt w in if ok then attempts n w else (False, w))"

definition roll :: "nat \<Rightarrow> world \<Rightarrow> byte list \<times> world" where
  "roll n w = (case dice w of
     [] \<Rightarrow> (replicate n 0, w)
   | d # ds \<Rightarrow> (take n (d @ replicate n 0), w\<lparr>dice := ds\<rparr>))"

text \<open>\<open>'k\<close> is the type of loaded keyrings. A new key may be made by \<open>best_key\<close>, which answers a negative number
  when it has none; \<open>hex_key\<close> answers no digits for an unknown number.\<close>

record 'k auth_env =
  user_uid :: "byte list \<Rightarrow> 64 word option"
  own_user :: "byte list"
  version_string :: "byte list"
  keyring_new :: "creds option \<Rightarrow> byte list \<Rightarrow> 'k option"
  keyring_is_for :: "'k \<Rightarrow> creds \<Rightarrow> bool"
  best_key :: "'k \<Rightarrow> int \<times> 'k"
  hex_key :: "'k \<Rightarrow> int \<Rightarrow> byte list"
  parse_int :: "byte list \<Rightarrow> int option"

section \<open>The state\<close>

datatype side = auth_side_client | auth_side_server

datatype auth_state =
  server_state_waiting_for_auth | server_state_waiting_for_data | server_state_waiting_for_begin
| client_state_need_send_auth | client_state_waiting_for_data | client_state_waiting_for_ok
| client_state_waiting_for_reject | client_state_waiting_for_agree_unix_fd
| common_state_authenticated | common_state_need_disconnect

datatype auth_command =
  DBUS_AUTH_COMMAND_AUTH | DBUS_AUTH_COMMAND_CANCEL | DBUS_AUTH_COMMAND_DATA | DBUS_AUTH_COMMAND_BEGIN
| DBUS_AUTH_COMMAND_REJECTED | DBUS_AUTH_COMMAND_OK | DBUS_AUTH_COMMAND_ERROR | DBUS_AUTH_COMMAND_UNKNOWN
| DBUS_AUTH_COMMAND_NEGOTIATE_UNIX_FD | DBUS_AUTH_COMMAND_AGREE_UNIX_FD

datatype mechanism = EXTERNAL | DBUS_COOKIE_SHA1 | ANONYMOUS

text \<open>Both subclasses in one record: the lists of the client and the counters of the server stay unused on the
  other side.\<close>

record 'k auth =
  side :: side
  incoming :: "byte list"
  outgoing :: "byte list"
  state :: auth_state
  mech :: "mechanism option"
  identity :: "byte list"
  credentials :: creds
  authorized_identity :: creds
  desired_identity :: creds
  cookie_context :: "byte list"
  keyring :: "'k option"
  cookie_id :: int
  challenge :: "byte list"
  allowed_mechs :: "byte list list option"
  needed_memory :: bool
  already_got_mechanisms :: bool
  already_asked_for_initial_response :: bool
  buffer_outstanding :: bool
  unix_fd_possible :: bool
  unix_fd_negotiated :: bool
  mechs_to_try :: "mechanism list"
  guid_from_server :: "byte list"
  failures :: nat
  max_failures :: nat
  guid :: "byte list"

definition all_mechanisms :: "mechanism list" where
  "all_mechanisms = [EXTERNAL, DBUS_COOKIE_SHA1, ANONYMOUS]"

definition mechanism_name :: "mechanism \<Rightarrow> byte list" where
  "mechanism_name m = (case m of
     EXTERNAL \<Rightarrow> ascii ''EXTERNAL'' | DBUS_COOKIE_SHA1 \<Rightarrow> ascii ''DBUS_COOKIE_SHA1'' | ANONYMOUS \<Rightarrow> ascii ''ANONYMOUS'')"

definition crlf :: "byte list" where "crlf = [0x0D, 0x0A]"

definition N_CHALLENGE_BYTES :: nat where "N_CHALLENGE_BYTES = 16"
definition MAX_BUFFER :: nat where "MAX_BUFFER = 16 * 1024"

section \<open>Reading lines\<close>

fun find_crlf :: "byte list \<Rightarrow> nat option" where
  "find_crlf (a # b # xs) = (if a = 0x0D \<and> b = 0x0A then Some 0 else map_option Suc (find_crlf (b # xs)))"
| "find_crlf xs = None"

definition find_blank :: "byte list \<Rightarrow> nat \<Rightarrow> nat" where
  "find_blank xs i = i + length (takeWhile (\<lambda>c. \<not> is_ascii_blank c) (drop i xs))"

definition skip_blank :: "byte list \<Rightarrow> nat \<Rightarrow> nat option" where
  "skip_blank xs i =
     (let j = i + length (takeWhile is_ascii_blank (drop i xs)) in
      if j < length xs \<and> is_ascii_white (xs ! j) then None else Some j)"

definition lookup_command_from_name :: "byte list \<Rightarrow> auth_command" where
  "lookup_command_from_name name =
     (if name = ascii ''AUTH'' then DBUS_AUTH_COMMAND_AUTH
      else if name = ascii ''CANCEL'' then DBUS_AUTH_COMMAND_CANCEL
      else if name = ascii ''DATA'' then DBUS_AUTH_COMMAND_DATA
      else if name = ascii ''BEGIN'' then DBUS_AUTH_COMMAND_BEGIN
      else if name = ascii ''REJECTED'' then DBUS_AUTH_COMMAND_REJECTED
      else if name = ascii ''OK'' then DBUS_AUTH_COMMAND_OK
      else if name = ascii ''ERROR'' then DBUS_AUTH_COMMAND_ERROR
      else if name = ascii ''NEGOTIATE_UNIX_FD'' then DBUS_AUTH_COMMAND_NEGOTIATE_UNIX_FD
      else if name = ascii ''AGREE_UNIX_FD'' then DBUS_AUTH_COMMAND_AGREE_UNIX_FD
      else DBUS_AUTH_COMMAND_UNKNOWN)"

definition find_mech :: "byte list \<Rightarrow> byte list list option \<Rightarrow> mechanism option" where
  "find_mech name allowed =
     (if (case allowed of None \<Rightarrow> False | Some ms \<Rightarrow> name \<notin> set ms) then None
      else List.find (\<lambda>m. name = mechanism_name m) all_mechanisms)"

section \<open>Sending\<close>

definition goto_state :: "'k auth \<Rightarrow> auth_state \<Rightarrow> 'k auth" where
  "goto_state a s = a\<lparr>state := s\<rparr>"

definition shutdown_cookie_sha1_mech :: "'k auth \<Rightarrow> 'k auth" where
  "shutdown_cookie_sha1_mech a = a\<lparr>cookie_id := -1, challenge := []\<rparr>"

definition shutdown_mech :: "'k auth \<Rightarrow> 'k auth" where
  "shutdown_mech a =
     (let a = a\<lparr>already_asked_for_initial_response := False, identity := [],
            authorized_identity := dbus_credentials_clear (authorized_identity a),
            desired_identity := dbus_credentials_clear (desired_identity a)\<rparr>
      in case mech a of
           None \<Rightarrow> a
         | Some DBUS_COOKIE_SHA1 \<Rightarrow> (shutdown_cookie_sha1_mech a)\<lparr>mech := None\<rparr>
         | Some m \<Rightarrow> a\<lparr>mech := None\<rparr>)"

text \<open>\<open>n\<close> fallible steps that together append \<open>xs\<close> to the outgoing text, or leave it as it was.\<close>

definition emit :: "nat \<Rightarrow> byte list \<Rightarrow> 'k auth \<Rightarrow> world \<Rightarrow> bool \<times> 'k auth \<times> world" where
  "emit n xs a w = (let (ok, w) = attempts n w in (ok, if ok then a\<lparr>outgoing := outgoing a @ xs\<rparr> else a, w))"

definition send_data :: "byte list \<Rightarrow> 'k auth \<Rightarrow> world \<Rightarrow> bool \<times> 'k auth \<times> world" where
  "send_data xs a w =
     (if xs = [] then emit 1 (ascii ''DATA'' @ crlf) a w
      else emit 3 (ascii ''DATA '' @ concat (map hex_of_byte xs) @ crlf) a w)"

definition send_rejected :: "'k auth \<Rightarrow> world \<Rightarrow> (bool \<times> 'k auth \<times> world) option" where
  "send_rejected a w =
     (let command = ascii ''REJECTED'' @ concat (map (\<lambda>m. ascii '' '' @ mechanism_name m) all_mechanisms) @ crlf;
          (ok, a, w) = emit (4 + 2 * length all_mechanisms) command a w
      in if \<not> ok then Some (False, a, w)
         else do {
           let a = shutdown_mech a;
           guard (side a = auth_side_server);
           let a = a\<lparr>failures := failures a + 1\<rparr>;
           Some (True, goto_state a (if failures a \<ge> max_failures a then common_state_need_disconnect
                                     else server_state_waiting_for_auth), w) })"

definition send_error :: "string \<Rightarrow> 'k auth \<Rightarrow> world \<Rightarrow> (bool \<times> 'k auth \<times> world) option" where
  "send_error message a w = Some (emit 1 (ascii ''ERROR '' @ [0x22] @ ascii message @ [0x22] @ crlf) a w)"

definition send_ok :: "'k auth \<Rightarrow> world \<Rightarrow> bool \<times> 'k auth \<times> world" where
  "send_ok a w =
     (let (ok, a, w) = emit 3 (ascii ''OK '' @ guid a @ crlf) a w
      in (ok, if ok then goto_state a server_state_waiting_for_begin else a, w))"

definition send_begin :: "'k auth \<Rightarrow> world \<Rightarrow> bool \<times> 'k auth \<times> world" where
  "send_begin a w =
     (let (ok, a, w) = emit 1 (ascii ''BEGIN'' @ crlf) a w
      in (ok, if ok then goto_state a common_state_authenticated else a, w))"

definition send_cancel :: "'k auth \<Rightarrow> world \<Rightarrow> bool \<times> 'k auth \<times> world" where
  "send_cancel a w =
     (let (ok, a, w) = emit 1 (ascii ''CANCEL'' @ crlf) a w
      in (ok, if ok then goto_state a client_state_waiting_for_reject else a, w))"

definition send_negotiate_unix_fd :: "'k auth \<Rightarrow> world \<Rightarrow> bool \<times> 'k auth \<times> world" where
  "send_negotiate_unix_fd a w =
     (let (ok, a, w) = emit 1 (ascii ''NEGOTIATE_UNIX_FD'' @ crlf) a w
      in (ok, if ok then goto_state a client_state_waiting_for_agree_unix_fd else a, w))"

definition send_agree_unix_fd :: "'k auth \<Rightarrow> world \<Rightarrow> (bool \<times> 'k auth \<times> world) option" where
  "send_agree_unix_fd a w = do {
     guard (unix_fd_possible a);
     let a = a\<lparr>unix_fd_negotiated := True\<rparr>;
     let (ok, a, w) = emit 1 (ascii ''AGREE_UNIX_FD'' @ crlf) a w;
     Some (ok, if ok then goto_state a server_state_waiting_for_begin else a, w) }"

text \<open>\<open>trying n\<close>: \<open>n\<close> fallible steps on temporaries and on to the rest, or FALSE. \<open>andthen\<close>: a fallible step
  that may change the object and on to the rest, or FALSE.\<close>

definition trying ::
    "nat \<Rightarrow> 'k auth \<Rightarrow> world \<Rightarrow> (world \<Rightarrow> (bool \<times> 'k auth \<times> world) option) \<Rightarrow> (bool \<times> 'k auth \<times> world) option" where
  "trying n a w f = (let (ok, w) = attempts n w in if ok then f w else Some (False, a, w))"

definition andthen ::
    "bool \<times> 'k auth \<times> world \<Rightarrow> ('k auth \<Rightarrow> world \<Rightarrow> (bool \<times> 'k auth \<times> world) option) \<Rightarrow>
     (bool \<times> 'k auth \<times> world) option" where
  "andthen r f = (case r of (ok, a, w) \<Rightarrow> if ok then f a w else Some (False, a, w))"

section \<open>The cookie mechanism\<close>

text \<open>The hash is empty when the keyring has no such cookie.\<close>

definition sha1_compute_hash ::
    "'k auth_env \<Rightarrow> 'k auth \<Rightarrow> int \<Rightarrow> byte list \<Rightarrow> byte list \<Rightarrow> world \<Rightarrow> (bool \<times> byte list \<times> world) option" where
  "sha1_compute_hash e a n server_challenge client_challenge w =
     (case keyring a of
        None \<Rightarrow> None
      | Some k \<Rightarrow>
          (let (ok, w) = attempts 2 w; cookie = hex_key e k n in
           if \<not> ok then Some (False, [], w)
           else if cookie = [] then Some (True, [], w)
           else
             let (ok, w) = attempts 7 w;
                 to_hash = server_challenge @ ascii '':'' @ client_challenge @ ascii '':'' @ cookie in
             if \<not> ok then Some (False, [], w)
             else Some (True, concat (map hex_of_byte (sha1 to_hash)), w)))"

text \<open>\<open>_dbus_credentials_add_from_user\<close>: the answer FALSE covers unknown users and lack of memory.\<close>

definition add_from_user :: "'k auth_env \<Rightarrow> byte list \<Rightarrow> 'k auth \<Rightarrow> world \<Rightarrow> bool \<times> 'k auth \<times> world" where
  "add_from_user e user a w =
     (let (ok, w) = attempt w in
      if \<not> ok then (False, a, w)
      else case user_uid e user of
             None \<Rightarrow> (False, a, w)
           | Some uid \<Rightarrow> (True, a\<lparr>desired_identity := (desired_identity a)\<lparr>unix_uid := uid\<rparr>\<rparr>, w))"

text \<open>The start of the data functions that expect an identity: a second identity is refused.\<close>

definition take_identity :: "byte list \<Rightarrow> 'k auth \<Rightarrow> world \<Rightarrow> bool \<times> 'k auth \<times> world" where
  "take_identity xs a w =
     (if xs = [] then (True, a, w)
      else let (ok, w) = attempt w in (ok, if ok then a\<lparr>identity := xs\<rparr> else a, w))"

definition first_challenge :: "'k auth_env \<Rightarrow> 'k auth \<Rightarrow> world \<Rightarrow> (bool \<times> 'k auth \<times> world) option" where
  "first_challenge e a w =
     (case keyring a of
        None \<Rightarrow> None
      | Some k \<Rightarrow>
          let (ok, w) = attempt w;
              (n, k) = (if ok then best_key e k else (-1, k));
              a = a\<lparr>keyring := Some k, cookie_id := n\<rparr> in
          if n < 0 then send_rejected a w
          else trying 5 a w (\<lambda>w.
            let (tmp, w) = roll N_CHALLENGE_BYTES w; a = a\<lparr>challenge := []\<rparr> in
            trying 1 a w (\<lambda>w.
              let a = a\<lparr>challenge := concat (map hex_of_byte tmp)\<rparr> in
              trying 1 a w (\<lambda>w.
                andthen (send_data (cookie_context a @ ascii '' '' @ decimal (nat n) @ ascii '' ''
                           @ concat (map hex_of_byte tmp)) a w)
                  (\<lambda>a w. Some (True, goto_state a server_state_waiting_for_data, w))))))"

definition sha1_handle_first_client_response ::
    "'k auth_env \<Rightarrow> byte list \<Rightarrow> 'k auth \<Rightarrow> world \<Rightarrow> (bool \<times> 'k auth \<times> world) option" where
  "sha1_handle_first_client_response e msg a w =
     (let a = a\<lparr>challenge := []\<rparr> in
      if msg \<noteq> [] \<and> identity a \<noteq> [] then send_rejected a w
      else andthen (take_identity msg a w) (\<lambda>a w.
        let (ok, a, w) = add_from_user e msg a w in
        if \<not> ok then send_rejected a w
        else trying 2 a w (\<lambda>w.
          let a = (case keyring a of
                     Some k \<Rightarrow> if \<not> keyring_is_for e k (desired_identity a) then a\<lparr>keyring := None\<rparr> else a
                   | None \<Rightarrow> a) in
          if keyring a = None then
            trying 1 a w (\<lambda>w. case keyring_new e (Some (desired_identity a)) (cookie_context a) of
                None \<Rightarrow> send_rejected a w
              | Some k \<Rightarrow> first_challenge e (a\<lparr>keyring := Some k\<rparr>) w)
          else first_challenge e a w)))"

text \<open>Filling in the identity the server has authorized.\<close>

definition authorize :: "creds \<Rightarrow> 'k auth \<Rightarrow> world \<Rightarrow> bool \<times> 'k auth \<times> world" where
  "authorize other a w =
     (let (ok, c, r) = dbus_credentials_add_credentials (authorized_identity a) other (mem w)
      in (ok, a\<lparr>authorized_identity := c\<rparr>, w\<lparr>mem := r\<rparr>))"

definition authorize_one :: "credential_type \<Rightarrow> 'k auth \<Rightarrow> world \<Rightarrow> bool \<times> 'k auth \<times> world" where
  "authorize_one which a w =
     (let (ok, c, r) = dbus_credentials_add_credential (authorized_identity a) which (credentials a) (mem w)
      in (ok, a\<lparr>authorized_identity := c\<rparr>, w\<lparr>mem := r\<rparr>))"

definition sha1_handle_second_client_response ::
    "'k auth_env \<Rightarrow> byte list \<Rightarrow> 'k auth \<Rightarrow> world \<Rightarrow> (bool \<times> 'k auth \<times> world) option" where
  "sha1_handle_second_client_response e msg a w =
     (let i = find_blank msg 0 in
      if i = length msg then send_rejected a w
      else trying 3 a w (\<lambda>w. do {
        let client_challenge = take i msg;
        i \<leftarrow> skip_blank msg i;
        trying 1 a w (\<lambda>w.
          let client_hash = drop i msg in
          if client_challenge = [] \<or> client_hash = [] then send_rejected a w
          else trying 1 a w (\<lambda>w. do {
            (ok, correct_hash, w) \<leftarrow> sha1_compute_hash e a (cookie_id a) (challenge a) client_challenge w;
            if \<not> ok then Some (False, a, w)
            else if correct_hash = [] then send_rejected a w
            else if client_hash \<noteq> correct_hash then send_rejected a w
            else andthen (authorize (desired_identity a) a w) (\<lambda>a w.
              andthen (authorize_one DBUS_CREDENTIAL_UNIX_PROCESS_ID a w) (\<lambda>a w.
                Some (send_ok a w))) })) }))"

definition handle_server_data_cookie_sha1_mech ::
    "'k auth_env \<Rightarrow> byte list \<Rightarrow> 'k auth \<Rightarrow> world \<Rightarrow> (bool \<times> 'k auth \<times> world) option" where
  "handle_server_data_cookie_sha1_mech e msg a w =
     (if cookie_id a < 0 then sha1_handle_first_client_response e msg a w
      else sha1_handle_second_client_response e msg a w)"

section \<open>The mechanism that trusts the socket\<close>

definition external_decide :: "'k auth \<Rightarrow> world \<Rightarrow> (bool \<times> 'k auth \<times> world) option" where
  "external_decide a w =
     (if dbus_credentials_are_anonymous (desired_identity a) then send_rejected a w
      else do {
        superset \<leftarrow> dbus_credentials_are_superset (credentials a) (desired_identity a);
        if \<not> superset then send_rejected a w
        else andthen (authorize (desired_identity a) a w) (\<lambda>a w.
          andthen (authorize_one DBUS_CREDENTIAL_UNIX_PROCESS_ID a w) (\<lambda>a w.
            andthen (authorize_one DBUS_CREDENTIAL_ADT_AUDIT_DATA_ID a w) (\<lambda>a w.
              Some (send_ok a w)))) })"

definition desire_socket_credentials :: "'k auth \<Rightarrow> world \<Rightarrow> bool \<times> 'k auth \<times> world" where
  "desire_socket_credentials a w =
     (let (ok, c, r) = dbus_credentials_add_credentials (desired_identity a) (credentials a) (mem w)
      in (ok, a\<lparr>desired_identity := c\<rparr>, w\<lparr>mem := r\<rparr>))"

definition handle_server_data_external_mech ::
    "'k auth_env \<Rightarrow> byte list \<Rightarrow> 'k auth \<Rightarrow> world \<Rightarrow> (bool \<times> 'k auth \<times> world) option" where
  "handle_server_data_external_mech e msg a w =
     (if dbus_credentials_are_anonymous (credentials a) then send_rejected a w
      else if msg \<noteq> [] \<and> identity a \<noteq> [] then send_rejected a w
      else andthen (take_identity msg a w) (\<lambda>a w.
        if identity a = [] \<and> \<not> already_asked_for_initial_response a then
          andthen (send_data [] a w) (\<lambda>a w.
            Some (True, goto_state (a\<lparr>already_asked_for_initial_response := True\<rparr>) server_state_waiting_for_data, w))
        else
          let a = a\<lparr>desired_identity := dbus_credentials_clear (desired_identity a)\<rparr> in
          if identity a = [] then andthen (desire_socket_credentials a w) external_decide
          else
            let (ok, a, w) = add_from_user e (identity a) a w in
            if \<not> ok then send_rejected a w else external_decide a w))"

section \<open>The anonymous mechanism\<close>

definition text_of :: "byte list \<Rightarrow> real_string" where
  "text_of xs = \<lparr>block = xs @ [0], addr = 0, align_offset = 0, len = length xs, allocated = length xs + PADDING,
     max_length = length xs + 1, const_data = True, locked = True, invalid = False\<rparr>"

definition handle_server_data_anonymous_mech ::
    "'k auth_env \<Rightarrow> byte list \<Rightarrow> 'k auth \<Rightarrow> world \<Rightarrow> (bool \<times> 'k auth \<times> world) option" where
  "handle_server_data_anonymous_mech e msg a w = do {
     valid \<leftarrow> (if msg \<noteq> [] then dbus_string_validate_utf8 (text_of msg) 0 (length msg) else Some True);
     if \<not> valid then send_rejected a w
     else
       let a = a\<lparr>desired_identity := dbus_credentials_clear (desired_identity a)\<rparr> in
       andthen (authorize_one DBUS_CREDENTIAL_UNIX_PROCESS_ID a w) (\<lambda>a w. Some (send_ok a w)) }"

definition server_data_func ::
    "'k auth_env \<Rightarrow> mechanism \<Rightarrow> byte list \<Rightarrow> 'k auth \<Rightarrow> world \<Rightarrow> (bool \<times> 'k auth \<times> world) option" where
  "server_data_func e m = (case m of
     EXTERNAL \<Rightarrow> handle_server_data_external_mech e
   | DBUS_COOKIE_SHA1 \<Rightarrow> handle_server_data_cookie_sha1_mech e
   | ANONYMOUS \<Rightarrow> handle_server_data_anonymous_mech e)"

section \<open>The client's side of the mechanisms\<close>

definition initial_response :: "'k auth_env \<Rightarrow> mechanism \<Rightarrow> byte list" where
  "initial_response e m = (case m of
     EXTERNAL \<Rightarrow> own_user e
   | DBUS_COOKIE_SHA1 \<Rightarrow> own_user e
   | ANONYMOUS \<Rightarrow> ascii ''libdbus '' @ version_string e)"

definition keyring_validate_context :: "byte list \<Rightarrow> bool" where
  "keyring_validate_context c \<longleftrightarrow> c \<noteq> [] \<and> list_all is_ascii c \<and>
     (\<forall>b \<in> set c. b \<noteq> 0x2F \<and> b \<noteq> 0x5C \<and> b \<noteq> 0x2E \<and> \<not> is_ascii_blank b \<and> b \<noteq> 0x0A \<and> b \<noteq> 0x0D)"

definition answer_challenge ::
    "'k auth_env \<Rightarrow> int \<Rightarrow> byte list \<Rightarrow> 'k auth \<Rightarrow> world \<Rightarrow> (bool \<times> 'k auth \<times> world) option" where
  "answer_challenge e val server_challenge a w =
     trying 2 a w (\<lambda>w.
       let (tmp, w) = roll N_CHALLENGE_BYTES w in
       trying 3 a w (\<lambda>w. do {
         let client_challenge = concat (map hex_of_byte tmp);
         (ok, correct_hash, w) \<leftarrow> sha1_compute_hash e a val server_challenge client_challenge w;
         if \<not> ok then Some (False, a, w)
         else if correct_hash = [] then send_error ''Don't have the requested cookie ID'' a w
         else trying 3 a w (\<lambda>w. Some (send_data (client_challenge @ ascii '' '' @ correct_hash) a w)) }))"

definition handle_client_data_cookie_sha1_mech ::
    "'k auth_env \<Rightarrow> byte list \<Rightarrow> 'k auth \<Rightarrow> world \<Rightarrow> (bool \<times> 'k auth \<times> world) option" where
  "handle_client_data_cookie_sha1_mech e msg a w =
     (let i = find_blank msg 0 in
      if i = length msg then send_error ''Server did not send context/ID/challenge properly'' a w
      else trying 2 a w (\<lambda>w. do {
        let cookie_ctx = take i msg;
        i \<leftarrow> skip_blank msg i;
        let j = find_blank msg i;
        if j = length msg then send_error ''Server did not send context/ID/challenge properly'' a w
        else trying 3 a w (\<lambda>w. do {
          let cookie_id_str = take (j - i) (drop i msg);
          i \<leftarrow> skip_blank msg j;
          trying 1 a w (\<lambda>w.
            let server_challenge = drop i msg in
            if \<not> keyring_validate_context cookie_ctx then send_error ''Server sent invalid cookie context'' a w
            else case parse_int e cookie_id_str of
              None \<Rightarrow> send_error ''Could not parse cookie ID as an integer'' a w
            | Some val \<Rightarrow>
                if server_challenge = [] then send_error ''Empty server challenge string'' a w
                else if keyring a = None then
                  trying 1 a w (\<lambda>w. case keyring_new e None cookie_ctx of
                      None \<Rightarrow> send_error ''Could not load cookie file'' a w
                    | Some k \<Rightarrow> answer_challenge e val server_challenge (a\<lparr>keyring := Some k\<rparr>) w)
                else answer_challenge e val server_challenge a w) }) }))"

definition client_data_func ::
    "'k auth_env \<Rightarrow> mechanism \<Rightarrow> byte list \<Rightarrow> 'k auth \<Rightarrow> world \<Rightarrow> (bool \<times> 'k auth \<times> world) option" where
  "client_data_func e m = (case m of
     EXTERNAL \<Rightarrow> (\<lambda>msg a w. Some (True, a, w))
   | DBUS_COOKIE_SHA1 \<Rightarrow> handle_client_data_cookie_sha1_mech e
   | ANONYMOUS \<Rightarrow> (\<lambda>msg a w. Some (True, a, w)))"

definition send_auth :: "'k auth_env \<Rightarrow> mechanism \<Rightarrow> 'k auth \<Rightarrow> world \<Rightarrow> bool \<times> 'k auth \<times> world" where
  "send_auth e m a w =
     (let (ok, a, w) = emit 9 (ascii ''AUTH '' @ mechanism_name m @ ascii '' ''
                         @ concat (map hex_of_byte (initial_response e m)) @ crlf) a w
      in if \<not> ok then (False, a, w)
         else let a = (shutdown_mech a)\<lparr>mech := Some m\<rparr> in (True, goto_state a client_state_waiting_for_data, w))"

section \<open>Commands\<close>

definition process_data ::
    "(byte list \<Rightarrow> 'k auth \<Rightarrow> world \<Rightarrow> (bool \<times> 'k auth \<times> world) option) \<Rightarrow> byte list \<Rightarrow>
     'k auth \<Rightarrow> world \<Rightarrow> (bool \<times> 'k auth \<times> world) option" where
  "process_data data_func args a w =
     trying 2 a w (\<lambda>w.
       if length args \<noteq> length (hex_prefix args) then send_error ''Invalid hex encoding'' a w
       else data_func (hex_decoded args) a w)"

text \<open>\<open>failed:\<close> forgets the mechanism.\<close>

definition forget_mech :: "(bool \<times> 'k auth \<times> world) option \<Rightarrow> (bool \<times> 'k auth \<times> world) option" where
  "forget_mech r = do { (ok, a, w) \<leftarrow> r; Some (ok, if ok then a else a\<lparr>mech := None\<rparr>, w) }"

definition handle_auth :: "'k auth_env \<Rightarrow> byte list \<Rightarrow> 'k auth \<Rightarrow> world \<Rightarrow> (bool \<times> 'k auth \<times> world) option" where
  "handle_auth e args a w =
     (if args = [] then send_rejected a w
      else
        let i = find_blank args 0 in
        trying 2 a w (\<lambda>w. forget_mech (trying 1 a w (\<lambda>w. do {
          let name = take i args;
          i \<leftarrow> skip_blank args i;
          trying 1 a w (\<lambda>w.
            let hex_response = drop i args;
                a = a\<lparr>mech := find_mech name (allowed_mechs a)\<rparr> in
            case mech a of
              Some m \<Rightarrow> process_data (server_data_func e m) hex_response a w
            | None \<Rightarrow> send_rejected a w) }))))"

definition handle_server_state_waiting_for_auth ::
    "'k auth_env \<Rightarrow> auth_command \<Rightarrow> byte list \<Rightarrow> 'k auth \<Rightarrow> world \<Rightarrow> (bool \<times> 'k auth \<times> world) option" where
  "handle_server_state_waiting_for_auth e command args a w = (case command of
     DBUS_AUTH_COMMAND_AUTH \<Rightarrow> handle_auth e args a w
   | DBUS_AUTH_COMMAND_CANCEL \<Rightarrow> send_error ''Not currently in an auth conversation'' a w
   | DBUS_AUTH_COMMAND_DATA \<Rightarrow> send_error ''Not currently in an auth conversation'' a w
   | DBUS_AUTH_COMMAND_BEGIN \<Rightarrow> Some (True, goto_state a common_state_need_disconnect, w)
   | DBUS_AUTH_COMMAND_ERROR \<Rightarrow> send_rejected a w
   | DBUS_AUTH_COMMAND_NEGOTIATE_UNIX_FD \<Rightarrow> send_error ''Need to authenticate first'' a w
   | _ \<Rightarrow> send_error ''Unknown command'' a w)"

definition handle_server_state_waiting_for_data ::
    "'k auth_env \<Rightarrow> auth_command \<Rightarrow> byte list \<Rightarrow> 'k auth \<Rightarrow> world \<Rightarrow> (bool \<times> 'k auth \<times> world) option" where
  "handle_server_state_waiting_for_data e command args a w = (case command of
     DBUS_AUTH_COMMAND_AUTH \<Rightarrow> send_error ''Sent AUTH while another AUTH in progress'' a w
   | DBUS_AUTH_COMMAND_CANCEL \<Rightarrow> send_rejected a w
   | DBUS_AUTH_COMMAND_ERROR \<Rightarrow> send_rejected a w
   | DBUS_AUTH_COMMAND_DATA \<Rightarrow> do { m \<leftarrow> mech a; process_data (server_data_func e m) args a w }
   | DBUS_AUTH_COMMAND_BEGIN \<Rightarrow> Some (True, goto_state a common_state_need_disconnect, w)
   | DBUS_AUTH_COMMAND_NEGOTIATE_UNIX_FD \<Rightarrow> send_error ''Need to authenticate first'' a w
   | _ \<Rightarrow> send_error ''Unknown command'' a w)"

definition handle_server_state_waiting_for_begin ::
    "auth_command \<Rightarrow> byte list \<Rightarrow> 'k auth \<Rightarrow> world \<Rightarrow> (bool \<times> 'k auth \<times> world) option" where
  "handle_server_state_waiting_for_begin command args a w = (case command of
     DBUS_AUTH_COMMAND_AUTH \<Rightarrow> send_error ''Sent AUTH while expecting BEGIN'' a w
   | DBUS_AUTH_COMMAND_DATA \<Rightarrow> send_error ''Sent DATA while expecting BEGIN'' a w
   | DBUS_AUTH_COMMAND_BEGIN \<Rightarrow> Some (True, goto_state a common_state_authenticated, w)
   | DBUS_AUTH_COMMAND_NEGOTIATE_UNIX_FD \<Rightarrow>
       if unix_fd_possible a then send_agree_unix_fd a w
       else send_error ''Unix FD passing not supported, not authenticated or otherwise not possible'' a w
   | DBUS_AUTH_COMMAND_CANCEL \<Rightarrow> send_rejected a w
   | DBUS_AUTH_COMMAND_ERROR \<Rightarrow> send_rejected a w
   | _ \<Rightarrow> send_error ''Unknown command'' a w)"

definition process_ok :: "byte list \<Rightarrow> 'k auth \<Rightarrow> world \<Rightarrow> (bool \<times> 'k auth \<times> world) option" where
  "process_ok args a w = do {
     guard (guid_from_server a = []);
     trying 1 a w (\<lambda>w.
       let end_of_hex = length (hex_prefix args) in
       if end_of_hex \<noteq> length args \<or> end_of_hex = 0
       then Some (True, goto_state a common_state_need_disconnect, w)
       else trying 1 a w (\<lambda>w.
         let a = a\<lparr>guid_from_server := args\<rparr> in
         Some (if unix_fd_possible a then send_negotiate_unix_fd a w else send_begin a w))) }"

definition get_word :: "byte list \<Rightarrow> nat \<Rightarrow> world \<Rightarrow> (bool \<times> byte list \<times> nat \<times> world) option" where
  "get_word str start w = do {
     start \<leftarrow> skip_blank str start;
     let i = find_blank str start;
     if i > start then do {
       let (ok, w) = attempt w;
       Some (if \<not> ok then (False, [], start, w) else (True, take (i - start) (drop start str), i, w)) }
     else Some (True, [], start, w) }"

lemma skip_blank_bounds:
  assumes "skip_blank xs i = Some j"
  shows "i \<le> j" "i \<le> length xs \<Longrightarrow> j \<le> length xs" "j < length xs \<Longrightarrow> \<not> is_ascii_blank (xs ! j)"
proof -
  have j: "j = i + length (takeWhile is_ascii_blank (drop i xs))"
    using assms by (auto simp: skip_blank_def Let_def split: if_splits)
  show "i \<le> j" using j by simp
  show "j \<le> length xs" if "i \<le> length xs"
    using length_takeWhile_le [of is_ascii_blank "drop i xs"] that by (simp add: j)
  show "\<not> is_ascii_blank (xs ! j)" if "j < length xs"
    using nth_length_takeWhile [of is_ascii_blank "drop i xs"] that by (simp add: j)
qed

lemma get_word_advances: "get_word str start w = Some (True, m, j, w') \<Longrightarrow> start < length str \<Longrightarrow> start < j"
proof -
  assume get: "get_word str start w = Some (True, m, j, w')" and less: "start < length str"
  obtain k where k: "skip_blank str start = Some k"
    using get by (cases "skip_blank str start") (auto simp: get_word_def)
  note b = skip_blank_bounds [OF k]
  show "start < j"
  proof (cases "k < length str")
    case True
    then have "find_blank str k > k"
      using b(3) Cons_nth_drop_Suc [OF True, symmetric] by (simp add: find_blank_def)
    then show ?thesis using get k b(1) by (auto simp: get_word_def Let_def split: prod.splits if_splits)
  next
    case False
    then show ?thesis using get k b less by (auto simp: get_word_def find_blank_def Let_def split: prod.splits if_splits)
  qed
qed

function record_loop ::
    "byte list \<Rightarrow> nat \<Rightarrow> 'k auth \<Rightarrow> world \<Rightarrow> (bool \<times> 'k auth \<times> world) option" where
  "record_loop args start a w =
     (if start < length args then
        let (ok, w) = attempt w in
        if \<not> ok then Some (False, a, w)
        else case get_word args start w of
          None \<Rightarrow> None
        | Some (ok, m, start', w) \<Rightarrow>
            if \<not> ok then Some (False, a, w)
            else case find_mech m (allowed_mechs a) of
                   None \<Rightarrow> record_loop args start' a w
                 | Some mh \<Rightarrow>
                     if mh \<noteq> EXTERNAL then
                       let (ok, w) = attempt w in
                       if \<not> ok then Some (False, a, w)
                       else record_loop args start' (a\<lparr>mechs_to_try := mechs_to_try a @ [mh]\<rparr>) w
                     else record_loop args start' a w
      else Some (True, a, w))"
  by pat_completeness auto
termination
  by (relation "measure (\<lambda>(args, start, a, w). length args - start)") (auto dest: get_word_advances intro: diff_less_mono2)

declare record_loop.simps [simp del]

definition record_mechanisms :: "byte list \<Rightarrow> 'k auth \<Rightarrow> world \<Rightarrow> (bool \<times> 'k auth \<times> world) option" where
  "record_mechanisms args a w =
     (if already_got_mechanisms a then Some (True, a, w)
      else do {
        (ok, a, w) \<leftarrow> record_loop args 0 a w;
        Some (if \<not> ok then (False, a\<lparr>mechs_to_try := []\<rparr>, w)
              else (True, a\<lparr>already_got_mechanisms := True\<rparr>, w)) })"

definition process_rejected ::
    "'k auth_env \<Rightarrow> byte list \<Rightarrow> 'k auth \<Rightarrow> world \<Rightarrow> (bool \<times> 'k auth \<times> world) option" where
  "process_rejected e args a w = do {
     (ok, a, w) \<leftarrow> (if \<not> already_got_mechanisms a then record_mechanisms args a w else Some (True, a, w));
     if \<not> ok then Some (False, a, w)
     else case mechs_to_try a of
            m # ms \<Rightarrow> andthen (send_auth e m a w) (\<lambda>a w. Some (True, a\<lparr>mechs_to_try := tl (mechs_to_try a)\<rparr>, w))
          | [] \<Rightarrow> Some (True, goto_state a common_state_need_disconnect, w) }"

definition handle_client_state_waiting_for_data ::
    "'k auth_env \<Rightarrow> auth_command \<Rightarrow> byte list \<Rightarrow> 'k auth \<Rightarrow> world \<Rightarrow> (bool \<times> 'k auth \<times> world) option" where
  "handle_client_state_waiting_for_data e command args a w = (case mech a of
     None \<Rightarrow> None
   | Some m \<Rightarrow> (case command of
       DBUS_AUTH_COMMAND_DATA \<Rightarrow> process_data (client_data_func e m) args a w
     | DBUS_AUTH_COMMAND_REJECTED \<Rightarrow> process_rejected e args a w
     | DBUS_AUTH_COMMAND_OK \<Rightarrow> process_ok args a w
     | DBUS_AUTH_COMMAND_ERROR \<Rightarrow> Some (send_cancel a w)
     | _ \<Rightarrow> send_error ''Unknown command'' a w))"

definition handle_client_state_waiting_for_ok ::
    "'k auth_env \<Rightarrow> auth_command \<Rightarrow> byte list \<Rightarrow> 'k auth \<Rightarrow> world \<Rightarrow> (bool \<times> 'k auth \<times> world) option" where
  "handle_client_state_waiting_for_ok e command args a w = (case command of
     DBUS_AUTH_COMMAND_REJECTED \<Rightarrow> process_rejected e args a w
   | DBUS_AUTH_COMMAND_OK \<Rightarrow> process_ok args a w
   | DBUS_AUTH_COMMAND_DATA \<Rightarrow> Some (send_cancel a w)
   | DBUS_AUTH_COMMAND_ERROR \<Rightarrow> Some (send_cancel a w)
   | _ \<Rightarrow> send_error ''Unknown command'' a w)"

definition handle_client_state_waiting_for_reject ::
    "'k auth_env \<Rightarrow> auth_command \<Rightarrow> byte list \<Rightarrow> 'k auth \<Rightarrow> world \<Rightarrow> (bool \<times> 'k auth \<times> world) option" where
  "handle_client_state_waiting_for_reject e command args a w = (case command of
     DBUS_AUTH_COMMAND_REJECTED \<Rightarrow> process_rejected e args a w
   | _ \<Rightarrow> Some (True, goto_state a common_state_need_disconnect, w))"

definition handle_client_state_waiting_for_agree_unix_fd ::
    "auth_command \<Rightarrow> byte list \<Rightarrow> 'k auth \<Rightarrow> world \<Rightarrow> (bool \<times> 'k auth \<times> world) option" where
  "handle_client_state_waiting_for_agree_unix_fd command args a w = (case command of
     DBUS_AUTH_COMMAND_AGREE_UNIX_FD \<Rightarrow> do {
       guard (unix_fd_possible a);
       Some (send_begin (a\<lparr>unix_fd_negotiated := True\<rparr>) w) }
   | DBUS_AUTH_COMMAND_ERROR \<Rightarrow> do {
       guard (unix_fd_possible a);
       Some (send_begin (a\<lparr>unix_fd_negotiated := False\<rparr>) w) }
   | _ \<Rightarrow> send_error ''Unknown command'' a w)"

text \<open>The handler of a state; the states without one are NULL pointers in the code.\<close>

definition in_end_state :: "'k auth \<Rightarrow> bool" where
  "in_end_state a \<longleftrightarrow> state a \<in> {client_state_need_send_auth, common_state_authenticated, common_state_need_disconnect}"

definition handle :: "'k auth_env \<Rightarrow> auth_command \<Rightarrow> byte list \<Rightarrow> 'k auth \<Rightarrow> world \<Rightarrow> (bool \<times> 'k auth \<times> world) option" where
  "handle e command args a w = (case state a of
     server_state_waiting_for_auth \<Rightarrow> handle_server_state_waiting_for_auth e command args a w
   | server_state_waiting_for_data \<Rightarrow> handle_server_state_waiting_for_data e command args a w
   | server_state_waiting_for_begin \<Rightarrow> handle_server_state_waiting_for_begin command args a w
   | client_state_waiting_for_data \<Rightarrow> handle_client_state_waiting_for_data e command args a w
   | client_state_waiting_for_ok \<Rightarrow> handle_client_state_waiting_for_ok e command args a w
   | client_state_waiting_for_reject \<Rightarrow> handle_client_state_waiting_for_reject e command args a w
   | client_state_waiting_for_agree_unix_fd \<Rightarrow> handle_client_state_waiting_for_agree_unix_fd command args a w
   | client_state_need_send_auth \<Rightarrow> None
   | common_state_authenticated \<Rightarrow> None
   | common_state_need_disconnect \<Rightarrow> None)"

text \<open>A line without its end: refused if it is not ASCII, otherwise a command, blanks and arguments.\<close>

definition process_line :: "'k auth_env \<Rightarrow> byte list \<Rightarrow> 'k auth \<Rightarrow> world \<Rightarrow> (bool \<times> 'k auth \<times> world) option" where
  "process_line e line a w =
     (if \<not> list_all is_ascii line then send_error ''Command contained non-ASCII'' a w
      else do {
        let i = find_blank line 0;
        j \<leftarrow> skip_blank line i;
        trying 1 a w (\<lambda>w. handle e (lookup_command_from_name (take i line)) (drop j line) a w) })"

definition process_command :: "'k auth_env \<Rightarrow> 'k auth \<Rightarrow> world \<Rightarrow> (bool \<times> 'k auth \<times> world) option" where
  "process_command e a w =
     (case find_crlf (incoming a) of
        None \<Rightarrow> Some (False, a, w)
      | Some eol \<Rightarrow>
          (let (ok, w) = attempts 3 w in
           if \<not> ok then Some (False, a\<lparr>needed_memory := True\<rparr>, w)
           else do {
             (ok, a, w) \<leftarrow> process_line e (take eol (incoming a)) a w;
             Some (if \<not> ok then (False, a\<lparr>needed_memory := True\<rparr>, w)
                   else (True, a\<lparr>incoming := drop (eol + 2) (incoming a), needed_memory := False\<rparr>, w)) }))"

section \<open>Creation and the other operations\<close>

text \<open>The object, five strings, the default context and three credentials; whatever was made before a failure
  is freed.\<close>

definition dbus_auth_new :: "world \<Rightarrow> 'k auth option \<times> world" where
  "dbus_auth_new w =
     (let (ok, w) = attempts 10 w in
      (if ok then Some \<lparr>side = auth_side_client, incoming = [], outgoing = [], state = client_state_need_send_auth,
           mech = None, identity = [], credentials = empty_credentials, authorized_identity = empty_credentials,
           desired_identity = empty_credentials, cookie_context = ascii ''org_freedesktop_general'', keyring = None,
           cookie_id = -1, challenge = [], allowed_mechs = None, needed_memory = False,
           already_got_mechanisms = False, already_asked_for_initial_response = False, buffer_outstanding = False,
           unix_fd_possible = False, unix_fd_negotiated = False, mechs_to_try = [], guid_from_server = [],
           failures = 0, max_failures = 0, guid = []\<rparr>
       else None, w))"

definition dbus_auth_server_new :: "byte list \<Rightarrow> world \<Rightarrow> 'k auth option \<times> world" where
  "dbus_auth_server_new g w =
     (let (ok, w) = attempts 2 w in
      if \<not> ok then (None, w)
      else case dbus_auth_new w of
             (None, w) \<Rightarrow> (None, w)
           | (Some a, w) \<Rightarrow> (Some (a\<lparr>side := auth_side_server, state := server_state_waiting_for_auth, guid := g,
                              failures := 0, max_failures := 6\<rparr>), w))"

definition dbus_auth_client_new :: "'k auth_env \<Rightarrow> world \<Rightarrow> 'k auth option \<times> world" where
  "dbus_auth_client_new e w =
     (let (ok, w) = attempt w in
      if \<not> ok then (None, w)
      else case dbus_auth_new w of
             (None, w) \<Rightarrow> (None, w)
           | (Some a, w) \<Rightarrow>
               (let (ok, a, w) = send_auth e (hd all_mechanisms)
                      (a\<lparr>side := auth_side_client, state := client_state_need_send_auth, guid_from_server := []\<rparr>) w
                in (if ok then Some a else None, w)))"

definition dbus_auth_set_mechanisms :: "byte list list option \<Rightarrow> 'k auth \<Rightarrow> world \<Rightarrow> bool \<times> 'k auth \<times> world" where
  "dbus_auth_set_mechanisms mechanisms a w = (case mechanisms of
     None \<Rightarrow> (True, a\<lparr>allowed_mechs := None\<rparr>, w)
   | Some ms \<Rightarrow> (let (ok, w) = attempts (1 + length ms) w in
                 (ok, if ok then a\<lparr>allowed_mechs := Some ms\<rparr> else a, w)))"

definition dbus_auth_get_bytes_to_send :: "'k auth \<Rightarrow> byte list option" where
  "dbus_auth_get_bytes_to_send a = (if outgoing a = [] then None else Some (outgoing a))"

definition dbus_auth_bytes_sent :: "nat \<Rightarrow> 'k auth \<Rightarrow> 'k auth option" where
  "dbus_auth_bytes_sent n a = do { guard (n \<le> length (outgoing a)); Some (a\<lparr>outgoing := drop n (outgoing a)\<rparr>) }"

definition dbus_auth_get_buffer :: "'k auth \<Rightarrow> 'k auth option" where
  "dbus_auth_get_buffer a = do { guard (\<not> buffer_outstanding a); Some (a\<lparr>buffer_outstanding := True\<rparr>) }"

text \<open>The caller has appended what it read to the buffer it holds.\<close>

definition dbus_auth_return_buffer :: "byte list \<Rightarrow> 'k auth \<Rightarrow> 'k auth option" where
  "dbus_auth_return_buffer read a = do {
     guard (buffer_outstanding a);
     Some (a\<lparr>incoming := incoming a @ read, buffer_outstanding := False\<rparr>) }"

definition dbus_auth_get_unused_bytes :: "'k auth \<Rightarrow> byte list option" where
  "dbus_auth_get_unused_bytes a = (if \<not> in_end_state a then None else Some (incoming a))"

definition dbus_auth_delete_unused_bytes :: "'k auth \<Rightarrow> 'k auth" where
  "dbus_auth_delete_unused_bytes a = (if \<not> in_end_state a then a else a\<lparr>incoming := []\<rparr>)"

text \<open>No mechanism of the table has an encoding or a decoding function.\<close>

definition has_encode_func :: "mechanism \<Rightarrow> bool" where "has_encode_func m = False"
definition has_decode_func :: "mechanism \<Rightarrow> bool" where "has_decode_func m = False"

definition dbus_auth_needs_encoding :: "'k auth \<Rightarrow> bool" where
  "dbus_auth_needs_encoding a =
     (if state a \<noteq> common_state_authenticated then False
      else case mech a of Some m \<Rightarrow> has_encode_func m | None \<Rightarrow> False)"

definition dbus_auth_needs_decoding :: "'k auth \<Rightarrow> bool" where
  "dbus_auth_needs_decoding a =
     (if state a \<noteq> common_state_authenticated then False
      else case mech a of Some m \<Rightarrow> has_decode_func m | None \<Rightarrow> False)"

definition dbus_auth_encode_data :: "'k auth \<Rightarrow> byte list \<Rightarrow> byte list \<Rightarrow> world \<Rightarrow> (bool \<times> byte list \<times> world) option" where
  "dbus_auth_encode_data a plaintext encoded w =
     (if state a \<noteq> common_state_authenticated then Some (False, encoded, w)
      else if dbus_auth_needs_encoding a then None
      else let (ok, w) = attempt w in Some (ok, if ok then encoded @ plaintext else encoded, w))"

definition dbus_auth_decode_data :: "'k auth \<Rightarrow> byte list \<Rightarrow> byte list \<Rightarrow> world \<Rightarrow> (bool \<times> byte list \<times> world) option" where
  "dbus_auth_decode_data a encoded plaintext w =
     (if state a \<noteq> common_state_authenticated then Some (False, plaintext, w)
      else if dbus_auth_needs_decoding a then None
      else let (ok, w) = attempt w in Some (ok, if ok then plaintext @ encoded else plaintext, w))"

definition dbus_auth_set_credentials :: "creds \<Rightarrow> 'k auth \<Rightarrow> world \<Rightarrow> bool \<times> 'k auth \<times> world" where
  "dbus_auth_set_credentials c a w =
     (let (ok, c, r) = dbus_credentials_add_credentials (dbus_credentials_clear (credentials a)) c (mem w)
      in (ok, a\<lparr>credentials := c\<rparr>, w\<lparr>mem := r\<rparr>))"

definition dbus_auth_get_identity :: "'k auth \<Rightarrow> creds option" where
  "dbus_auth_get_identity a =
     (if state a = common_state_authenticated then Some (authorized_identity a)
      else do { guard (dbus_credentials_are_empty (authorized_identity a)); Some (authorized_identity a) })"

definition dbus_auth_get_guid_from_server :: "'k auth \<Rightarrow> byte list option option" where
  "dbus_auth_get_guid_from_server a = do {
     guard (side a = auth_side_client);
     Some (if state a = common_state_authenticated then Some (guid_from_server a) else None) }"

definition dbus_auth_set_context :: "byte list \<Rightarrow> 'k auth \<Rightarrow> world \<Rightarrow> (bool \<times> 'k auth \<times> world) option" where
  "dbus_auth_set_context ctx a w = do {
     guard (length ctx \<le> length (cookie_context a));
     let (ok, w) = attempt w;
     Some (ok, if ok then a\<lparr>cookie_context := ctx @ drop (length ctx) (cookie_context a)\<rparr> else a, w) }"

definition dbus_auth_set_unix_fd_possible :: "bool \<Rightarrow> 'k auth \<Rightarrow> 'k auth" where
  "dbus_auth_set_unix_fd_possible b a = a\<lparr>unix_fd_possible := b\<rparr>"

definition dbus_auth_get_unix_fd_negotiated :: "'k auth \<Rightarrow> bool" where
  "dbus_auth_get_unix_fd_negotiated a = unix_fd_negotiated a"

end
