(* ===== verification/Auth_Steps.thy ===== *)
theory Auth_Steps
  imports Auth
begin

text \<open>
  What every step of the authentication conversation keeps (\<open>dbus/dbus-auth.c\<close>), for both sides and all states:
  a partial correctness calculus over the steps, the contract of the data functions as a locale, and that the
  loop over the commands ends.
\<close>

section \<open>What every step keeps\<close>

text \<open>\<open>post r P\<close>: if the step \<open>r\<close> returns, its answer and state satisfy \<open>P\<close>.\<close>

definition post :: "(bool \<times> 'k auth \<times> world) option \<Rightarrow> (bool \<Rightarrow> 'k auth \<Rightarrow> bool) \<Rightarrow> bool" where
  "post r P \<longleftrightarrow> (\<forall>ok a w. r = Some (ok, a, w) \<longrightarrow> P ok a)"

lemma post_simps [simp]:
  "post (Some p) P \<longleftrightarrow> (case p of (ok, a, w) \<Rightarrow> P ok a)"
  "post None P"
  "post (x \<bind> f) P \<longleftrightarrow> (\<forall>y. x = Some y \<longrightarrow> post (f y) P)"
  "post (if b then r else r') P \<longleftrightarrow> (b \<longrightarrow> post r P) \<and> (\<not> b \<longrightarrow> post r' P)"
  by (cases p) (auto simp: post_def bind_eq_Some_conv)

lemma post_mono: "post r P \<Longrightarrow> (\<And>ok a. P ok a \<Longrightarrow> Q ok a) \<Longrightarrow> post r Q"
  by (simp add: post_def)

lemma postD: "post r P \<Longrightarrow> r = Some (ok, a, w) \<Longrightarrow> P ok a"
  by (simp add: post_def)

text \<open>\<open>frame a a'\<close>: what no step changes. \<open>unsent a a'\<close>: what a step that ran out of memory leaves alone, too.\<close>

definition frame :: "'k auth \<Rightarrow> 'k auth \<Rightarrow> bool" where
  "frame a a' \<longleftrightarrow> side a' = side a \<and> incoming a' = incoming a \<and> credentials a' = credentials a
     \<and> allowed_mechs a' = allowed_mechs a \<and> max_failures a' = max_failures a \<and> guid a' = guid a
     \<and> cookie_context a' = cookie_context a \<and> unix_fd_possible a' = unix_fd_possible a
     \<and> needed_memory a' = needed_memory a \<and> buffer_outstanding a' = buffer_outstanding a"

definition unsent :: "'k auth \<Rightarrow> 'k auth \<Rightarrow> bool" where
  "unsent a a' \<longleftrightarrow> outgoing a' = outgoing a \<and> state a' = state a \<and> failures a' = failures a"

definition kept :: "'k auth \<Rightarrow> bool \<Rightarrow> 'k auth \<Rightarrow> bool" where
  "kept a ok a' \<longleftrightarrow> frame a a' \<and> (\<not> ok \<longrightarrow> unsent a a')"

lemmas kept_defs = kept_def frame_def unsent_def goto_state_def

lemma emit_result:
  "emit n xs a w = (ok, a', w') \<Longrightarrow> ok \<and> a' = a\<lparr>outgoing := outgoing a @ xs\<rparr> \<or> \<not> ok \<and> a' = a"
  by (auto simp: emit_def split: prod.splits if_splits)

lemma send_data_result:
  "send_data xs a w = (ok, a', w') \<Longrightarrow> (\<exists>ys. ok \<and> a' = a\<lparr>outgoing := outgoing a @ ys\<rparr>) \<or> \<not> ok \<and> a' = a"
  by (auto simp: send_data_def dest!: emit_result split: if_splits)

lemma shutdown_mech_fields [simp]:
  "side (shutdown_mech a) = side a" "incoming (shutdown_mech a) = incoming a" "outgoing (shutdown_mech a) = outgoing a"
  "credentials (shutdown_mech a) = credentials a" "allowed_mechs (shutdown_mech a) = allowed_mechs a"
  "max_failures (shutdown_mech a) = max_failures a" "failures (shutdown_mech a) = failures a"
  "guid (shutdown_mech a) = guid a" "cookie_context (shutdown_mech a) = cookie_context a"
  "unix_fd_possible (shutdown_mech a) = unix_fd_possible a" "needed_memory (shutdown_mech a) = needed_memory a"
  "buffer_outstanding (shutdown_mech a) = buffer_outstanding a" "mech (shutdown_mech a) = None"
  "authorized_identity (shutdown_mech a) = dbus_credentials_clear (authorized_identity a)"
  "desired_identity (shutdown_mech a) = dbus_credentials_clear (desired_identity a)"
  "state (shutdown_mech a) = state a" "identity (shutdown_mech a) = []"
  "guid_from_server (shutdown_mech a) = guid_from_server a" "mechs_to_try (shutdown_mech a) = mechs_to_try a"
  "unix_fd_negotiated (shutdown_mech a) = unix_fd_negotiated a"
  by (simp_all add: shutdown_mech_def shutdown_cookie_sha1_mech_def Let_def split: option.split mechanism.split)

lemma send_rejected_kept: "post (send_rejected a w) (kept a)"
  by (auto simp: send_rejected_def kept_defs Let_def split: prod.splits dest!: emit_result)

lemma send_error_kept: "post (send_error message a w) (kept a)"
  by (auto simp: send_error_def kept_defs split: prod.splits dest!: emit_result)

lemma sends_kept:
  "post (Some (send_ok a w)) (kept a)" "post (Some (send_begin a w)) (kept a)" "post (Some (send_cancel a w)) (kept a)"
  "post (Some (send_negotiate_unix_fd a w)) (kept a)" "post (Some (send_data xs a w)) (kept a)"
  "post (send_agree_unix_fd a w) (kept a)"
  by (auto simp: send_ok_def send_begin_def send_cancel_def send_negotiate_unix_fd_def send_agree_unix_fd_def kept_defs Let_def
      split: prod.splits if_splits dest!: emit_result send_data_result)

text \<open>Steps after changes that the frame does not watch.\<close>

lemma kept_trans: "frame a a1 \<Longrightarrow> unsent a a1 \<Longrightarrow> kept a1 ok a' \<Longrightarrow> kept a ok a'"
  by (simp add: kept_defs)

lemma post_kept_trans: "post r (kept a1) \<Longrightarrow> frame a a1 \<Longrightarrow> unsent a a1 \<Longrightarrow> post r (kept a)"
  by (erule post_mono) (rule kept_trans)

definition still :: "'k auth \<Rightarrow> 'k auth \<Rightarrow> bool" where
  "still a a' \<longleftrightarrow> frame a a' \<and> unsent a a'"

lemma still_refl [simp]: "still a a" "kept a ok a"
  by (simp_all add: still_def kept_defs)

lemma still_trans: "still a a1 \<Longrightarrow> still a1 a' \<Longrightarrow> still a a'"
  by (simp add: still_def kept_defs)

lemma still_kept: "still a a' \<Longrightarrow> kept a ok a'"
  by (simp add: still_def kept_def)

lemma still_updates [simp]:
  "still a (a'\<lparr>identity := i\<rparr>) = still a a'" "still a (a'\<lparr>challenge := c\<rparr>) = still a a'"
  "still a (a'\<lparr>desired_identity := d\<rparr>) = still a a'" "still a (a'\<lparr>authorized_identity := d\<rparr>) = still a a'"
  "still a (a'\<lparr>keyring := k\<rparr>) = still a a'" "still a (a'\<lparr>cookie_id := n\<rparr>) = still a a'"
  "still a (a'\<lparr>mech := m\<rparr>) = still a a'" "still a (a'\<lparr>mechs_to_try := ms\<rparr>) = still a a'"
  "still a (a'\<lparr>guid_from_server := g\<rparr>) = still a a'" "still a (a'\<lparr>already_got_mechanisms := b\<rparr>) = still a a'"
  "still a (a'\<lparr>unix_fd_negotiated := b\<rparr>) = still a a'" "still a (a'\<lparr>already_asked_for_initial_response := b\<rparr>) = still a a'"
  by (simp_all add: still_def kept_defs)

lemma kept_updates [simp]:
  "kept a ok (a'\<lparr>already_asked_for_initial_response := b\<rparr>) = kept a ok a'" "kept a ok (a'\<lparr>mech := m\<rparr>) = kept a ok a'" "kept a ok (a'\<lparr>mechs_to_try := ms\<rparr>) = kept a ok a'"
  by (simp_all add: kept_defs)

lemma kept_goto [simp]: "kept a True (goto_state a' s) = kept a True a'"
  by (simp add: kept_defs)

lemma post_still: "post r (kept a1) \<Longrightarrow> still a a1 \<Longrightarrow> post r (kept a)"
  unfolding still_def by (elim conjE) (rule post_kept_trans)

section \<open>The contract of the server's data functions\<close>

text \<open>The data functions of the mechanisms work on a conversation that has not been decided: \<open>mid\<close> holds of it
  at every point where a step may run out of memory, and \<open>fin\<close> of what it answers and leaves. What the
  functions do short of authorizing anybody keeps every such pair of predicates.\<close>

named_theorems keeps

locale conversation =
  fixes mid :: "'k auth \<Rightarrow> bool" and fin :: "bool \<Rightarrow> 'k auth \<Rightarrow> bool"
  assumes stop: "mid a \<Longrightarrow> fin False a"
    and rejected: "mid a \<Longrightarrow> post (send_rejected a w) fin"
    and error: "mid a \<Longrightarrow> post (send_error s a w) fin"
    and asked: "mid a \<Longrightarrow> fin True (goto_state (a\<lparr>outgoing := out\<rparr>) server_state_waiting_for_data)"
      "mid a \<Longrightarrow> fin True (goto_state (a\<lparr>outgoing := out, already_asked_for_initial_response := b\<rparr>) server_state_waiting_for_data)"
    and scratch: "mid a \<Longrightarrow> mid (a\<lparr>identity := i\<rparr>)" "mid a \<Longrightarrow> mid (a\<lparr>challenge := c\<rparr>)"
      "mid a \<Longrightarrow> mid (a\<lparr>desired_identity := d\<rparr>)" "mid a \<Longrightarrow> mid (a\<lparr>keyring := k\<rparr>)" "mid a \<Longrightarrow> mid (a\<lparr>cookie_id := n\<rparr>)"
begin

lemma trying_fin [keeps]: "mid a \<Longrightarrow> (\<And>w. post (f w) fin) \<Longrightarrow> post (trying n a w f) fin"
  by (auto simp: trying_def stop split: prod.split)

lemma andthen_fin:
  "(\<And>ok a w. r = (ok, a, w) \<Longrightarrow> mid a) \<Longrightarrow> (\<And>a w. mid a \<Longrightarrow> post (f a w) fin) \<Longrightarrow> post (andthen r f) fin"
  by (cases r) (auto simp: andthen_def stop)

lemma take_identity_mid: "mid a \<Longrightarrow> take_identity xs a w = (ok, a', w') \<Longrightarrow> mid a'"
  by (auto simp: take_identity_def scratch split: if_splits prod.splits)

lemma add_from_user_mid: "mid a \<Longrightarrow> add_from_user e xs a w = (ok, a', w') \<Longrightarrow> mid a'"
  by (auto simp: add_from_user_def scratch split: if_splits prod.splits option.splits)

lemma desire_mid: "mid a \<Longrightarrow> desire_socket_credentials a w = (ok, a', w') \<Longrightarrow> mid a'"
  by (auto simp: desire_socket_credentials_def scratch split: prod.splits)

lemma take_identity_fin [keeps]:
  "mid a \<Longrightarrow> (\<And>a w. mid a \<Longrightarrow> post (f a w) fin) \<Longrightarrow> post (andthen (take_identity xs a w) f) fin"
  by (rule andthen_fin [OF take_identity_mid])

lemma desire_fin [keeps]:
  "mid a \<Longrightarrow> (\<And>a w. mid a \<Longrightarrow> post (f a w) fin) \<Longrightarrow> post (andthen (desire_socket_credentials a w) f) fin"
  by (rule andthen_fin [OF desire_mid])

lemma add_from_user_fin [keeps]:
  "mid a \<Longrightarrow> (\<And>ok a w. mid a \<Longrightarrow> post (f ok a w) fin) \<Longrightarrow>
     post (case add_from_user e xs a w of (ok, a, w) \<Rightarrow> f ok a w) fin"
  using add_from_user_mid by (fastforce split: prod.split)

lemma send_data_fin:
  "mid a \<Longrightarrow> (\<And>out w. post (f (a\<lparr>outgoing := out\<rparr>) w) fin) \<Longrightarrow> post (andthen (send_data xs a w) f) fin"
  by (cases "send_data xs a w") (auto simp: andthen_def stop dest!: send_data_result)

lemma first_challenge_fin [keeps]: "mid a \<Longrightarrow> post (first_challenge e a w) fin"
  by (auto simp: first_challenge_def Let_def split: option.split prod.split
      intro!: trying_fin send_data_fin rejected scratch asked)

lemma sha1_first_fin: "mid a \<Longrightarrow> post (sha1_handle_first_client_response e xs a w) fin"
  by (auto simp: sha1_handle_first_client_response_def Let_def split: option.split
      intro!: trying_fin take_identity_fin add_from_user_fin first_challenge_fin rejected scratch)

lemma sha1_second_fin:
  assumes "mid a" "\<And>w. post (andthen (authorize (desired_identity a) a w) (\<lambda>a w.
      andthen (authorize_one DBUS_CREDENTIAL_UNIX_PROCESS_ID a w) (\<lambda>a w. Some (send_ok a w)))) fin"
  shows "post (sha1_handle_second_client_response e xs a w) fin"
  using assms by (auto simp: sha1_handle_second_client_response_def Let_def simp del: post_simps(1)
      intro!: trying_fin rejected) (simp add: stop)

lemma external_fin:
  assumes "mid a" "\<And>a w. mid a \<Longrightarrow> post (external_decide a w) fin"
  shows "post (handle_server_data_external_mech e xs a w) fin"
  using assms by (auto simp: handle_server_data_external_mech_def Let_def
      intro!: trying_fin take_identity_fin desire_fin add_from_user_fin send_data_fin rejected scratch asked)

lemma process_data_fin [keeps]:
  "mid a \<Longrightarrow> (\<And>w. post (f (hex_decoded args) a w) fin) \<Longrightarrow> post (process_data f args a w) fin"
  by (auto simp: process_data_def intro!: trying_fin error)

end

interpretation kept: conversation "still a0" "kept a0" for a0
proof
  fix a w s out b
  assume a: "still a0 a"
  show "kept a0 False a" using a by (rule still_kept)
  show "post (send_rejected a w) (kept a0)" using send_rejected_kept a by (rule post_still)
  show "post (send_error s a w) (kept a0)" using send_error_kept a by (rule post_still)
  show "kept a0 True (goto_state (a\<lparr>outgoing := out\<rparr>) server_state_waiting_for_data)"
    "kept a0 True (goto_state (a\<lparr>outgoing := out, already_asked_for_initial_response := b\<rparr>) server_state_waiting_for_data)"
    using a by (simp_all add: still_def kept_defs)
qed simp_all

lemmas sends_after [keeps] =
  post_still [OF sends_kept(1)] post_still [OF sends_kept(2)] post_still [OF sends_kept(3)]
  post_still [OF sends_kept(4)] post_still [OF sends_kept(5)] post_still [OF sends_kept(6)]
  post_still [OF send_rejected_kept] post_still [OF send_error_kept]

lemma authorize_kept [keeps]:
  assumes "still a0 a" "\<And>a w. still a0 a \<Longrightarrow> post (f a w) (kept a0)"
  shows "post (andthen (authorize c a w) f) (kept a0)" "post (andthen (authorize_one which a w) f) (kept a0)"
  by (rule kept.andthen_fin; insert assms; auto simp: authorize_def authorize_one_def split: prod.splits)+

lemma post_goto [keeps]: "kept a0 True a \<Longrightarrow> post (Some (True, goto_state a s, w)) (kept a0)"
  by simp

lemma sha1_second_kept [keeps]: "still a0 a \<Longrightarrow> post (sha1_handle_second_client_response e xs a w) (kept a0)"
  by (intro kept.sha1_second_fin keeps)

lemma cookie_kept [keeps]: "still a0 a \<Longrightarrow> post (handle_server_data_cookie_sha1_mech e xs a w) (kept a0)"
  by (simp add: handle_server_data_cookie_sha1_mech_def keeps kept.sha1_first_fin)

lemma external_decide_kept [keeps]: "still a0 a \<Longrightarrow> post (external_decide a w) (kept a0)"
  by (auto simp: external_decide_def simp del: post_simps(1) intro!: keeps)

lemma external_kept [keeps]: "still a0 a \<Longrightarrow> post (handle_server_data_external_mech e xs a w) (kept a0)"
  by (rule kept.external_fin, assumption) (rule external_decide_kept)

lemma anonymous_kept [keeps]: "still a0 a \<Longrightarrow> post (handle_server_data_anonymous_mech e xs a w) (kept a0)"
  by (auto simp: handle_server_data_anonymous_mech_def Let_def simp del: post_simps(1) intro!: keeps)

lemma server_data_kept [keeps]: "still a0 a \<Longrightarrow> post (server_data_func e m xs a w) (kept a0)"
  by (simp add: server_data_func_def keeps split: mechanism.split)

lemma answer_challenge_kept [keeps]: "still a0 a \<Longrightarrow> post (answer_challenge e val c a w) (kept a0)"
  by (auto simp: answer_challenge_def Let_def split: prod.split simp del: post_simps(1) intro!: keeps)
    (simp add: still_kept)+

lemma client_cookie_kept [keeps]: "still a0 a \<Longrightarrow> post (handle_client_data_cookie_sha1_mech e xs a w) (kept a0)"
  by (auto simp: handle_client_data_cookie_sha1_mech_def Let_def split: option.split intro!: keeps)

lemma client_data_kept [keeps]: "still a0 a \<Longrightarrow> post (client_data_func e m xs a w) (kept a0)"
  by (simp add: client_data_func_def keeps still_kept split: mechanism.split)

lemma forget_mech_kept [keeps]: "post r (kept a0) \<Longrightarrow> post (forget_mech r) (kept a0)"
  by (auto simp: forget_mech_def dest: postD)

lemma handle_auth_kept [keeps]: "still a0 a \<Longrightarrow> post (handle_auth e args a w) (kept a0)"
  by (auto simp: handle_auth_def Let_def split: option.split intro!: keeps)

lemma server_states_kept [keeps]:
  assumes "still a0 a"
  shows "post (handle_server_state_waiting_for_auth e c args a w) (kept a0)"
    "post (handle_server_state_waiting_for_data e c args a w) (kept a0)"
    "post (handle_server_state_waiting_for_begin c args a w) (kept a0)"
  using assms
  by (auto simp: handle_server_state_waiting_for_auth_def handle_server_state_waiting_for_data_def
      handle_server_state_waiting_for_begin_def split: auth_command.split intro!: keeps still_kept)

lemma process_ok_kept [keeps]: "still a0 a \<Longrightarrow> post (process_ok args a w) (kept a0)"
  by (auto simp: process_ok_def Let_def simp del: post_simps(1) intro!: keeps still_kept)

lemma record_loop_post: "still a0 a \<Longrightarrow> post (record_loop args i a w) (\<lambda>ok. still a0)"
proof (induction args i a w rule: record_loop.induct)
  case (1 args i a w)
  obtain ok w1 where w1: "attempt w = (ok, w1)" by force
  show ?case
  proof (cases "i < length args \<and> ok")
    case False
    then show ?thesis using 1(4) w1 by (auto simp: record_loop.simps [of args i a w])
  next
    case True
    show ?thesis
    proof (cases "get_word args i w1")
      case None
      then show ?thesis using True w1 by (simp add: record_loop.simps [of args i a w])
    next
      case (Some r)
      obtain ok' m i' w2 where r: "r = (ok', m, i', w2)" by (metis prod_cases4)
      obtain ok'' w3 where w3: "attempt w2 = (ok'', w3)" by force
      have eq: "record_loop args i a w = (if \<not> ok' then Some (False, a, w2)
          else case find_mech m (allowed_mechs a) of
              None \<Rightarrow> record_loop args i' a w2
            | Some mh \<Rightarrow> if mh \<noteq> EXTERNAL
                then if ok'' then record_loop args i' (a\<lparr>mechs_to_try := mechs_to_try a @ [mh]\<rparr>) w3 else Some (False, a, w3)
                else record_loop args i' a w2)"
        using True w1 Some r w3 by (simp add: record_loop.simps [of args i a w] split: option.split)
      have c: "i < length args" "\<not> \<not> ok" using True by simp_all
      note IH = 1(1-3) [OF c(1) refl w1 [symmetric] c(2) Some r [symmetric] refl refl]
      show ?thesis
        unfolding eq using IH(1) [OF _ _ 1(4)] IH(2) [OF _ _ _ refl w3 [symmetric]] IH(3) [OF _ _ _ 1(4)] 1(4)
        by (cases ok'; cases ok''; cases "find_mech m (allowed_mechs a)") simp_all
    qed
  qed
qed

lemma record_loop_still: "record_loop args i a w = Some (ok, a', w') \<Longrightarrow> still a0 a \<Longrightarrow> still a0 a'"
  using record_loop_post by (rule postD)

lemma record_mechanisms_still: "still a0 a \<Longrightarrow> record_mechanisms args a w = Some (ok, a', w') \<Longrightarrow> still a0 a'"
  by (auto simp: record_mechanisms_def bind_eq_Some_conv split: if_splits dest: record_loop_still)

lemma andthen_send_auth [keeps]:
  assumes "still a0 a" "\<And>a w. kept a0 True a \<Longrightarrow> post (f a w) (kept a0)"
  shows "post (andthen (send_auth e m a w) f) (kept a0)"
proof -
  obtain ok a' w' where r: "send_auth e m a w = (ok, a', w')" by (metis prod_cases3)
  then have "kept a ok a'"
    by (auto simp: send_auth_def kept_defs Let_def split: prod.splits if_splits dest!: emit_result)
  then have "kept a0 ok a'" using assms(1) kept_trans by (auto simp: still_def)
  then show ?thesis using assms(2) r by (cases ok) (simp_all add: andthen_def)
qed

lemma process_rejected_kept [keeps]: "still a0 a \<Longrightarrow> post (process_rejected e args a w) (kept a0)"
  by (auto simp: process_rejected_def split: list.split if_splits intro!: keeps still_kept
      dest: record_mechanisms_still [rotated])

lemma client_states_kept [keeps]:
  assumes "still a0 a"
  shows "post (handle_client_state_waiting_for_data e c args a w) (kept a0)"
    "post (handle_client_state_waiting_for_ok e c args a w) (kept a0)"
    "post (handle_client_state_waiting_for_reject e c args a w) (kept a0)"
    "post (handle_client_state_waiting_for_agree_unix_fd c args a w) (kept a0)"
  using assms
  by (auto simp: handle_client_state_waiting_for_data_def handle_client_state_waiting_for_ok_def
      handle_client_state_waiting_for_reject_def handle_client_state_waiting_for_agree_unix_fd_def
      simp del: post_simps(1) split: auth_command.split option.split intro!: keeps still_kept)

lemma handle_kept [keeps]: "still a0 a \<Longrightarrow> post (handle e c args a w) (kept a0)"
  by (auto simp: handle_def split: auth_state.split intro: keeps)

lemma process_line_kept: "post (process_line e line a w) (kept a)"
  by (auto simp: process_line_def Let_def intro!: keeps)

lemma find_crlf_bound: "find_crlf xs = Some n \<Longrightarrow> n + 2 \<le> length xs"
  by (induction xs arbitrary: n rule: find_crlf.induct) (auto split: if_splits)

lemma process_command_cases:
  assumes "process_command e a w = Some (ok, a', w')"
  obtains (none) "find_crlf (incoming a) = None" "\<not> ok" "a' = a"
  | (short) eol where "find_crlf (incoming a) = Some eol" "\<not> ok" "a' = a\<lparr>needed_memory := True\<rparr>"
  | (line) eol a1 w1 where "find_crlf (incoming a) = Some eol" "process_line e (take eol (incoming a)) a w1 = Some (ok, a1, w')"
      "a' = (if ok then a1\<lparr>incoming := drop (eol + 2) (incoming a1), needed_memory := False\<rparr> else a1\<lparr>needed_memory := True\<rparr>)"
proof (cases "find_crlf (incoming a)")
  case None
  then show thesis using none assms by (simp add: process_command_def)
next
  case (Some eol)
  obtain ok1 w1 where att: "attempts 3 w = (ok1, w1)" by force
  show thesis
  proof (cases ok1)
    case False
    then show thesis using short [OF Some] assms Some att by (simp add: process_command_def)
  next
    case True
    then obtain ok2 a2 w2 where l: "process_line e (take eol (incoming a)) a w1 = Some (ok2, a2, w2)"
      using assms Some att by (auto simp: process_command_def bind_eq_Some_conv)
    then show thesis using line [OF Some, of w1 a2] assms Some att True by (cases ok2) (simp_all add: process_command_def)
  qed
qed

lemma process_command_consumes:
  assumes "process_command e a w = Some (True, a', w')"
  shows "length (incoming a') < length (incoming a)"
  using assms
proof (cases rule: process_command_cases)
  case (line eol a1 w1)
  then have "incoming a1 = incoming a" using postD [OF process_line_kept] by (fastforce simp: kept_defs)
  then show ?thesis using line find_crlf_bound [OF line(1)] by simp
qed simp_all

lemma process_command_frame:
  assumes "process_command e a w = Some (ok, a', w')"
  shows "side a' = side a \<and> credentials a' = credentials a \<and> allowed_mechs a' = allowed_mechs a \<and>
    max_failures a' = max_failures a \<and> guid a' = guid a \<and> unix_fd_possible a' = unix_fd_possible a"
  using assms
proof (cases rule: process_command_cases)
  case (line eol a1 w1)
  then have "frame a a1" using postD [OF process_line_kept] by (fastforce simp: kept_def)
  then show ?thesis using line by (simp add: frame_def)
qed simp_all

section \<open>The loop over the commands\<close>

function work_loop :: "'k auth_env \<Rightarrow> 'k auth \<Rightarrow> world \<Rightarrow> ('k auth \<times> world) option" where
  "work_loop e a w =
     (if in_end_state a then Some (a, w)
      else if length (incoming a) > MAX_BUFFER \<or> length (outgoing a) > MAX_BUFFER
      then Some (goto_state a common_state_need_disconnect, w)
      else case process_command e a w of
             None \<Rightarrow> None
           | Some (again, a', w') \<Rightarrow> if again then work_loop e a' w' else Some (a', w'))"
  by pat_completeness auto

termination
  by (relation "measure (\<lambda>(e, a, w). length (incoming a))") (auto dest: process_command_consumes)

declare work_loop.simps [simp del]

datatype work_state =
  DBUS_AUTH_STATE_WAITING_FOR_INPUT | DBUS_AUTH_STATE_WAITING_FOR_MEMORY | DBUS_AUTH_STATE_HAVE_BYTES_TO_SEND
| DBUS_AUTH_STATE_NEED_DISCONNECT | DBUS_AUTH_STATE_AUTHENTICATED

definition dbus_auth_do_work :: "'k auth_env \<Rightarrow> 'k auth \<Rightarrow> world \<Rightarrow> (work_state \<times> 'k auth \<times> world) option" where
  "dbus_auth_do_work e a w = do {
     (a, w) \<leftarrow> work_loop e (a\<lparr>needed_memory := False\<rparr>) w;
     Some (if needed_memory a then DBUS_AUTH_STATE_WAITING_FOR_MEMORY
           else if outgoing a \<noteq> [] then DBUS_AUTH_STATE_HAVE_BYTES_TO_SEND
           else if state a = common_state_need_disconnect then DBUS_AUTH_STATE_NEED_DISCONNECT
           else if state a = common_state_authenticated then DBUS_AUTH_STATE_AUTHENTICATED
           else DBUS_AUTH_STATE_WAITING_FOR_INPUT, a, w) }"

text \<open>C29: A command that could not be completed for want of memory has sent nothing, has not moved the protocol and
  stays in the buffer to be tried again: only \<open>needed_memory\<close> and scratch fields change.\<close>

lemma failed_command_is_kept:
  assumes "process_command e a w = Some (False, a', w')"
  shows "incoming a' = incoming a \<and> outgoing a' = outgoing a \<and> state a' = state a \<and> failures a' = failures a \<and>
    credentials a' = credentials a \<and> (if find_crlf (incoming a) = None then a' = a else needed_memory a')"
  using assms
proof (cases rule: process_command_cases)
  case (line eol a1 w1)
  then have "frame a a1 \<and> unsent a a1" using postD [OF process_line_kept] by (fastforce simp: kept_def)
  then show ?thesis using line by (simp add: frame_def unsent_def)
qed simp_all

end
