(* ===== verification/Auth_Server.thy ===== *)
theory Auth_Server
  imports Auth_Steps
begin

text \<open>
  The server's side of authentication (\<open>dbus/dbus-auth.c\<close>): the invariant of a server, kept by every step under
  every pattern of allocation failures, the runs of a server, and what an authenticated client has shown.
\<close>

section \<open>What a server vouches for\<close>

definition permits :: "'k auth \<Rightarrow> mechanism \<Rightarrow> bool" where
  "permits a m \<longleftrightarrow> (case allowed_mechs a of None \<Rightarrow> True | Some ms \<Rightarrow> mechanism_name m \<in> set ms)"

text \<open>The user and process of \<open>c\<close> are unknown or those of \<open>s\<close>.\<close>

definition within :: "creds \<Rightarrow> creds \<Rightarrow> bool" where
  "within c s \<longleftrightarrow> (unix_uid c = DBUS_UID_UNSET \<or> unix_uid c = unix_uid s)
     \<and> (unix_pid c = DBUS_PID_UNSET \<or> unix_pid c = unix_pid s)
     \<and> (windows_sid c = None \<or> windows_sid c = windows_sid s)"

definition core :: "'k auth \<Rightarrow> bool" where
  "core a \<longleftrightarrow> side a = auth_side_server \<and> failures a < max_failures a
     \<and> (permits a DBUS_COOKIE_SHA1 \<or> within (authorized_identity a) (credentials a))"

text \<open>A conversation with mechanism \<open>m\<close> that is not decided.\<close>

definition undecided :: "mechanism \<Rightarrow> 'k auth \<Rightarrow> bool" where
  "undecided m a \<longleftrightarrow> core a \<and> mech a = Some m \<and> permits a m
     \<and> state a \<in> {server_state_waiting_for_auth, server_state_waiting_for_data}"

definition passed :: "'k auth \<Rightarrow> bool" where
  "passed a \<longleftrightarrow> state a \<in> {server_state_waiting_for_begin, common_state_authenticated}"

text \<open>The invariant of a server.\<close>

definition server_ok :: "'k auth \<Rightarrow> bool" where
  "server_ok a \<longleftrightarrow> side a = auth_side_server \<and> failures a \<le> max_failures a
     \<and> (permits a DBUS_COOKIE_SHA1 \<or> within (authorized_identity a) (credentials a))
     \<and> (state a = common_state_need_disconnect \<or> failures a < max_failures a)
     \<and> state a \<in> {server_state_waiting_for_auth, server_state_waiting_for_data, server_state_waiting_for_begin,
          common_state_authenticated, common_state_need_disconnect}
     \<and> (\<forall>m. mech a = Some m \<longrightarrow> permits a m)
     \<and> (passed a \<or> state a = server_state_waiting_for_data \<longrightarrow> mech a \<noteq> None)
     \<and> (passed a \<longrightarrow> permits a DBUS_COOKIE_SHA1 \<or> permits a ANONYMOUS \<or>
          \<not> dbus_credentials_are_anonymous (authorized_identity a))"

definition decided :: "mechanism \<Rightarrow> bool \<Rightarrow> 'k auth \<Rightarrow> bool" where
  "decided m ok a \<longleftrightarrow> (if ok then server_ok a else undecided m a)"

lemma permits_updates [simp]:
  "permits (a\<lparr>outgoing := x\<rparr>) = permits a" "permits (a\<lparr>state := s\<rparr>) = permits a" "permits (a\<lparr>mech := m\<rparr>) = permits a"
  "permits (a\<lparr>identity := x\<rparr>) = permits a" "permits (a\<lparr>challenge := x\<rparr>) = permits a"
  "permits (a\<lparr>desired_identity := d\<rparr>) = permits a" "permits (a\<lparr>authorized_identity := d\<rparr>) = permits a"
  "permits (a\<lparr>keyring := k\<rparr>) = permits a" "permits (a\<lparr>cookie_id := n\<rparr>) = permits a" "permits (a\<lparr>failures := n'\<rparr>) = permits a"
  "permits (a\<lparr>already_asked_for_initial_response := b\<rparr>) = permits a" "permits (a\<lparr>unix_fd_negotiated := b\<rparr>) = permits a"
  "permits (a\<lparr>incoming := x\<rparr>) = permits a" "permits (a\<lparr>needed_memory := b\<rparr>) = permits a"
  "permits (shutdown_mech a) = permits a" "permits (goto_state a s) = permits a"
  by (auto simp: permits_def goto_state_def)

lemma within_clear [simp]: "within (dbus_credentials_clear c) s"
  by (simp add: within_def dbus_credentials_clear_def)

lemma send_rejected_server: "core a \<Longrightarrow> send_rejected a w = Some (True, a', w') \<Longrightarrow> server_ok a'"
  by (auto simp: send_rejected_def core_def server_ok_def passed_def goto_state_def Let_def
      split: prod.splits if_splits dest!: emit_result)

lemma send_rejected_oom: "send_rejected a w = Some (False, a', w') \<Longrightarrow> a' = a"
  by (cases "side a") (auto simp: send_rejected_def Let_def split: prod.splits if_splits dest!: emit_result)

lemma send_error_result:
  "send_error s a w = Some (ok, a', w') \<Longrightarrow> (\<exists>out. ok \<and> a' = a\<lparr>outgoing := out\<rparr>) \<or> \<not> ok \<and> a' = a"
  by (auto simp: send_error_def dest!: emit_result)

lemma undecided_ok: "undecided m a \<Longrightarrow> server_ok a"
  by (auto simp: undecided_def core_def server_ok_def passed_def)

interpretation served: conversation "undecided m" "decided m" for m
proof
  fix a w s out b
  assume a: "undecided m a"
  show "decided m False a" using a by (simp add: decided_def)
  show "post (send_rejected a w) (decided m)"
    using a send_rejected_server [of a w] send_rejected_oom [of a w] by (auto simp: post_def decided_def undecided_def)
  show "post (send_error s a w) (decided m)"
    using a by (auto simp: post_def decided_def undecided_def core_def server_ok_def passed_def dest!: send_error_result)
  show "decided m True (goto_state (a\<lparr>outgoing := out\<rparr>) server_state_waiting_for_data)"
    "decided m True (goto_state (a\<lparr>outgoing := out, already_asked_for_initial_response := b\<rparr>) server_state_waiting_for_data)"
    using a by (auto simp: decided_def undecided_def core_def server_ok_def passed_def goto_state_def)
qed (simp_all add: undecided_def core_def)

subsection \<open>Authorizing\<close>

lemma drawn_within: "drawn c' c d \<Longrightarrow> within c s \<Longrightarrow> within d s \<Longrightarrow> within c' s"
  unfolding drawn_def within_def by metis

lemma within_self [simp]: "within s s"
  by (simp add: within_def)

lemma superset_within: "dbus_credentials_are_superset s c = Some True \<Longrightarrow> within c s"
  by (auto simp: dbus_credentials_are_superset_def within_def split: if_splits)

lemma add_credential_same_user:
  assumes "dbus_credentials_add_credential c which d r = (ok, c', r')"
    and "which \<in> {DBUS_CREDENTIAL_UNIX_PROCESS_ID, DBUS_CREDENTIAL_ADT_AUDIT_DATA_ID}"
  shows "dbus_credentials_are_anonymous c' = dbus_credentials_are_anonymous c"
  using assms add_audit_result(1) [of c "the (adt_audit_data d)" r ok c' r']
  by (auto simp: add_credential_cases dbus_credentials_are_anonymous_def split: if_splits)

lemma authorize_one_result:
  assumes "authorize_one which a w = (ok, a', w')"
    and "which \<in> {DBUS_CREDENTIAL_UNIX_PROCESS_ID, DBUS_CREDENTIAL_ADT_AUDIT_DATA_ID}"
  shows "\<exists>c. a' = a\<lparr>authorized_identity := c\<rparr> \<and> drawn c (authorized_identity a) (credentials a) \<and>
    dbus_credentials_are_anonymous c = dbus_credentials_are_anonymous (authorized_identity a)"
proof -
  obtain ok1 c r where c: "dbus_credentials_add_credential (authorized_identity a) which (credentials a) (mem w) = (ok1, c, r)"
    by (metis prod_cases3)
  then have "a' = a\<lparr>authorized_identity := c\<rparr>" using assms(1) by (simp add: authorize_one_def)
  then show ?thesis using add_credential_drawn [OF c] add_credential_same_user [OF c assms(2)] by blast
qed

lemma authorize_result:
  assumes "authorize d a w = (ok, a', w')"
  shows "\<exists>c. a' = a\<lparr>authorized_identity := c\<rparr> \<and> drawn c (authorized_identity a) d \<and>
    (ok \<longrightarrow> c = merged (authorized_identity a) d)"
proof -
  obtain ok1 c r where c: "dbus_credentials_add_credentials (authorized_identity a) d (mem w) = (ok1, c, r)"
    by (metis prod_cases3)
  then have "a' = a\<lparr>authorized_identity := c\<rparr>" "ok1 = ok" using assms by (simp_all add: authorize_def)
  moreover from this have "ok \<longrightarrow> c = merged (authorized_identity a) d" using add_credentials_ok c by auto
  ultimately show ?thesis using add_credentials_drawn [OF c] by blast
qed

lemma merged_user: "\<not> dbus_credentials_are_anonymous d \<Longrightarrow> \<not> dbus_credentials_are_anonymous (merged c d)"
  by (auto simp: dbus_credentials_are_anonymous_def merged_def)

lemma undecided_authorized:
  "undecided m a \<Longrightarrow> permits a DBUS_COOKIE_SHA1 \<or> within c (credentials a) \<Longrightarrow> undecided m (a\<lparr>authorized_identity := c\<rparr>)"
  by (auto simp: undecided_def core_def)

lemma send_ok_decided:
  "undecided m a \<Longrightarrow> permits a DBUS_COOKIE_SHA1 \<or> permits a ANONYMOUS \<or>
      \<not> dbus_credentials_are_anonymous (authorized_identity a) \<Longrightarrow> post (Some (send_ok a w)) (decided m)"
  by (auto simp: send_ok_def decided_def undecided_def core_def server_ok_def passed_def goto_state_def
      split: prod.splits if_splits dest!: emit_result)

text \<open>A further credential of the socket.\<close>

lemma authorize_one_decided:
  assumes "undecided m a" "which \<in> {DBUS_CREDENTIAL_UNIX_PROCESS_ID, DBUS_CREDENTIAL_ADT_AUDIT_DATA_ID}"
    and "\<And>c w. undecided m (a\<lparr>authorized_identity := c\<rparr>) \<Longrightarrow>
      dbus_credentials_are_anonymous c = dbus_credentials_are_anonymous (authorized_identity a) \<Longrightarrow>
      post (f (a\<lparr>authorized_identity := c\<rparr>) w) (decided m)"
  shows "post (andthen (authorize_one which a w) f) (decided m)"
proof -
  obtain ok a' w' where r: "authorize_one which a w = (ok, a', w')" by (metis prod_cases3)
  obtain c where c: "a' = a\<lparr>authorized_identity := c\<rparr>" "drawn c (authorized_identity a) (credentials a)"
    "dbus_credentials_are_anonymous c = dbus_credentials_are_anonymous (authorized_identity a)"
    using authorize_one_result [OF r assms(2)] by blast
  have "permits a DBUS_COOKIE_SHA1 \<or> within c (credentials a)"
    using assms(1) drawn_within [OF c(2)] by (auto simp: undecided_def core_def)
  then have "undecided m a'" using undecided_authorized [OF assms(1)] c(1) by blast
  then show ?thesis using assms(3) [of c w'] c r by (cases ok) (simp_all add: andthen_def decided_def)
qed

lemma accept_decided:
  assumes "undecided m a" "permits a DBUS_COOKIE_SHA1 \<or> within d (credentials a)"
    and "permits a DBUS_COOKIE_SHA1 \<or> \<not> dbus_credentials_are_anonymous d"
    and "\<And>c w. undecided m (a\<lparr>authorized_identity := c\<rparr>) \<Longrightarrow>
      permits a DBUS_COOKIE_SHA1 \<or> \<not> dbus_credentials_are_anonymous c \<Longrightarrow>
      post (f (a\<lparr>authorized_identity := c\<rparr>) w) (decided m)"
  shows "post (andthen (authorize d a w) f) (decided m)"
proof -
  obtain ok a' w' where r: "authorize d a w = (ok, a', w')" by (metis prod_cases3)
  obtain c where c: "a' = a\<lparr>authorized_identity := c\<rparr>" "drawn c (authorized_identity a) d"
    "ok \<longrightarrow> c = merged (authorized_identity a) d"
    using authorize_result [OF r] by blast
  have "permits a DBUS_COOKIE_SHA1 \<or> within c (credentials a)"
    using assms(1,2) drawn_within [OF c(2)] by (auto simp: undecided_def core_def)
  then have "undecided m a'" using undecided_authorized [OF assms(1)] c(1) by blast
  then show ?thesis using assms(3) assms(4) [of c w'] c r merged_user
    by (cases ok) (auto simp: andthen_def decided_def)
qed

lemma sha1_second_decided:
  assumes "undecided DBUS_COOKIE_SHA1 a"
  shows "post (sha1_handle_second_client_response e xs a w) (decided DBUS_COOKIE_SHA1)"
proof -
  have p: "permits a DBUS_COOKIE_SHA1" using assms by (simp add: undecided_def)
  show ?thesis
    by (intro served.sha1_second_fin [OF assms] accept_decided authorize_one_decided send_ok_decided)
      (use assms p in auto)
qed

lemma cookie_decided:
  "undecided DBUS_COOKIE_SHA1 a \<Longrightarrow> post (handle_server_data_cookie_sha1_mech e xs a w) (decided DBUS_COOKIE_SHA1)"
  by (simp add: handle_server_data_cookie_sha1_mech_def served.sha1_first_fin sha1_second_decided)

lemma external_decide_decided:
  assumes "undecided m a"
  shows "post (external_decide a w) (decided m)"
proof (cases "dbus_credentials_are_anonymous (desired_identity a)")
  case True
  then show ?thesis using served.rejected [OF assms] by (simp add: external_decide_def)
next
  case False
  have "post (andthen (authorize (desired_identity a) a w) (\<lambda>a w.
          andthen (authorize_one DBUS_CREDENTIAL_UNIX_PROCESS_ID a w) (\<lambda>a w.
            andthen (authorize_one DBUS_CREDENTIAL_ADT_AUDIT_DATA_ID a w) (\<lambda>a w. Some (send_ok a w))))) (decided m)"
    if "within (desired_identity a) (credentials a)"
    by (intro accept_decided authorize_one_decided send_ok_decided) (use assms that False in auto)
  then show ?thesis using False served.rejected [OF assms] superset_within
    by (auto simp: external_decide_def)
qed

lemma external_decided:
  "undecided m a \<Longrightarrow> post (handle_server_data_external_mech e xs a w) (decided m)"
  by (rule served.external_fin, assumption) (rule external_decide_decided)

lemma anonymous_decided:
  assumes "undecided ANONYMOUS a"
  shows "post (handle_server_data_anonymous_mech e xs a w) (decided ANONYMOUS)"
proof -
  let ?a = "a\<lparr>desired_identity := dbus_credentials_clear (desired_identity a)\<rparr>"
  have p: "permits a ANONYMOUS" using assms by (simp add: undecided_def)
  have "post (andthen (authorize_one DBUS_CREDENTIAL_UNIX_PROCESS_ID ?a w) (\<lambda>a w. Some (send_ok a w))) (decided ANONYMOUS)"
    by (intro authorize_one_decided send_ok_decided) (use assms p served.scratch(3) in auto)
  then show ?thesis using served.rejected [OF assms]
    by (auto simp: handle_server_data_anonymous_mech_def Let_def)
qed

lemma server_data_decided: "undecided m a \<Longrightarrow> post (server_data_func e m xs a w) (decided m)"
  by (auto simp: server_data_func_def cookie_decided external_decided anonymous_decided split: mechanism.split)

subsection \<open>The states of the server\<close>

lemma find_mech_permits: "find_mech name (allowed_mechs a) = Some m \<Longrightarrow> permits a m"
  by (auto simp: find_mech_def permits_def all_mechanisms_def split: if_splits option.splits)

lemma undecided_forgotten:
  "undecided m a \<Longrightarrow> state a = server_state_waiting_for_auth \<Longrightarrow> server_ok (a\<lparr>mech := None\<rparr>)"
  by (auto simp: undecided_def core_def server_ok_def passed_def)

lemma server_core: "server_ok a \<Longrightarrow> state a \<noteq> common_state_need_disconnect \<Longrightarrow> core a"
  by (auto simp: server_ok_def core_def)

definition ok_forgotten :: "bool \<Rightarrow> 'k auth \<Rightarrow> bool" where
  "ok_forgotten ok a \<longleftrightarrow> (if ok then server_ok a else server_ok (a\<lparr>mech := None\<rparr>))"

lemma forget_mech_server:
  assumes "post r ok_forgotten"
  shows "post (forget_mech r) (\<lambda>ok. server_ok)"
  using assms by (auto simp: forget_mech_def ok_forgotten_def post_def bind_eq_Some_conv split: if_splits)

lemma send_rejected_server_post: "core a \<Longrightarrow> server_ok a \<Longrightarrow> post (send_rejected a w) (\<lambda>ok. server_ok)"
  using send_rejected_server send_rejected_oom by (metis (full_types) post_def)

lemma server_ok_updates [simp]:
  "server_ok (a\<lparr>outgoing := out\<rparr>) = server_ok a" "server_ok (a\<lparr>incoming := inc\<rparr>) = server_ok a"
  "server_ok (a\<lparr>needed_memory := b\<rparr>) = server_ok a" "server_ok (a\<lparr>unix_fd_negotiated := b\<rparr>) = server_ok a"
  "server_ok (a\<lparr>unix_fd_possible := b\<rparr>) = server_ok a" "server_ok (a\<lparr>buffer_outstanding := b\<rparr>) = server_ok a"
  by (simp_all add: server_ok_def passed_def permits_def)

lemma send_error_server: "server_ok a \<Longrightarrow> post (send_error s a w) (\<lambda>ok. server_ok)"
  by (auto simp: post_def dest!: send_error_result)

lemma trying_post: "P False a \<Longrightarrow> (\<And>w. post (f w) P) \<Longrightarrow> post (trying n a w f) P"
  by (auto simp: trying_def split: prod.split)

lemma try_mech_server:
  assumes a: "server_ok a" "state a = server_state_waiting_for_auth"
    and a1_def: "a1 = a\<lparr>mech := find_mech name (allowed_mechs a)\<rparr>"
  shows "post (case mech a1 of Some m \<Rightarrow> process_data (server_data_func e m) xs a1 w | None \<Rightarrow> send_rejected a1 w) ok_forgotten"
proof (cases "mech a1")
  case None
  have "core a1" using server_core [OF a(1)] a(2) by (simp add: a1_def core_def)
  moreover have "server_ok a1" using a None by (auto simp: a1_def server_ok_def passed_def)
  moreover from calculation have "post (send_rejected a1 w) (\<lambda>ok a. if ok then server_ok a else a = a1)"
    using send_rejected_server send_rejected_oom by (fastforce simp: post_def)
  moreover have "server_ok (a1\<lparr>mech := None\<rparr>)" using \<open>server_ok a1\<close> None by (cases a1) simp
  ultimately show ?thesis using None
    by (auto elim!: post_mono simp: ok_forgotten_def)
next
  case (Some m)
  have "permits a m" using Some by (simp add: a1_def find_mech_permits)
  then have u: "undecided m a1" using server_core [OF a(1)] a(2) Some by (auto simp: undecided_def a1_def core_def)
  have "post (process_data (server_data_func e m) xs a1 w) (decided m)"
    using u by (intro served.process_data_fin server_data_decided)
  moreover have "post (process_data (server_data_func e m) xs a1 w) (kept a1)"
    by (intro keeps) simp_all
  ultimately show ?thesis
    unfolding Some option.case
  proof (simp only: post_def, intro allI impI)
    fix ok a' w'
    assume d: "\<forall>ok a w'. process_data (server_data_func e m) xs a1 w = Some (ok, a, w') \<longrightarrow> decided m ok a"
      and k: "\<forall>ok a w'. process_data (server_data_func e m) xs a1 w = Some (ok, a, w') \<longrightarrow> kept a1 ok a"
      and r: "process_data (server_data_func e m) xs a1 w = Some (ok, a', w')"
    have "decided m ok a'" "kept a1 ok a'" using d k r by blast+
    moreover have "state a1 = server_state_waiting_for_auth" using a(2) by (simp add: a1_def)
    ultimately show "ok_forgotten ok a'"
      using undecided_forgotten by (cases ok) (auto simp: ok_forgotten_def decided_def kept_defs)
  qed
qed

lemma handle_auth_server:
  assumes a: "server_ok a" "state a = server_state_waiting_for_auth"
  shows "post (handle_auth e args a w) (\<lambda>ok. server_ok)"
proof -
  have c: "core a" using a by (simp add: server_core)
  have n: "server_ok (a\<lparr>mech := None\<rparr>)" using a by (auto simp: server_ok_def passed_def)
  show ?thesis
    using try_mech_server [OF a refl]
    by (auto simp: handle_auth_def Let_def a n ok_forgotten_def [of False] intro!: trying_post forget_mech_server
        send_rejected_server_post c)
qed

lemma handle_server:
  assumes a: "server_ok a" and h: "handle e c args a w = Some (ok, a', w')"
  shows "server_ok a'"
proof -
  have "state a \<noteq> common_state_need_disconnect" using h by (auto simp: handle_def)
  then have core: "core a" using a by (simp add: server_core)
  note send_rejected_server_post [OF core a] send_error_server [OF a]
  have wfa: "post (handle_server_state_waiting_for_auth e c args a w) (\<lambda>ok. server_ok)"
    if "state a = server_state_waiting_for_auth"
    using handle_auth_server [OF a that] send_rejected_server_post [OF core a] send_error_server [OF a] a
    by (auto simp: handle_server_state_waiting_for_auth_def server_ok_def passed_def goto_state_def split: auth_command.split)
  have wfd: "post (handle_server_state_waiting_for_data e c args a w) (\<lambda>ok. server_ok)"
    if s: "state a = server_state_waiting_for_data"
  proof -
    have "post (process_data (server_data_func e m) args a w) (\<lambda>ok. server_ok)" if "mech a = Some m" for m
    proof -
      have u: "undecided m a" using core a s that by (auto simp: undecided_def server_ok_def)
      have "post (process_data (server_data_func e m) args a w) (decided m)"
        using u by (intro served.process_data_fin server_data_decided)
      then show ?thesis by (rule post_mono) (auto simp: decided_def undecided_ok split: if_splits)
    qed
    then show ?thesis
      using send_rejected_server_post [OF core a] send_error_server [OF a] a
      by (auto simp: handle_server_state_waiting_for_data_def server_ok_def passed_def goto_state_def split: auth_command.split)
  qed
  have wfb: "post (handle_server_state_waiting_for_begin c args a w) (\<lambda>ok. server_ok)"
    if s: "state a = server_state_waiting_for_begin"
  proof -
    have "post (send_agree_unix_fd a w) (\<lambda>ok. server_ok)"
      using a s by (auto simp: send_agree_unix_fd_def server_ok_def passed_def goto_state_def split: prod.split dest!: emit_result)
    then show ?thesis
      using send_rejected_server_post [OF core a] send_error_server [OF a] a s
      by (auto simp: handle_server_state_waiting_for_begin_def server_ok_def passed_def goto_state_def split: auth_command.split)
  qed
  show ?thesis using h a wfa wfd wfb
    by (auto simp: handle_def server_ok_def split: auth_state.splits dest!: postD)
qed

lemma process_line_server:
  assumes "server_ok a" "process_line e line a w = Some (ok, a', w')"
  shows "server_ok a'"
proof -
  have "post (process_line e line a w) (\<lambda>ok. server_ok)"
    using assms(1) send_error_server handle_server
    by (auto simp: process_line_def Let_def post_def [of "handle e c args a w" for c args a w] intro!: trying_post)
  then show ?thesis using assms(2) by (rule postD)
qed

lemma process_command_server:
  assumes a: "server_ok a" and p: "process_command e a w = Some (ok, a', w')"
  shows "server_ok a'"
  using p
proof (cases rule: process_command_cases)
  case (line eol a1 w1)
  then show ?thesis using process_line_server [OF a line(2)] by simp
qed (use a in simp_all)

lemma disconnect_server: "server_ok a \<Longrightarrow> server_ok (goto_state a common_state_need_disconnect)"
  by (auto simp: server_ok_def passed_def goto_state_def)

lemma work_loop_server: "server_ok a \<Longrightarrow> work_loop e a w = Some (a', w') \<Longrightarrow> server_ok a'"
proof (induction e a w rule: work_loop.induct)
  case (1 e a w)
  show ?case
  proof (cases "in_end_state a \<or> length (incoming a) > MAX_BUFFER \<or> length (outgoing a) > MAX_BUFFER")
    case True
    then show ?thesis using 1(2, 3) disconnect_server by (auto simp: work_loop.simps [of e a w] split: if_splits)
  next
    case False
    then obtain again a1 w1 where p: "process_command e a w = Some (again, a1, w1)"
      using 1(3) by (auto simp: work_loop.simps [of e a w] split: option.splits)
    then show ?thesis using False 1(1) [OF _ _ p refl refl] 1(3) process_command_server [OF 1(2) p]
      by (auto simp: work_loop.simps [of e a w] split: if_splits)
  qed
qed

lemma do_work_server:
  "server_ok a \<Longrightarrow> dbus_auth_do_work e a w = Some (s, a', w') \<Longrightarrow> server_ok a'"
  using work_loop_server [of "a\<lparr>needed_memory := False\<rparr>"] by (auto simp: dbus_auth_do_work_def bind_eq_Some_conv)

section \<open>The life of a server\<close>

text \<open>What can happen to the server's side of a connection: it is created and told the mechanisms, what the
  socket says of the peer and whether descriptors can be passed; bytes arrive, work is done on them, replies
  are sent, and what is left over is dropped at the end.\<close>

inductive server_run :: "'k auth_env \<Rightarrow> 'k auth \<Rightarrow> bool" for e where
  created: "dbus_auth_server_new g w = (Some a, w') \<Longrightarrow> dbus_auth_set_mechanisms ms a w1 = (True, a1, w1') \<Longrightarrow>
    dbus_auth_set_credentials c a1 w2 = (ok, a2, w2') \<Longrightarrow> server_run e (dbus_auth_set_unix_fd_possible b a2)"
| received: "server_run e a \<Longrightarrow> dbus_auth_get_buffer a = Some a1 \<Longrightarrow> dbus_auth_return_buffer bytes a1 = Some a2 \<Longrightarrow>
    server_run e a2"
| worked: "server_run e a \<Longrightarrow> dbus_auth_do_work e a w = Some (s, a', w') \<Longrightarrow> server_run e a'"
| sent: "server_run e a \<Longrightarrow> dbus_auth_bytes_sent n a = Some a' \<Longrightarrow> server_run e a'"
| dropped: "server_run e a \<Longrightarrow> server_run e (dbus_auth_delete_unused_bytes a)"

lemma created_ok:
  assumes "dbus_auth_server_new g w = (Some a, w')" "dbus_auth_set_mechanisms ms a w1 = (True, a1, w1')"
    "dbus_auth_set_credentials c a1 w2 = (ok, a2, w2')"
  shows "server_ok a2 \<and> max_failures a2 = 6"
proof -
  obtain a0 w0 where a0: "dbus_auth_new w0 = (Some a0, w')"
    "a = a0\<lparr>side := auth_side_server, state := server_state_waiting_for_auth, guid := g, failures := 0, max_failures := 6\<rparr>"
    using assms(1) by (auto simp: dbus_auth_server_new_def split: prod.splits if_splits option.splits)
  then have "mech a0 = None" "authorized_identity a0 = empty_credentials"
    by (auto simp: dbus_auth_new_def split: prod.splits if_splits)
  moreover have "\<exists>al. a1 = a\<lparr>allowed_mechs := al\<rparr>"
    using assms(2) by (auto simp: dbus_auth_set_mechanisms_def split: option.splits prod.splits)
  moreover have "\<exists>cr. a2 = a1\<lparr>credentials := cr\<rparr>"
    using assms(3) by (auto simp: dbus_auth_set_credentials_def split: prod.splits)
  ultimately show ?thesis using a0(2)
    by (auto simp: server_ok_def passed_def within_def empty_credentials_def)
qed

lemma work_loop_frame:
  "work_loop e a w = Some (a', w') \<Longrightarrow> max_failures a' = max_failures a \<and> allowed_mechs a' = allowed_mechs a"
proof (induction e a w rule: work_loop.induct)
  case (1 e a w)
  show ?case
  proof (cases "in_end_state a \<or> length (incoming a) > MAX_BUFFER \<or> length (outgoing a) > MAX_BUFFER")
    case True
    then show ?thesis using 1(2) by (auto simp: work_loop.simps [of e a w] goto_state_def split: if_splits)
  next
    case False
    then obtain again a1 w1 where p: "process_command e a w = Some (again, a1, w1)"
      using 1(2) by (auto simp: work_loop.simps [of e a w] split: option.splits)
    then show ?thesis using False 1(1) [OF _ _ p refl refl] 1(2) process_command_frame [OF p]
      by (auto simp: work_loop.simps [of e a w] split: if_splits)
  qed
qed

lemma server_run_ok: "server_run e a \<Longrightarrow> server_ok a \<and> max_failures a = 6"
proof (induction rule: server_run.induct)
  case (created g w a w' ms w1 a1 w1' c w2 ok a2 w2' b)
  then show ?case using created_ok [OF created] by (simp add: dbus_auth_set_unix_fd_possible_def)
next
  case (received a a1 bytes a2)
  then show ?case
    by (auto simp: dbus_auth_get_buffer_def dbus_auth_return_buffer_def bind_eq_Some_conv)
next
  case (worked a w s a' w')
  then show ?case using do_work_server work_loop_frame by (fastforce simp: dbus_auth_do_work_def bind_eq_Some_conv)
next
  case (sent a n a')
  then show ?case by (auto simp: dbus_auth_bytes_sent_def bind_eq_Some_conv)
next
  case (dropped a)
  then show ?case by (simp add: dbus_auth_delete_unused_bytes_def)
qed


end
