(* ===== verification/Auth_Handshake.thy ===== *)
theory Auth_Handshake
  imports Auth_Server
begin

text \<open>
  The handshake of a client and a server with the mechanism EXTERNAL (\<open>dbus/dbus-auth.c\<close>) when memory does not
  run out: every line of it from the text on the wire to the new state, and that it completes.
\<close>

section \<open>Steps when memory does not run out\<close>

named_theorems free_steps

lemma attempts_free [free_steps]: "mem w = [] \<Longrightarrow> attempts n w = (True, w)"
proof (induction n)
  case (Suc n)
  have "attempt w = (True, w)" using Suc.prems by (cases w) (simp add: attempt_def)
  then show ?case using Suc by simp
qed simp

lemma attempt_free [free_steps]: "mem w = [] \<Longrightarrow> attempt w = (True, w)"
  by (cases w) (simp add: attempt_def)

lemma emit_free [free_steps]: "mem w = [] \<Longrightarrow> emit n xs a w = (True, a\<lparr>outgoing := outgoing a @ xs\<rparr>, w)"
  by (simp add: emit_def attempts_free)

lemma trying_free [free_steps]: "mem w = [] \<Longrightarrow> trying n a w f = f w"
  by (simp add: trying_def attempts_free)

lemma andthen_True [simp]: "andthen (True, a, w) f = f a w"
  by (simp add: andthen_def)

lemma forget_mech_True [simp]: "forget_mech (Some (True, r)) = Some (True, r)"
  by (cases r) (simp add: forget_mech_def)

section \<open>Lines\<close>

lemma hex_val_char:
  assumes "hex_val c \<noteq> None"
  shows "is_ascii c" "\<not> is_ascii_white c" "\<not> is_ascii_blank c" "c \<noteq> 0x0D"
proof -
  have c: "c \<in> set [0x30, 0x31, 0x32, 0x33, 0x34, 0x35, 0x36, 0x37, 0x38, 0x39, 0x61, 0x62, 0x63, 0x64, 0x65, 0x66,
      0x41, 0x42, 0x43, 0x44, 0x45, 0x46]"
    using assms unfolding hex_val_def by (auto split: if_splits)
  have "list_all (\<lambda>c. is_ascii c \<and> \<not> is_ascii_white c \<and> \<not> is_ascii_blank c \<and> c \<noteq> 0x0D)
     [0x30, 0x31, 0x32, 0x33, 0x34, 0x35, 0x36, 0x37, 0x38, 0x39, 0x61, 0x62, 0x63, 0x64, 0x65, 0x66,
      0x41, 0x42, 0x43, 0x44, 0x45, 0x46]"
    by (simp add: is_ascii_def is_ascii_white_def is_ascii_blank_def)
  then show "is_ascii c" "\<not> is_ascii_white c" "\<not> is_ascii_blank c" "c \<noteq> 0x0D"
    using c unfolding list_all_iff by blast+
qed

text \<open>Texts of hexadecimal digits.\<close>

definition hex_text :: "byte list \<Rightarrow> bool" where
  "hex_text xs \<longleftrightarrow> hex_prefix xs = xs"

lemma hex_text_digits [simp]: "hex_text (concat (map hex_of_byte bs))"
  by (simp add: hex_text_def hex_decoded_bytes)

lemma hex_text_char:
  assumes "hex_text xs" "c \<in> set xs"
  shows "hex_val c \<noteq> None"
  using assms by (simp add: hex_text_def hex_prefix_def)

text \<open>A word of a line; one that may be followed by a word.\<close>

definition plain :: "byte list \<Rightarrow> bool" where
  "plain xs \<longleftrightarrow> list_all (\<lambda>c. is_ascii c \<and> \<not> is_ascii_white c \<and> \<not> is_ascii_blank c \<and> c \<noteq> 0x0D) xs"

lemma plain_hex: "hex_text xs \<Longrightarrow> plain xs"
  unfolding plain_def list_all_iff by (intro ballI) (simp add: hex_val_char hex_text_char)

lemma plain_append [simp]: "plain (xs @ ys) \<longleftrightarrow> plain xs \<and> plain ys"
  by (simp add: plain_def)

lemma find_crlf_line: "\<forall>c \<in> set xs. c \<noteq> 0x0D \<Longrightarrow> find_crlf (xs @ crlf) = Some (length xs)"
proof (induction xs)
  case (Cons x xs)
  then show ?case by (cases xs) (auto simp: crlf_def)
qed (simp add: crlf_def)

lemma find_blank_word: "plain xs \<Longrightarrow> find_blank (xs @ 0x20 # ys) 0 = length xs"
  by (auto simp: find_blank_def plain_def list_all_iff takeWhile_append is_ascii_blank_def)

lemma find_blank_end: "plain xs \<Longrightarrow> find_blank xs 0 = length xs"
proof -
  assume "plain xs"
  then have t: "takeWhile (\<lambda>c. \<not> is_ascii_blank c) xs = xs" by (simp add: plain_def list_all_iff)
  show ?thesis unfolding find_blank_def drop_0 t by simp
qed

lemma skip_blank_word: "plain (take 1 ys) \<Longrightarrow> skip_blank (xs @ 0x20 # ys) (length xs) = Some (length xs + 1)"
  by (cases ys) (auto simp: skip_blank_def Let_def plain_def is_ascii_blank_def nth_append)

lemma skip_blank_end: "skip_blank xs (length xs) = Some (length xs)"
  by (simp add: skip_blank_def)

text \<open>A command with arguments and one without.\<close>

lemma process_line_word:
  assumes "mem w = []" "plain cmd" "plain (take 1 args)" "list_all is_ascii args"
  shows "process_line e (cmd @ 0x20 # args) a w = handle e (lookup_command_from_name cmd) args a w"
proof -
  have "list_all is_ascii (cmd @ 0x20 # args)"
    using assms(2,4) by (auto simp: plain_def list_all_iff is_ascii_def)
  then show ?thesis
    using assms by (simp add: process_line_def Let_def find_blank_word skip_blank_word trying_free)
qed

lemma process_line_bare:
  assumes "mem w = []" "plain cmd"
  shows "process_line e cmd a w = handle e (lookup_command_from_name cmd) [] a w"
proof -
  have "list_all is_ascii cmd" using assms(2) by (auto simp: plain_def list_all_iff)
  then show ?thesis
    using assms by (simp add: process_line_def Let_def find_blank_end skip_blank_end trying_free)
qed

text \<open>One whole line is worked on.\<close>

lemma work_loop_line:
  assumes w: "mem w = []" and a: "\<not> in_end_state a" "incoming a = line @ crlf" "\<forall>c \<in> set line. c \<noteq> 0x0D"
      "length (incoming a) \<le> MAX_BUFFER" "length (outgoing a) \<le> MAX_BUFFER"
    and p: "process_line e line a w = Some (True, a', w)"
    and out: "in_end_state a' \<or> length (outgoing a') \<le> MAX_BUFFER"
  shows "work_loop e a w = Some (a'\<lparr>incoming := [], needed_memory := False\<rparr>, w)"
proof -
  have "incoming a' = incoming a" using postD [OF process_line_kept p] by (simp add: kept_defs)
  then have c: "process_command e a w = Some (True, a'\<lparr>incoming := [], needed_memory := False\<rparr>, w)"
    using w a(2) find_crlf_line [OF a(3)] p by (simp add: process_command_def attempts_free crlf_def)
  let ?b = "a'\<lparr>incoming := [], needed_memory := False\<rparr>"
  have "process_command e ?b w = Some (False, ?b, w)" by (simp add: process_command_def)
  then have "work_loop e ?b w = Some (?b, w)"
    using out by (subst work_loop.simps) (auto simp: in_end_state_def)
  then show ?thesis using a c by (subst work_loop.simps) simp
qed

section \<open>The handlers of the handshake\<close>

lemma world_mem [simp]: "mem w = [] \<Longrightarrow> w\<lparr>mem := []\<rparr> = w"
  by (cases w) simp

lemma authorize_free:
  "mem w = [] \<Longrightarrow> adt_audit_data d \<noteq> Some [] \<Longrightarrow>
     authorize d a w = (True, a\<lparr>authorized_identity := merged (authorized_identity a) d\<rparr>, w)"
  by (simp add: authorize_def add_credentials_succeeds)

lemma authorize_one_free:
  assumes "mem w = []" "adt_audit_data (credentials a) \<noteq> Some []"
  shows "\<exists>c. authorize_one DBUS_CREDENTIAL_UNIX_PROCESS_ID a w = (True, a\<lparr>authorized_identity := c\<rparr>, w) \<and>
      unix_uid c = unix_uid (authorized_identity a)"
    "\<exists>c. authorize_one DBUS_CREDENTIAL_ADT_AUDIT_DATA_ID a w = (True, a\<lparr>authorized_identity := c\<rparr>, w) \<and>
      unix_uid c = unix_uid (authorized_identity a)"
proof -
  show "\<exists>c. authorize_one DBUS_CREDENTIAL_UNIX_PROCESS_ID a w = (True, a\<lparr>authorized_identity := c\<rparr>, w) \<and>
      unix_uid c = unix_uid (authorized_identity a)"
  proof -
    have "authorize_one DBUS_CREDENTIAL_UNIX_PROCESS_ID a w = (True, a\<lparr>authorized_identity := (authorized_identity a)
        \<lparr>unix_pid := if unix_pid (credentials a) = DBUS_PID_UNSET then unix_pid (authorized_identity a)
           else unix_pid (credentials a)\<rparr>\<rparr>, w)"
      using assms(1) unfolding authorize_one_def add_credential_ok by simp
    then show ?thesis by (intro exI conjI, assumption) simp
  qed
  show "\<exists>c. authorize_one DBUS_CREDENTIAL_ADT_AUDIT_DATA_ID a w = (True, a\<lparr>authorized_identity := c\<rparr>, w) \<and>
      unix_uid c = unix_uid (authorized_identity a)"
  proof (cases "adt_audit_data (credentials a)")
    case None
    then show ?thesis using assms
      by (intro exI [of _ "authorized_identity a"]) (simp add: authorize_one_def add_credential_cases)
  next
    case (Some d)
    then show ?thesis using assms
      by (auto simp: authorize_one_def add_credential_cases dbus_credentials_add_adt_audit_data_def dbus_memdup_def)
  qed
qed

text \<open>What the acceptance of a client by EXTERNAL changes.\<close>

definition accepted :: "byte list \<Rightarrow> creds \<Rightarrow> creds \<Rightarrow> 'k auth \<Rightarrow> 'k auth" where
  "accepted u d c a = a\<lparr>mech := Some EXTERNAL, identity := u, desired_identity := d, authorized_identity := c,
     outgoing := outgoing a @ ascii ''OK '' @ guid a @ crlf, state := server_state_waiting_for_begin\<rparr>"

lemma external_decide_accepts:
  assumes w: "mem w = []" and s: "adt_audit_data (credentials a) \<noteq> Some []"
    and d: "unix_uid (desired_identity a) \<noteq> DBUS_UID_UNSET" "adt_audit_data (desired_identity a) = None"
      "dbus_credentials_are_superset (credentials a) (desired_identity a) = Some True"
  shows "\<exists>c. unix_uid c = unix_uid (desired_identity a) \<and> external_decide a w = Some (True, a\<lparr>authorized_identity := c,
     outgoing := outgoing a @ ascii ''OK '' @ guid a @ crlf, state := server_state_waiting_for_begin\<rparr>, w)"
proof -
  let ?a1 = "a\<lparr>authorized_identity := merged (authorized_identity a) (desired_identity a)\<rparr>"
  obtain c2 where c2: "authorize_one DBUS_CREDENTIAL_UNIX_PROCESS_ID ?a1 w = (True, a\<lparr>authorized_identity := c2\<rparr>, w)"
    "unix_uid c2 = unix_uid (desired_identity a)"
    using authorize_one_free(1) [of w ?a1] w s d(1) by (auto simp: merged_def)
  obtain c3 where c3: "authorize_one DBUS_CREDENTIAL_ADT_AUDIT_DATA_ID (a\<lparr>authorized_identity := c2\<rparr>) w =
      (True, a\<lparr>authorized_identity := c3\<rparr>, w)" "unix_uid c3 = unix_uid (desired_identity a)"
    using authorize_one_free(2) [of w "a\<lparr>authorized_identity := c2\<rparr>"] w s c2(2) by auto
  have "external_decide a w = Some (send_ok (a\<lparr>authorized_identity := c3\<rparr>) w)"
    using d c2(1) c3(1) authorize_free [OF w, of "desired_identity a" a]
    by (simp add: external_decide_def dbus_credentials_are_anonymous_def)
  then show ?thesis using c3(2) w by (auto simp: send_ok_def emit_free goto_state_def)
qed

lemma external_accepts:
  assumes w: "mem w = []" and a: "identity a = []" "u \<noteq> []" "mech a = Some EXTERNAL"
    and s: "user_uid e u = Some (unix_uid (credentials a))" "unix_uid (credentials a) \<noteq> DBUS_UID_UNSET"
      "adt_audit_data (credentials a) \<noteq> Some []"
  shows "\<exists>d c. unix_uid c = unix_uid (credentials a) \<and>
    handle_server_data_external_mech e u a w = Some (True, accepted u d c a, w)"
proof -
  let ?d = "(dbus_credentials_clear (desired_identity a))\<lparr>unix_uid := unix_uid (credentials a)\<rparr>"
  let ?a = "a\<lparr>identity := u, desired_identity := ?d\<rparr>"
  have e: "handle_server_data_external_mech e u a w = external_decide ?a w"
    using w a s(1,2)
    by (simp add: handle_server_data_external_mech_def dbus_credentials_are_anonymous_def take_identity_def
        attempt_free add_from_user_def Let_def)
  have "dbus_credentials_are_superset (credentials ?a) (desired_identity ?a) = Some True"
    by (simp add: dbus_credentials_are_superset_def dbus_credentials_clear_def)
  then obtain c where "unix_uid c = unix_uid (credentials a)" "external_decide ?a w = Some (True, ?a\<lparr>authorized_identity := c,
     outgoing := outgoing ?a @ ascii ''OK '' @ guid ?a @ crlf, state := server_state_waiting_for_begin\<rparr>, w)"
    using external_decide_accepts [OF w, of ?a] s(2,3) by (auto simp: dbus_credentials_clear_def)
  moreover have "?a\<lparr>authorized_identity := c,
     outgoing := outgoing ?a @ ascii ''OK '' @ guid ?a @ crlf, state := server_state_waiting_for_begin\<rparr> = accepted u ?d c a"
    using a(3) by (cases a) (simp add: accepted_def)
  ultimately show ?thesis using e by metis
qed

text \<open>The texts of the lines.\<close>

definition auth_line :: "byte list \<Rightarrow> byte list" where
  "auth_line u = ascii ''AUTH EXTERNAL '' @ concat (map hex_of_byte u)"

lemma plain_words [simp]:
  "plain (ascii ''AUTH'')" "plain (ascii ''EXTERNAL'')" "plain (ascii ''OK'')" "plain (ascii ''BEGIN'')"
  "plain (ascii ''NEGOTIATE_UNIX_FD'')" "plain (ascii ''AGREE_UNIX_FD'')"
  by (simp_all add: plain_def ascii_def is_ascii_def is_ascii_white_def is_ascii_blank_def)

lemma plain_ascii: "plain xs \<Longrightarrow> list_all is_ascii xs"
  by (auto simp: plain_def list_all_iff)

lemma plain_take: "plain xs \<Longrightarrow> plain (take n xs)"
  by (auto simp: plain_def list_all_iff dest: in_set_takeD)

lemma plain_no_cr: "plain xs \<Longrightarrow> c \<in> set xs \<Longrightarrow> c \<noteq> 0x0D"
  by (auto simp: plain_def list_all_iff)

lemma lookup_words [simp]:
  "lookup_command_from_name (ascii ''AUTH'') = DBUS_AUTH_COMMAND_AUTH"
  "lookup_command_from_name (ascii ''OK'') = DBUS_AUTH_COMMAND_OK"
  "lookup_command_from_name (ascii ''BEGIN'') = DBUS_AUTH_COMMAND_BEGIN"
  "lookup_command_from_name (ascii ''NEGOTIATE_UNIX_FD'') = DBUS_AUTH_COMMAND_NEGOTIATE_UNIX_FD"
  "lookup_command_from_name (ascii ''AGREE_UNIX_FD'') = DBUS_AUTH_COMMAND_AGREE_UNIX_FD"
  by (simp_all add: lookup_command_from_name_def ascii_def)

lemma ascii_append: "ascii (s @ t) = ascii s @ ascii t"
  by (simp add: ascii_def)

lemma auth_line_words: "auth_line u = ascii ''AUTH'' @ 0x20 # ascii ''EXTERNAL'' @ 0x20 # concat (map hex_of_byte u)"
  by (simp add: auth_line_def ascii_def)

lemma find_mech_external: "permits a EXTERNAL \<Longrightarrow> find_mech (ascii ''EXTERNAL'') (allowed_mechs a) = Some EXTERNAL"
  by (auto simp: find_mech_def permits_def mechanism_name_def all_mechanisms_def split: option.splits)

lemma external_first: "plain (take 1 (ascii ''EXTERNAL'' @ ys))"
  by (simp add: plain_def ascii_def is_ascii_def is_ascii_white_def is_ascii_blank_def)

lemma server_auth_line:
  assumes w: "mem w = []" and a: "state a = server_state_waiting_for_auth" "identity a = []" "permits a EXTERNAL"
    and u: "u \<noteq> []" "user_uid e u = Some (unix_uid (credentials a))"
    and s: "unix_uid (credentials a) \<noteq> DBUS_UID_UNSET" "adt_audit_data (credentials a) \<noteq> Some []"
  shows "\<exists>d c. unix_uid c = unix_uid (credentials a) \<and>
    process_line e (auth_line u) a w = Some (True, accepted u d c a, w)"
proof -
  let ?hex = "concat (map hex_of_byte u)" and ?a = "a\<lparr>mech := Some EXTERNAL\<rparr>"
  have h: "plain ?hex" by (rule plain_hex) simp
  obtain d c where x: "unix_uid c = unix_uid (credentials a)"
    "handle_server_data_external_mech e u ?a w = Some (True, accepted u d c ?a, w)"
    using external_accepts [OF w, of ?a u e] a u s by auto
  have "accepted u d c ?a = accepted u d c a" by (simp add: accepted_def)
  then have "process_data (server_data_func e EXTERNAL) ?hex ?a w = Some (True, accepted u d c a, w)"
    using x(2) by (simp add: process_data_def trying_free [OF w] hex_decoded_bytes server_data_func_def)
  then have "handle_auth e (ascii ''EXTERNAL'' @ 0x20 # ?hex) a w = Some (True, accepted u d c a, w)"
    using h a(3) by (simp add: handle_auth_def Let_def find_blank_word skip_blank_word plain_take trying_free [OF w] find_mech_external)
  then have "handle e DBUS_AUTH_COMMAND_AUTH (ascii ''EXTERNAL'' @ 0x20 # ?hex) a w = Some (True, accepted u d c a, w)"
    using a(1) by (simp add: handle_def handle_server_state_waiting_for_auth_def)
  moreover have digits: "list_all is_ascii (ascii ''EXTERNAL'' @ 0x20 # ?hex)"
    using plain_ascii [OF h] plain_ascii [of "ascii ''EXTERNAL''"] by (simp add: is_ascii_def)
  have "process_line e (auth_line u) a w = handle e DBUS_AUTH_COMMAND_AUTH (ascii ''EXTERNAL'' @ 0x20 # ?hex) a w"
    unfolding auth_line_words using process_line_word [OF w plain_words(1) external_first digits] by simp
  ultimately show ?thesis using x(1) by metis
qed

section \<open>Turns\<close>

text \<open>A turn: one side's bytes go over the socket, the other works on them.\<close>

definition turn :: "'k auth_env \<Rightarrow> 'k auth \<Rightarrow> 'k auth \<Rightarrow> world \<Rightarrow> ('k auth \<times> 'k auth \<times> world) option" where
  "turn e a b w = (case dbus_auth_get_bytes_to_send a of
     None \<Rightarrow> Some (a, b, w)
   | Some xs \<Rightarrow> do {
       a \<leftarrow> dbus_auth_bytes_sent (length xs) a;
       b \<leftarrow> dbus_auth_get_buffer b;
       b \<leftarrow> dbus_auth_return_buffer xs b;
       (_, b, w) \<leftarrow> dbus_auth_do_work e b w;
       Some (a, b, w) })"

fun turns :: "'k auth_env \<Rightarrow> nat \<Rightarrow> 'k auth \<Rightarrow> 'k auth \<Rightarrow> world \<Rightarrow> ('k auth \<times> 'k auth \<times> world) option" where
  "turns e 0 a b w = Some (a, b, w)"
| "turns e (Suc n) a b w = do { (a, b, w) \<leftarrow> turn e a b w; turns e n b a w }"

definition quiet :: "'k auth \<Rightarrow> bool" where
  "quiet a \<longleftrightarrow> incoming a = [] \<and> \<not> buffer_outstanding a \<and> \<not> needed_memory a"

lemma turn_silent: "outgoing a = [] \<Longrightarrow> turn e a b w = Some (a, b, w)"
  by (simp add: turn_def dbus_auth_get_bytes_to_send_def)

text \<open>A turn with one line.\<close>

lemma turn_line:
  assumes w: "mem w = []" and a: "outgoing a = line @ crlf" "\<forall>c \<in> set line. c \<noteq> 0x0D" "length line + 2 \<le> MAX_BUFFER"
    and b: "quiet b" "\<not> in_end_state b" "outgoing b = []"
    and p: "process_line e line (b\<lparr>incoming := line @ crlf\<rparr>) w = Some (True, b', w)"
    and out: "in_end_state b' \<or> length (outgoing b') \<le> MAX_BUFFER"
  shows "turn e a b w = Some (a\<lparr>outgoing := []\<rparr>, b'\<lparr>incoming := [], needed_memory := False\<rparr>, w)"
proof -
  let ?b = "b\<lparr>incoming := line @ crlf\<rparr>"
  have nm: "?b\<lparr>needed_memory := False\<rparr> = ?b" using b(1) by (cases b) (simp add: quiet_def)
  have "work_loop e ?b w = Some (b'\<lparr>incoming := [], needed_memory := False\<rparr>, w)"
    by (rule work_loop_line [OF w, of ?b line]) (use a b p out in \<open>auto simp: in_end_state_def crlf_def\<close>)
  then have work: "\<exists>st. dbus_auth_do_work e ?b w = Some (st, b'\<lparr>incoming := [], needed_memory := False\<rparr>, w)"
    unfolding dbus_auth_do_work_def nm by simp
  have ne: "crlf \<noteq> []" by (simp add: crlf_def)
  have bo: "b\<lparr>incoming := line @ crlf, buffer_outstanding := False\<rparr> = ?b" using b(1) by (cases b) (simp add: quiet_def)
  have "\<exists>st. dbus_auth_do_work e (b\<lparr>incoming := line @ crlf, buffer_outstanding := False\<rparr>) w
      = Some (st, b'\<lparr>incoming := [], needed_memory := False\<rparr>, w)"
    using work by (simp only: bo)
  then show ?thesis
    using a(1) b(1) ne
    by (auto simp: turn_def dbus_auth_get_bytes_to_send_def dbus_auth_bytes_sent_def dbus_auth_get_buffer_def
        dbus_auth_return_buffer_def quiet_def)
qed

section \<open>The other lines\<close>

definition refusal :: "byte list" where
  "refusal = [0x22] @ ascii ''Unix FD passing not supported, not authenticated or otherwise not possible'' @ [0x22]"

lemma refusal_ascii: "list_all is_ascii refusal" "plain (take 1 refusal)" "c \<in> set refusal \<Longrightarrow> c \<noteq> 0x0D"
proof -
  have "list_all (\<lambda>c. is_ascii c \<and> c \<noteq> 0x0D) refusal" by (simp add: refusal_def ascii_def is_ascii_def)
  then show "list_all is_ascii refusal" "c \<in> set refusal \<Longrightarrow> c \<noteq> 0x0D" by (auto simp: list_all_iff)
  show "plain (take 1 refusal)"
    by (simp add: refusal_def plain_def is_ascii_def is_ascii_white_def is_ascii_blank_def)
qed

lemma server_begin_line:
  "mem w = [] \<Longrightarrow> state a = server_state_waiting_for_begin \<Longrightarrow>
     process_line e (ascii ''BEGIN'') a w = Some (True, a\<lparr>state := common_state_authenticated\<rparr>, w)"
  by (simp add: process_line_bare handle_def handle_server_state_waiting_for_begin_def goto_state_def)

lemma server_negotiate_line:
  assumes "mem w = []" "state a = server_state_waiting_for_begin"
  shows "process_line e (ascii ''NEGOTIATE_UNIX_FD'') a w = Some (True,
    (if unix_fd_possible a
     then a\<lparr>unix_fd_negotiated := True, outgoing := outgoing a @ ascii ''AGREE_UNIX_FD'' @ crlf\<rparr>
     else a\<lparr>outgoing := outgoing a @ (ascii ''ERROR'' @ 0x20 # refusal) @ crlf\<rparr>), w)"
proof -
  have "ascii ''ERROR '' = ascii ''ERROR'' @ [0x20]" by (simp add: ascii_def)
  moreover have "a\<lparr>unix_fd_negotiated := True, outgoing := outgoing a @ x, state := server_state_waiting_for_begin\<rparr>
      = a\<lparr>unix_fd_negotiated := True, outgoing := outgoing a @ x\<rparr>" for x
    using assms(2) by (cases a) simp
  ultimately show ?thesis using assms
    by (simp add: process_line_bare handle_def handle_server_state_waiting_for_begin_def send_agree_unix_fd_def
        emit_free goto_state_def send_error_def refusal_def)
qed

lemma client_ok_line:
  assumes w: "mem w = []" and a: "state a = client_state_waiting_for_data" "mech a = Some m" "guid_from_server a = []"
    and g: "hex_text g" "g \<noteq> []"
  shows "process_line e (ascii ''OK'' @ 0x20 # g) a w = Some (True,
    (if unix_fd_possible a
     then a\<lparr>guid_from_server := g, outgoing := outgoing a @ ascii ''NEGOTIATE_UNIX_FD'' @ crlf,
       state := client_state_waiting_for_agree_unix_fd\<rparr>
     else a\<lparr>guid_from_server := g, outgoing := outgoing a @ ascii ''BEGIN'' @ crlf, state := common_state_authenticated\<rparr>), w)"
proof -
  have p: "plain g" by (rule plain_hex) (rule g(1))
  have "length (hex_prefix g) = length g" using g(1) by (simp add: hex_text_def)
  then have "process_ok g a w = Some (if unix_fd_possible a then send_negotiate_unix_fd (a\<lparr>guid_from_server := g\<rparr>) w
      else send_begin (a\<lparr>guid_from_server := g\<rparr>) w)"
    using a(3) g(2) by (simp add: process_ok_def trying_free [OF w])
  then show ?thesis
    using a w by (simp add: process_line_word [OF w plain_words(3) plain_take [OF p] plain_ascii [OF p]] handle_def
        handle_client_state_waiting_for_data_def send_negotiate_unix_fd_def send_begin_def emit_free goto_state_def)
qed

lemma client_agree_line:
  "mem w = [] \<Longrightarrow> state a = client_state_waiting_for_agree_unix_fd \<Longrightarrow> unix_fd_possible a \<Longrightarrow>
     process_line e (ascii ''AGREE_UNIX_FD'') a w = Some (True, a\<lparr>unix_fd_negotiated := True,
       outgoing := outgoing a @ ascii ''BEGIN'' @ crlf, state := common_state_authenticated\<rparr>, w)"
  by (simp add: process_line_bare handle_def handle_client_state_waiting_for_agree_unix_fd_def send_begin_def emit_free goto_state_def)

lemma client_refused_line:
  assumes "mem w = []" "state a = client_state_waiting_for_agree_unix_fd" "unix_fd_possible a"
  shows "process_line e (ascii ''ERROR'' @ 0x20 # refusal) a w = Some (True, a\<lparr>unix_fd_negotiated := False,
       outgoing := outgoing a @ ascii ''BEGIN'' @ crlf, state := common_state_authenticated\<rparr>, w)"
proof -
  have "plain (ascii ''ERROR'')" "lookup_command_from_name (ascii ''ERROR'') = DBUS_AUTH_COMMAND_ERROR"
    by (simp_all add: plain_def ascii_def is_ascii_def is_ascii_white_def is_ascii_blank_def lookup_command_from_name_def)
  then show ?thesis
    using assms refusal_ascii
    by (simp add: process_line_word handle_def handle_client_state_waiting_for_agree_unix_fd_def send_begin_def
        emit_free goto_state_def)
qed

section \<open>The whole handshake\<close>

text \<open>One turn of each kind, as far as the rest of the handshake sees it.\<close>

definition offering :: "'k auth_env \<Rightarrow> 'k auth \<Rightarrow> bool" where
  "offering e c \<longleftrightarrow> quiet c \<and> side c = auth_side_client \<and> state c = client_state_waiting_for_data
     \<and> mech c = Some EXTERNAL \<and> guid_from_server c = [] \<and> \<not> unix_fd_negotiated c
     \<and> outgoing c = auth_line (own_user e) @ crlf"

definition expecting :: "'k auth \<Rightarrow> bool" where
  "expecting s \<longleftrightarrow> quiet s \<and> state s = server_state_waiting_for_auth \<and> identity s = [] \<and> outgoing s = []
     \<and> \<not> unix_fd_negotiated s"

lemma plain_auth_line: "c \<in> set (auth_line u) \<Longrightarrow> c \<noteq> 0x0D"
proof -
  have h: "plain (concat (map hex_of_byte u))" by (rule plain_hex) simp
  show "c \<in> set (auth_line u) \<Longrightarrow> c \<noteq> 0x0D"
    unfolding auth_line_words set_append list.set Un_iff insert_iff
    using plain_no_cr [OF h] plain_no_cr [OF plain_words(1)] plain_no_cr [OF plain_words(2)] by auto
qed

lemma length_auth_line: "length (auth_line u) = 14 + 2 * length u"
  by (induction u) (simp_all add: auth_line_def ascii_def hex_of_byte_def)

lemma turn_auth:
  assumes w: "mem w = []" and c: "offering e c" and s: "expecting s" "permits s EXTERNAL"
    and u: "own_user e \<noteq> []" "user_uid e (own_user e) = Some (unix_uid (credentials s))"
      "unix_uid (credentials s) \<noteq> DBUS_UID_UNSET" "adt_audit_data (credentials s) \<noteq> Some []"
    and len: "length (own_user e) \<le> 8000" "length (guid s) \<le> 8000"
  shows "\<exists>s'. turn e c s w = Some (c\<lparr>outgoing := []\<rparr>, s', w) \<and> quiet s' \<and> state s' = server_state_waiting_for_begin \<and>
    outgoing s' = (ascii ''OK'' @ 0x20 # guid s) @ crlf \<and> unix_uid (authorized_identity s') = unix_uid (credentials s) \<and>
    unix_fd_possible s' = unix_fd_possible s \<and> \<not> unix_fd_negotiated s' \<and> side s' = side s"
proof -
  let ?u = "own_user e" and ?s = "s\<lparr>incoming := auth_line (own_user e) @ crlf\<rparr>"
  obtain d x where x: "unix_uid x = unix_uid (credentials s)"
    "process_line e (auth_line ?u) ?s w = Some (True, accepted ?u d x ?s, w)"
    using server_auth_line [OF w, of ?s ?u e] s u by (auto simp: expecting_def)
  have ok: "ascii ''OK '' = ascii ''OK'' @ [0x20]" and crlf: "length crlf = 2" by (simp_all add: ascii_def crlf_def)
  have "turn e c s w = Some (c\<lparr>outgoing := []\<rparr>, (accepted ?u d x ?s)\<lparr>incoming := [], needed_memory := False\<rparr>, w)"
    by (rule turn_line [OF w, of c "auth_line ?u"])
      (use c s(1) x(2) len plain_auth_line in \<open>auto simp: offering_def expecting_def in_end_state_def accepted_def
        length_auth_line MAX_BUFFER_def crlf ascii_def\<close>)
  then show ?thesis using x(1) s(1) ok
    by (intro exI [of _ "(accepted ?u d x ?s)\<lparr>incoming := [], needed_memory := False\<rparr>"])
      (simp add: accepted_def quiet_def expecting_def)
qed

lemma turn_ok:
  assumes w: "mem w = []" and s: "outgoing s = (ascii ''OK'' @ 0x20 # g) @ crlf" and g: "hex_text g" "g \<noteq> []" "length g \<le> 8000"
    and c: "quiet c" "state c = client_state_waiting_for_data" "mech c = Some m" "guid_from_server c = []" "outgoing c = []"
  shows "\<exists>c'. turn e s c w = Some (s\<lparr>outgoing := []\<rparr>, c', w) \<and> quiet c' \<and> guid_from_server c' = g \<and>
    side c' = side c \<and> unix_fd_possible c' = unix_fd_possible c \<and> unix_fd_negotiated c' = unix_fd_negotiated c \<and>
    (if unix_fd_possible c
     then outgoing c' = ascii ''NEGOTIATE_UNIX_FD'' @ crlf \<and> state c' = client_state_waiting_for_agree_unix_fd
     else outgoing c' = ascii ''BEGIN'' @ crlf \<and> state c' = common_state_authenticated)"
proof -
  let ?line = "ascii ''OK'' @ 0x20 # g"
  let ?c = "c\<lparr>incoming := ?line @ crlf\<rparr>"
  let ?c' = "if unix_fd_possible ?c
     then ?c\<lparr>guid_from_server := g, outgoing := outgoing ?c @ ascii ''NEGOTIATE_UNIX_FD'' @ crlf,
       state := client_state_waiting_for_agree_unix_fd\<rparr>
     else ?c\<lparr>guid_from_server := g, outgoing := outgoing ?c @ ascii ''BEGIN'' @ crlf, state := common_state_authenticated\<rparr>"
  have p: "process_line e ?line ?c w = Some (True, ?c', w)"
    by (rule client_ok_line [OF w]) (use c g in simp_all)
  have cr: "\<forall>b \<in> set ?line. b \<noteq> 0x0D"
    using plain_no_cr [OF plain_hex [OF g(1)]] plain_words(3) [THEN plain_no_cr] by auto
  have "turn e s c w = Some (s\<lparr>outgoing := []\<rparr>, ?c'\<lparr>incoming := [], needed_memory := False\<rparr>, w)"
    by (rule turn_line [OF w s cr _ c(1) _ c(5) p]) (use c g in \<open>auto simp: in_end_state_def MAX_BUFFER_def ascii_def crlf_def\<close>)
  then show ?thesis using c by (intro exI [of _ "?c'\<lparr>incoming := [], needed_memory := False\<rparr>"]) (simp add: quiet_def)
qed

lemma turn_begin:
  assumes w: "mem w = []" and c: "outgoing c = ascii ''BEGIN'' @ crlf"
    and s: "quiet s" "state s = server_state_waiting_for_begin" "outgoing s = []"
  shows "\<exists>s'. turn e c s w = Some (c\<lparr>outgoing := []\<rparr>, s', w) \<and> state s' = common_state_authenticated \<and> outgoing s' = [] \<and>
    authorized_identity s' = authorized_identity s \<and> unix_fd_negotiated s' = unix_fd_negotiated s"
proof -
  let ?s = "s\<lparr>incoming := ascii ''BEGIN'' @ crlf\<rparr>"
  have p: "process_line e (ascii ''BEGIN'') ?s w = Some (True, ?s\<lparr>state := common_state_authenticated\<rparr>, w)"
    by (rule server_begin_line [OF w]) (use s in simp)
  have "turn e c s w = Some (c\<lparr>outgoing := []\<rparr>, ?s\<lparr>state := common_state_authenticated, incoming := [], needed_memory := False\<rparr>, w)"
    by (rule turn_line [OF w c _ _ s(1) _ s(3) p])
      (use s plain_words(4) [THEN plain_no_cr] in \<open>auto simp: in_end_state_def MAX_BUFFER_def ascii_def\<close>)
  then show ?thesis using s by simp
qed

text \<open>The two turns about file descriptors.\<close>

lemma turns_negotiate:
  assumes w: "mem w = []" and c: "outgoing c = ascii ''NEGOTIATE_UNIX_FD'' @ crlf" "quiet c"
      "state c = client_state_waiting_for_agree_unix_fd" "unix_fd_possible c"
    and s: "quiet s" "state s = server_state_waiting_for_begin" "outgoing s = []" "\<not> unix_fd_negotiated s"
  shows "\<exists>c' s'. turns e 2 c s w = Some (c', s', w) \<and> state c' = common_state_authenticated \<and>
    outgoing c' = ascii ''BEGIN'' @ crlf \<and> unix_fd_negotiated c' = unix_fd_possible s \<and>
    guid_from_server c' = guid_from_server c \<and> side c' = side c \<and>
    quiet s' \<and> state s' = server_state_waiting_for_begin \<and> outgoing s' = [] \<and>
    authorized_identity s' = authorized_identity s \<and> unix_fd_negotiated s' = unix_fd_possible s"
proof -
  let ?line = "if unix_fd_possible s then ascii ''AGREE_UNIX_FD'' else ascii ''ERROR'' @ 0x20 # refusal"
  have len: "length refusal \<le> 100" by (simp add: refusal_def ascii_def)
  have line: "\<forall>b \<in> set ?line. b \<noteq> 0x0D" "length ?line \<le> 110"
    using refusal_ascii(3) plain_words(6) [THEN plain_no_cr] len by (auto simp: ascii_def)
  let ?s = "s\<lparr>incoming := ascii ''NEGOTIATE_UNIX_FD'' @ crlf\<rparr>"
  obtain s1 where s1: "process_line e (ascii ''NEGOTIATE_UNIX_FD'') ?s w = Some (True, s1, w)"
    "s1 = ?s\<lparr>unix_fd_negotiated := unix_fd_possible s, outgoing := ?line @ crlf\<rparr>"
    using server_negotiate_line [OF w, of ?s e] s by (cases s; cases "unix_fd_possible s") simp_all
  let ?s' = "s1\<lparr>incoming := [], needed_memory := False\<rparr>" and ?c1 = "c\<lparr>outgoing := []\<rparr>"
  have t1: "turn e c s w = Some (?c1, ?s', w)"
    by (rule turn_line [OF w c(1) _ _ s(1) _ s(3) s1(1)])
      (use s s1(2) line(2) plain_words(5) [THEN plain_no_cr] in \<open>auto simp: in_end_state_def MAX_BUFFER_def ascii_def crlf_def\<close>)
  let ?c = "?c1\<lparr>incoming := ?line @ crlf\<rparr>"
  let ?c2 = "?c\<lparr>unix_fd_negotiated := unix_fd_possible s, outgoing := outgoing ?c @ ascii ''BEGIN'' @ crlf,
      state := common_state_authenticated\<rparr>"
  have p: "process_line e ?line ?c w = Some (True, ?c2, w)"
    using client_agree_line [OF w, of ?c e] client_refused_line [OF w, of ?c e] c by (cases "unix_fd_possible s") simp_all
  have q: "quiet ?c1" "outgoing ?s' = ?line @ crlf" using c(2) s1(2) by (simp_all add: quiet_def)
  have t2: "turn e ?s' ?c1 w = Some (?s'\<lparr>outgoing := []\<rparr>, ?c2\<lparr>incoming := [], needed_memory := False\<rparr>, w)"
    by (rule turn_line [OF w q(2) line(1) _ q(1) _ _ p])
      (use c line(2) in \<open>auto simp: in_end_state_def MAX_BUFFER_def ascii_def crlf_def\<close>)
  have "turns e 2 c s w = Some (?c2\<lparr>incoming := [], needed_memory := False\<rparr>, ?s'\<lparr>outgoing := []\<rparr>, w)"
    using t1 t2 by (simp add: numeral_2_eq_2)
  then show ?thesis using c s s1(2) by (simp add: quiet_def)
qed

lemma turns_two: "turns e 2 c s w = Some (c', s', w') \<Longrightarrow> turns e (2 + n) c s w = turns e n c' s' w'"
  by (auto simp: numeral_2_eq_2 bind_eq_Some_conv)

lemma turns_both: "turn e c s w = Some (c1, s1, w1) \<Longrightarrow> turn e s1 c1 w1 = Some (s2, c2, w2) \<Longrightarrow> turns e 2 c s w = Some (c2, s2, w2)"
  by (simp add: numeral_2_eq_2)

lemma turns_silent: "outgoing c = [] \<Longrightarrow> outgoing s = [] \<Longrightarrow> turns e 2 c s w = Some (c, s, w)"
  by (intro turns_both [OF turn_silent turn_silent])

lemma turns_begin:
  assumes w: "mem w = []" and c: "outgoing c = ascii ''BEGIN'' @ crlf"
    and s: "quiet s" "state s = server_state_waiting_for_begin" "outgoing s = []"
  shows "\<exists>s'. turns e 2 c s w = Some (c\<lparr>outgoing := []\<rparr>, s', w) \<and> state s' = common_state_authenticated \<and> outgoing s' = [] \<and>
    authorized_identity s' = authorized_identity s \<and> unix_fd_negotiated s' = unix_fd_negotiated s"
proof -
  obtain s' where s': "turn e c s w = Some (c\<lparr>outgoing := []\<rparr>, s', w)" "outgoing s' = []"
    "state s' = common_state_authenticated \<and> authorized_identity s' = authorized_identity s \<and>
     unix_fd_negotiated s' = unix_fd_negotiated s"
    using turn_begin [OF w c s] by blast
  then have "turns e 2 c s w = Some (c\<lparr>outgoing := []\<rparr>, s', w)"
    by (intro turns_both [OF s'(1) turn_silent]) simp
  then show ?thesis using s' by blast
qed

text \<open>After the server has said OK.\<close>

lemma turns_finish:
  assumes w: "mem w = []" and c: "quiet c" "side c = auth_side_client" "\<not> unix_fd_negotiated c"
      "if unix_fd_possible c
       then outgoing c = ascii ''NEGOTIATE_UNIX_FD'' @ crlf \<and> state c = client_state_waiting_for_agree_unix_fd
       else outgoing c = ascii ''BEGIN'' @ crlf \<and> state c = common_state_authenticated"
    and s: "quiet s" "state s = server_state_waiting_for_begin" "outgoing s = []" "\<not> unix_fd_negotiated s"
  shows "\<exists>c' s'. turns e 4 c s w = Some (c', s', w) \<and> state c' = common_state_authenticated \<and>
    state s' = common_state_authenticated \<and> outgoing c' = [] \<and> outgoing s' = [] \<and>
    guid_from_server c' = guid_from_server c \<and> side c' = auth_side_client \<and>
    authorized_identity s' = authorized_identity s \<and>
    unix_fd_negotiated c' = (unix_fd_possible c \<and> unix_fd_possible s) \<and>
    unix_fd_negotiated s' = (unix_fd_possible c \<and> unix_fd_possible s)"
proof -
  have four: "turns e 4 c s w = turns e 2 c1 s1 w" if "turns e 2 c s w = Some (c1, s1, w)" for c1 s1
    using turns_two [OF that, of 2] by simp
  show ?thesis
  proof (cases "unix_fd_possible c")
    case True
    then have c': "outgoing c = ascii ''NEGOTIATE_UNIX_FD'' @ crlf" "state c = client_state_waiting_for_agree_unix_fd"
      using c(4) by simp_all
    obtain c1 s1 where t: "turns e 2 c s w = Some (c1, s1, w)" "outgoing c1 = ascii ''BEGIN'' @ crlf"
      "quiet s1" "state s1 = server_state_waiting_for_begin" "outgoing s1 = []"
      "state c1 = common_state_authenticated \<and> unix_fd_negotiated c1 = unix_fd_possible s \<and>
       guid_from_server c1 = guid_from_server c \<and> side c1 = side c \<and>
       authorized_identity s1 = authorized_identity s \<and> unix_fd_negotiated s1 = unix_fd_possible s"
      using turns_negotiate [OF w c'(1) c(1) c'(2) True s] by blast
    obtain s2 where "turns e 2 c1 s1 w = Some (c1\<lparr>outgoing := []\<rparr>, s2, w)" "state s2 = common_state_authenticated"
      "outgoing s2 = []" "authorized_identity s2 = authorized_identity s1" "unix_fd_negotiated s2 = unix_fd_negotiated s1"
      using turns_begin [OF w t(2-5)] by blast
    then show ?thesis using four [OF t(1)] t(6) True c(2) by (intro exI [of _ "c1\<lparr>outgoing := []\<rparr>"] exI [of _ s2]) simp
  next
    case False
    then have c': "outgoing c = ascii ''BEGIN'' @ crlf" "state c = common_state_authenticated" using c(4) by simp_all
    obtain s1 where t: "turns e 2 c s w = Some (c\<lparr>outgoing := []\<rparr>, s1, w)" "state s1 = common_state_authenticated"
      "outgoing s1 = []" "authorized_identity s1 = authorized_identity s" "unix_fd_negotiated s1 = unix_fd_negotiated s"
      using turns_begin [OF w c'(1) s(1-3)] by blast
    have "turns e 2 (c\<lparr>outgoing := []\<rparr>) s1 w = Some (c\<lparr>outgoing := []\<rparr>, s1, w)"
      by (rule turns_silent) (use t(3) in simp_all)
    then show ?thesis using four [OF t(1)] t c' c(2,3) s(4) False
      by (intro exI [of _ "c\<lparr>outgoing := []\<rparr>"] exI [of _ s1]) simp
  qed
qed

text \<open>What is made at the start of a connection.\<close>

lemma new_free:
  assumes "mem w = []"
  shows "\<exists>a. dbus_auth_new w = (Some a, w) \<and> quiet a \<and> outgoing a = [] \<and> identity a = [] \<and> mech a = None \<and>
    guid_from_server a = [] \<and> \<not> unix_fd_negotiated a"
  unfolding dbus_auth_new_def attempts_free [OF assms] by (simp add: quiet_def)

lemma client_offers:
  fixes e :: "'k auth_env"
  assumes w: "mem w = []" and c: "dbus_auth_client_new e w = (r, w')"
  shows "\<exists>c. r = Some c \<and> w' = w \<and> offering e (dbus_auth_set_unix_fd_possible b c)"
proof -
  obtain a :: "'k auth" where a: "dbus_auth_new w = (Some a, w)" "quiet a" "outgoing a = []" "guid_from_server a = []" "\<not> unix_fd_negotiated a"
    using new_free [OF w] by blast
  have "ascii ''AUTH '' @ mechanism_name EXTERNAL @ ascii '' '' @ x = ascii ''AUTH EXTERNAL '' @ x" for x
    by (simp add: mechanism_name_def ascii_def)
  then show ?thesis using c a w
    by (auto simp: dbus_auth_client_new_def attempt_free send_auth_def all_mechanisms_def emit_free goto_state_def
        initial_response_def offering_def auth_line_def quiet_def dbus_auth_set_unix_fd_possible_def Let_def)
qed

lemma server_expects:
  fixes r :: "'k auth option"
  assumes w: "mem w = []" and s: "dbus_auth_server_new g w = (r, w')"
  shows "\<exists>s. r = Some s \<and> w' = w \<and> expecting s \<and> guid s = g \<and> side s = auth_side_server"
proof -
  obtain a :: "'k auth" where "dbus_auth_new w = (Some a, w)" "quiet a" "outgoing a = []" "identity a = []" "\<not> unix_fd_negotiated a"
    using new_free [OF w] by blast
  then show ?thesis using s w by (auto simp: dbus_auth_server_new_def attempts_free expecting_def quiet_def)
qed

definition started_server :: "byte list \<Rightarrow> byte list list option \<Rightarrow> creds \<Rightarrow> bool \<Rightarrow> world \<Rightarrow> 'k auth \<Rightarrow> bool" where
  "started_server g ms peer fds w s \<longleftrightarrow> (\<exists>s0 s1 s2.
     dbus_auth_server_new g w = (Some s0, w) \<and> dbus_auth_set_mechanisms ms s0 w = (True, s1, w) \<and>
     dbus_auth_set_credentials peer s1 w = (True, s2, w) \<and> s = dbus_auth_set_unix_fd_possible fds s2)"

lemma started_server_fields:
  assumes w: "mem w = []" and s: "started_server g ms peer fds w s"
  shows "expecting s \<and> guid s = g \<and> allowed_mechs s = ms \<and> unix_fd_possible s = fds \<and>
    unix_uid (credentials s) = unix_uid peer \<and> adt_audit_data (credentials s) = adt_audit_data peer"
proof -
  obtain s0 s1 s2 where st: "dbus_auth_server_new g w = (Some s0, w)" "dbus_auth_set_mechanisms ms s0 w = (True, s1, w)"
    "dbus_auth_set_credentials peer s1 w = (True, s2, w)" "s = dbus_auth_set_unix_fd_possible fds s2"
    using s unfolding started_server_def by blast
  have "expecting s0" "guid s0 = g" using server_expects [OF w st(1)] by simp_all
  moreover have "s1 = s0\<lparr>allowed_mechs := ms\<rparr>"
    using st(2) w by (auto simp: dbus_auth_set_mechanisms_def attempts_free attempt_free split: option.splits)
  moreover have "s2 = s1\<lparr>credentials := merged (dbus_credentials_clear (credentials s1)) peer\<rparr>"
    using st(3) add_credentials_ok by (auto simp: dbus_auth_set_credentials_def split: prod.splits)
  ultimately show ?thesis using st(4)
    by (auto simp: expecting_def quiet_def dbus_auth_set_unix_fd_possible_def merged_def dbus_credentials_clear_def
        split: option.splits)
qed

text \<open>The exchanges of two sides that are ready for them.\<close>

lemma turns_handshake:
  assumes w: "mem w = []" and c: "offering e c" and s: "expecting s" "permits s EXTERNAL"
    and u: "own_user e \<noteq> []" "user_uid e (own_user e) = Some (unix_uid (credentials s))"
      "unix_uid (credentials s) \<noteq> DBUS_UID_UNSET" "adt_audit_data (credentials s) \<noteq> Some []" "length (own_user e) \<le> 8000"
    and g: "hex_text (guid s)" "guid s \<noteq> []" "length (guid s) \<le> 8000"
  shows "\<exists>c' s'. turns e 6 c s w = Some (c', s', w) \<and> state c' = common_state_authenticated \<and>
    side c' = auth_side_client \<and> guid_from_server c' = guid s \<and> state s' = common_state_authenticated \<and>
    unix_uid (authorized_identity s') = unix_uid (credentials s) \<and> outgoing c' = [] \<and> outgoing s' = [] \<and>
    unix_fd_negotiated c' = (unix_fd_possible c \<and> unix_fd_possible s) \<and>
    unix_fd_negotiated s' = (unix_fd_possible c \<and> unix_fd_possible s)"
proof -
  obtain s1 where s1: "turn e c s w = Some (c\<lparr>outgoing := []\<rparr>, s1, w)" "quiet s1"
    "state s1 = server_state_waiting_for_begin" "outgoing s1 = (ascii ''OK'' @ 0x20 # guid s) @ crlf"
    "unix_uid (authorized_identity s1) = unix_uid (credentials s)" "unix_fd_possible s1 = unix_fd_possible s"
    "\<not> unix_fd_negotiated s1"
    using turn_auth [OF w c s u g(3)] by blast
  let ?c = "c\<lparr>outgoing := []\<rparr>"
  have cc: "quiet ?c" "state ?c = client_state_waiting_for_data" "mech ?c = Some EXTERNAL" "guid_from_server ?c = []"
    "outgoing ?c = []" "side ?c = auth_side_client" "\<not> unix_fd_negotiated ?c"
    using c by (simp_all add: offering_def quiet_def)
  obtain c2 where c2: "turn e s1 ?c w = Some (s1\<lparr>outgoing := []\<rparr>, c2, w)" "quiet c2" "guid_from_server c2 = guid s"
    "side c2 = auth_side_client" "unix_fd_possible c2 = unix_fd_possible c" "\<not> unix_fd_negotiated c2"
    "if unix_fd_possible c2
     then outgoing c2 = ascii ''NEGOTIATE_UNIX_FD'' @ crlf \<and> state c2 = client_state_waiting_for_agree_unix_fd
     else outgoing c2 = ascii ''BEGIN'' @ crlf \<and> state c2 = common_state_authenticated"
    using turn_ok [OF w s1(4) g cc(1-5), of e] cc(6,7) by auto
  let ?s = "s1\<lparr>outgoing := []\<rparr>"
  have ss: "quiet ?s" "state ?s = server_state_waiting_for_begin" "outgoing ?s = []" "\<not> unix_fd_negotiated ?s"
    using s1 by (simp_all add: quiet_def)
  obtain c' s' where f: "turns e 4 c2 ?s w = Some (c', s', w)" "state c' = common_state_authenticated"
    "state s' = common_state_authenticated" "outgoing c' = []" "outgoing s' = []" "guid_from_server c' = guid s"
    "side c' = auth_side_client" "authorized_identity s' = authorized_identity ?s"
    "unix_fd_negotiated c' = (unix_fd_possible c \<and> unix_fd_possible s)"
    "unix_fd_negotiated s' = (unix_fd_possible c \<and> unix_fd_possible s)"
    using turns_finish [OF w c2(2,4,6,7) ss, of e] c2(3,5) s1(6) by auto
  have "turns e 6 c s w = Some (c', s', w)"
    using turns_two [OF turns_both [OF s1(1) c2(1)], of 4] f(1) by simp
  then show ?thesis using f s1(5) by simp
qed

text \<open>C33: The handshake completes when memory does not run out: a new client and a new server that permits EXTERNAL, and
  that knows the client's name and finds its user at the other end of the socket, are both authenticated after
  three exchanges; the client then has the server's identifier, the server vouches for that user, and both
  agree that file descriptors may be passed exactly if both can.\<close>

lemma handshake_completes:
  assumes w: "mem w = []" and c: "dbus_auth_client_new e w = (Some c0, w')" "c = dbus_auth_set_unix_fd_possible fc c0"
    and s: "started_server g ms peer fs w s" "permits s EXTERNAL"
    and u: "own_user e \<noteq> []" "user_uid e (own_user e) = Some (unix_uid peer)" "unix_uid peer \<noteq> DBUS_UID_UNSET"
      "adt_audit_data peer \<noteq> Some []" "length (own_user e) \<le> 8000"
    and g: "hex_text g" "g \<noteq> []" "length g \<le> 8000"
  shows "\<exists>c' s' i. turns e 6 c s w = Some (c', s', w) \<and> state c' = common_state_authenticated \<and>
    dbus_auth_get_guid_from_server c' = Some (Some g) \<and> state s' = common_state_authenticated \<and>
    dbus_auth_get_identity s' = Some i \<and> unix_uid i = unix_uid peer \<and> outgoing c' = [] \<and> outgoing s' = [] \<and>
    dbus_auth_get_unix_fd_negotiated c' = (fc \<and> fs) \<and> dbus_auth_get_unix_fd_negotiated s' = (fc \<and> fs)"
proof -
  have oc: "offering e c" using client_offers [OF w c(1), of fc] c(2) by simp
  have fc: "unix_fd_possible c = fc" using c(2) by (simp add: dbus_auth_set_unix_fd_possible_def)
  have es: "expecting s" "guid s = g" "unix_fd_possible s = fs" "unix_uid (credentials s) = unix_uid peer"
    "adt_audit_data (credentials s) = adt_audit_data peer"
    using started_server_fields [OF w s(1)] by simp_all
  have "user_uid e (own_user e) = Some (unix_uid (credentials s))" "unix_uid (credentials s) \<noteq> DBUS_UID_UNSET"
    "adt_audit_data (credentials s) \<noteq> Some []" "hex_text (guid s)" "guid s \<noteq> []" "length (guid s) \<le> 8000"
    using u g es by simp_all
  from turns_handshake [OF w oc es(1) s(2) u(1) this(1-3) u(5) this(4-6)] obtain c' s' where
    "turns e 6 c s w = Some (c', s', w)" "state c' = common_state_authenticated" "side c' = auth_side_client"
    "guid_from_server c' = guid s" "state s' = common_state_authenticated"
    "unix_uid (authorized_identity s') = unix_uid (credentials s)" "outgoing c' = []" "outgoing s' = []"
    "unix_fd_negotiated c' = (unix_fd_possible c \<and> unix_fd_possible s)"
    "unix_fd_negotiated s' = (unix_fd_possible c \<and> unix_fd_possible s)" by blast
  then show ?thesis
    by (simp add: dbus_auth_get_guid_from_server_def dbus_auth_get_identity_def dbus_auth_get_unix_fd_negotiated_def es fc)
qed

section \<open>Witnesses\<close>

definition some_env :: "unit auth_env" where
  "some_env = \<lparr>user_uid = (\<lambda>u. Some 1000), own_user = ascii ''1000'',
     version_string = ascii ''1.4.16'', keyring_new = (\<lambda>_ _. None), keyring_is_for = (\<lambda>_ _. True),
     best_key = (\<lambda>k. (-1, k)), hex_key = (\<lambda>_ _. []), parse_int = (\<lambda>_. None)\<rparr>"

definition some_world :: world where "some_world = \<lparr>mem = [], dice = []\<rparr>"

definition some_client :: "unit auth" where
  "some_client = the (fst (dbus_auth_client_new some_env some_world))"

definition some_server :: "unit auth" where
  "some_server =
     (let a = the (fst (dbus_auth_server_new (ascii ''2a'') some_world));
          a = fst (snd (dbus_auth_set_mechanisms (Some [ascii ''EXTERNAL'']) a some_world));
          a = fst (snd (dbus_auth_set_credentials (empty_credentials\<lparr>unix_uid := 1000\<rparr>) a some_world))
      in dbus_auth_set_unix_fd_possible True a)"

lemma some_client_new: "dbus_auth_client_new some_env some_world = (Some some_client, some_world)"
  using client_offers [of some_world some_env _ _ True] unfolding some_client_def
  by (cases "dbus_auth_client_new some_env some_world") (auto simp: some_world_def)

lemma some_server_started:
  "started_server (ascii ''2a'') (Some [ascii ''EXTERNAL'']) (empty_credentials\<lparr>unix_uid := 1000\<rparr>) True some_world some_server"
proof -
  have w: "mem some_world = []" by (simp add: some_world_def)
  obtain s0 :: "unit auth" where s0: "dbus_auth_server_new (ascii ''2a'') some_world = (Some s0, some_world)"
    using server_expects [OF w] by (metis prod.exhaust)
  moreover have m: "dbus_auth_set_mechanisms ms a some_world = (True, a\<lparr>allowed_mechs := ms\<rparr>, some_world)" for ms and a :: "unit auth"
    using w by (simp add: dbus_auth_set_mechanisms_def attempts_free attempt_free split: option.split)
  moreover have "dbus_credentials_add_credentials c (empty_credentials\<lparr>unix_uid := 1000\<rparr>) [] =
      (True, merged c (empty_credentials\<lparr>unix_uid := 1000\<rparr>), [])" for c
    by (rule add_credentials_succeeds) (simp add: empty_credentials_def)
  then have "dbus_auth_set_credentials (empty_credentials\<lparr>unix_uid := 1000\<rparr>) a some_world =
     (True, a\<lparr>credentials := merged (dbus_credentials_clear (credentials a)) (empty_credentials\<lparr>unix_uid := 1000\<rparr>)\<rparr>, some_world)"
     for a :: "unit auth"
    using w by (simp add: dbus_auth_set_credentials_def)
  ultimately show ?thesis
    by (auto simp: started_server_def some_server_def)
qed

lemma some_server_permits: "permits some_server EXTERNAL"
  using started_server_fields [OF _ some_server_started] by (auto simp: permits_def some_world_def mechanism_name_def)

lemma handshake_completes_witness:
  "\<exists>c' s' i. turns some_env 6 (dbus_auth_set_unix_fd_possible True some_client) some_server some_world = Some (c', s', some_world) \<and>
    state c' = common_state_authenticated \<and> dbus_auth_get_guid_from_server c' = Some (Some (ascii ''2a'')) \<and>
    state s' = common_state_authenticated \<and> dbus_auth_get_identity s' = Some i \<and>
    unix_uid i = unix_uid (empty_credentials\<lparr>unix_uid := 1000\<rparr>) \<and> outgoing c' = [] \<and> outgoing s' = [] \<and>
    dbus_auth_get_unix_fd_negotiated c' = (True \<and> True) \<and> dbus_auth_get_unix_fd_negotiated s' = (True \<and> True)"
  by (rule handshake_completes [OF _ some_client_new refl some_server_started some_server_permits])
    (simp_all add: some_world_def some_env_def ascii_def empty_credentials_def DBUS_UID_UNSET_def hex_text_def hex_prefix_def hex_val_def)

end
