(* ===== verification/Auth_Theorems.thy ===== *)
theory Auth_Theorems
  imports Auth_Handshake
begin

text \<open>
  What an authenticated client has shown to the server, the errors of the conversation (\<open>dbus/dbus-auth.c\<close>), and
  the witnesses of these theorems on small conversations.
\<close>

section \<open>Theorems\<close>

text \<open>C30: The safety of a server that does not permit the cookie mechanism: whatever arrives and however memory
  fails, once it counts the client as authenticated the identity it vouches for has no user, process or
  windows account other than those the socket gave; and unless the anonymous mechanism is permitted, too, it
  has a user.\<close>

lemma server_vouches_for_socket:
  assumes "server_run e a" "state a = common_state_authenticated"
    and "allowed_mechs a = Some ms" "mechanism_name DBUS_COOKIE_SHA1 \<notin> set ms"
  shows "dbus_auth_get_identity a = Some (authorized_identity a) \<and> within (authorized_identity a) (credentials a) \<and>
    (mechanism_name ANONYMOUS \<in> set ms \<or> \<not> dbus_credentials_are_anonymous (authorized_identity a))"
proof -
  have "\<not> permits a DBUS_COOKIE_SHA1" "permits a ANONYMOUS \<longleftrightarrow> mechanism_name ANONYMOUS \<in> set ms"
    using assms(3,4) by (simp_all add: permits_def)
  then show ?thesis using server_run_ok [OF assms(1)] assms(2)
    by (auto simp: server_ok_def passed_def dbus_auth_get_identity_def)
qed


lemma tryingD: "trying n a w f = Some (True, a', w') \<Longrightarrow> \<exists>w1. f w1 = Some (True, a', w')"
  by (auto simp: trying_def split: prod.splits if_splits)

lemma andthenD: "andthen r f = Some (True, a', w') \<Longrightarrow> \<exists>a1 w1. r = (True, a1, w1) \<and> f a1 w1 = Some (True, a', w')"
  by (auto simp: andthen_def split: prod.splits if_splits)

lemma digits_nonempty: "concat (map hex_of_byte (sha1 m)) \<noteq> []"
proof -
  have "length (concat (map hex_of_byte xs)) = 2 * length xs" for xs
    by (induction xs) (simp_all add: hex_of_byte_def)
  then have "length (concat (map hex_of_byte (sha1 m))) = 40" by (simp only: length_sha1)
  then show ?thesis by force
qed

lemma sha1_compute_hashD:
  assumes "keyring a = Some k" "sha1_compute_hash e a n c cc w = Some (True, hash, w')"
  shows "hash = (if hex_key e k n = [] then []
    else concat (map hex_of_byte (sha1 (c @ ascii '':'' @ cc @ ascii '':'' @ hex_key e k n))))"
  using assms by (auto simp: sha1_compute_hash_def Let_def split: prod.splits if_splits)

text \<open>C32: The second message of the cookie mechanism lets the client pass exactly if the digits behind the blank
  are the hash of the challenge, the client's own challenge and the secret cookie; otherwise it is rejected.\<close>

lemma cookie_response_correct:
  assumes a: "undecided DBUS_COOKIE_SHA1 a" "cookie_id a \<ge> 0" "keyring a = Some k"
    and cc: "cc \<noteq> []" "\<forall>b \<in> set cc. \<not> is_ascii_blank b" and h: "\<forall>b \<in> set h. \<not> is_ascii_white b"
    and r: "handle_server_data_cookie_sha1_mech e (cc @ [0x20] @ h) a w = Some (True, a', w')"
  shows "if hex_key e k (cookie_id a) \<noteq> [] \<and>
       h = concat (map hex_of_byte (sha1 (challenge a @ ascii '':'' @ cc @ ascii '':'' @ hex_key e k (cookie_id a))))
     then state a' = server_state_waiting_for_begin \<and> failures a' = failures a
     else failures a' = failures a + 1 \<and> \<not> passed a'"
proof -
  have i: "find_blank (cc @ [0x20] @ h) 0 = length cc"
    using cc(2) by (auto simp: find_blank_def is_ascii_blank_def takeWhile_append)
  have t: "takeWhile is_ascii_blank h = []"
    using h by (cases h) (auto simp: is_ascii_white_def is_ascii_blank_def)
  have s: "skip_blank (cc @ [0x20] @ h) (length cc) = Some (length cc + 1)"
    using h by (cases h) (auto simp: skip_blank_def Let_def t is_ascii_blank_def is_ascii_white_def nth_append)
  have tk: "take (length cc) (cc @ [0x20] @ h) = cc" and dr: "drop (length cc + 1) (cc @ [0x20] @ h) = h" by simp_all
  have rej: "send_rejected a w1 = Some (True, a', w') \<Longrightarrow> failures a' = failures a + 1 \<and> \<not> passed a'" for w1
    using a(1) by (auto simp: undecided_def core_def send_rejected_def passed_def goto_state_def Let_def
        split: prod.splits if_splits dest!: emit_result)
  let ?good = "hex_key e k (cookie_id a) \<noteq> [] \<and>
       h = concat (map hex_of_byte (sha1 (challenge a @ ascii '':'' @ cc @ ascii '':'' @ hex_key e k (cookie_id a))))"
  from r a(2) have "sha1_handle_second_client_response e (cc @ [0x20] @ h) a w = Some (True, a', w')"
    by (simp add: handle_server_data_cookie_sha1_mech_def)
  then obtain w1 where first: "(if h = [] then send_rejected a w1 else trying 1 a w1 (\<lambda>w. do {
        (ok, correct_hash, w) \<leftarrow> sha1_compute_hash e a (cookie_id a) (challenge a) cc w;
        if \<not> ok then Some (False, a, w)
        else if correct_hash = [] then send_rejected a w
        else if h \<noteq> correct_hash then send_rejected a w
        else andthen (authorize (desired_identity a) a w) (\<lambda>a w.
          andthen (authorize_one DBUS_CREDENTIAL_UNIX_PROCESS_ID a w) (\<lambda>a w. Some (send_ok a w))) })) = Some (True, a', w')"
    using cc(1) unfolding sha1_handle_second_client_response_def Let_def i s Option.bind.bind_lunit tk dr
    by (auto dest!: tryingD)
  show ?thesis
  proof (cases "h = []")
    case True
    then have "\<not> ?good" using digits_nonempty by metis
    then show ?thesis using first True rej by simp
  next
    case False
    then obtain w2 where "do {
        (ok, correct_hash, w) \<leftarrow> sha1_compute_hash e a (cookie_id a) (challenge a) cc w2;
        if \<not> ok then Some (False, a, w)
        else if correct_hash = [] then send_rejected a w
        else if h \<noteq> correct_hash then send_rejected a w
        else andthen (authorize (desired_identity a) a w) (\<lambda>a w.
          andthen (authorize_one DBUS_CREDENTIAL_UNIX_PROCESS_ID a w) (\<lambda>a w. Some (send_ok a w))) } = Some (True, a', w')"
      using first tryingD [of 1 a w1 _ a' w'] by (simp only: if_False) blast
    then obtain correct_hash w3 where c: "sha1_compute_hash e a (cookie_id a) (challenge a) cc w2 = Some (True, correct_hash, w3)"
      "(if correct_hash = [] then send_rejected a w3
        else if h \<noteq> correct_hash then send_rejected a w3
        else andthen (authorize (desired_identity a) a w3) (\<lambda>a w.
          andthen (authorize_one DBUS_CREDENTIAL_UNIX_PROCESS_ID a w) (\<lambda>a w. Some (send_ok a w)))) = Some (True, a', w')"
      by (cases "sha1_compute_hash e a (cookie_id a) (challenge a) cc w2") (auto split: if_splits prod.splits)
    note hash = sha1_compute_hashD [OF a(3) c(1)]
    show ?thesis
    proof (cases "correct_hash = [] \<or> h \<noteq> correct_hash")
      case True
      then have "\<not> ?good" using hash digits_nonempty by (metis (no_types, lifting))
      moreover have "send_rejected a w3 = Some (True, a', w')" using c(2) True by (auto split: if_splits)
      ultimately show ?thesis using rej by simp
    next
      case good: False
      then have "?good" using hash by (simp split: if_splits)
      moreover from good c(2) obtain a1 w4 a2 w5 where s: "authorize (desired_identity a) a w3 = (True, a1, w4)"
        "authorize_one DBUS_CREDENTIAL_UNIX_PROCESS_ID a1 w4 = (True, a2, w5)" "send_ok a2 w5 = (True, a', w')"
        by (auto dest!: andthenD)
      have "state a' = server_state_waiting_for_begin \<and> failures a' = failures a"
        using authorize_result [OF s(1)] authorize_one_result [OF s(2)] s(3)
        by (auto simp: send_ok_def goto_state_def split: prod.splits if_splits dest!: emit_result)
      ultimately show ?thesis by simp
    qed
  qed
qed

section \<open>Witnesses of the server's theorems\<close>

lemma started_server_runs: "started_server g ms peer fds w s \<Longrightarrow> server_run e s"
  unfolding started_server_def by (elim exE conjE) (simp add: server_run.created)

text \<open>The turns are steps of the life of a server.\<close>

lemma turn_server:
  assumes "server_run e s" "turn e c s w = Some (c', s', w')"
  shows "server_run e s' \<and> allowed_mechs s' = allowed_mechs s"
proof (cases "dbus_auth_get_bytes_to_send c")
  case None
  then show ?thesis using assms by (simp add: turn_def)
next
  case (Some xs)
  then obtain s1 s2 st where s: "dbus_auth_get_buffer s = Some s1" "dbus_auth_return_buffer xs s1 = Some s2"
    "dbus_auth_do_work e s2 w = Some (st, s', w')"
    using assms(2) by (auto simp: turn_def bind_eq_Some_conv)
  then have "allowed_mechs s' = allowed_mechs s"
    using work_loop_frame [of e "s2\<lparr>needed_memory := False\<rparr>" w]
    by (auto simp: dbus_auth_get_buffer_def dbus_auth_return_buffer_def dbus_auth_do_work_def bind_eq_Some_conv)
  then show ?thesis using server_run.worked [OF server_run.received [OF assms(1) s(1,2)] s(3)] by simp
qed

lemma turn_client:
  assumes "server_run e s" "turn e s c w = Some (s', c', w')"
  shows "server_run e s' \<and> allowed_mechs s' = allowed_mechs s"
  using assms by (cases "dbus_auth_get_bytes_to_send s")
    (auto simp: turn_def bind_eq_Some_conv dbus_auth_bytes_sent_def intro: server_run.sent)

lemma turns_server:
  "server_run e s \<Longrightarrow> turns e (2 * n) c s w = Some (c', s', w') \<Longrightarrow> server_run e s' \<and> allowed_mechs s' = allowed_mechs s"
proof (induction n arbitrary: c s w)
  case (Suc n)
  from Suc.prems(2) obtain c1 s1 w1 c2 s2 w2 where
    t: "turn e c s w = Some (c1, s1, w1)" "turn e s1 c1 w1 = Some (s2, c2, w2)" "turns e (2 * n) c2 s2 w2 = Some (c', s', w')"
    by (auto simp: bind_eq_Some_conv)
  have s1: "server_run e s1" "allowed_mechs s1 = allowed_mechs s" using turn_server [OF Suc.prems(1) t(1)] by simp_all
  have "server_run e s2" "allowed_mechs s2 = allowed_mechs s1" using turn_client [OF s1(1) t(2)] by simp_all
  then show ?case using Suc.IH [OF _ t(3)] s1 by simp
qed simp

definition some_peer :: "unit auth" where
  "some_peer = (case turns some_env 6 (dbus_auth_set_unix_fd_possible True some_client) some_server some_world of
     Some (c, s, w) \<Rightarrow> s)"

lemma some_peer_runs:
  "server_run some_env some_peer" "state some_peer = common_state_authenticated"
  "allowed_mechs some_peer = Some [ascii ''EXTERNAL'']"
proof -
  have w: "mem some_world = []" by (simp add: some_world_def)
  have run: "server_run some_env some_server"
    by (rule started_server_runs [OF some_server_started])
  note f = started_server_fields [OF w some_server_started]
  let ?c = "dbus_auth_set_unix_fd_possible True some_client"
  have o: "offering some_env ?c" using client_offers [OF w some_client_new, of True] by simp
  obtain c' s' where t: "turns some_env 6 ?c some_server some_world = Some (c', s', some_world)"
    "state s' = common_state_authenticated"
    using turns_handshake [OF w o _ some_server_permits] f
    by (auto simp: some_env_def ascii_def empty_credentials_def DBUS_UID_UNSET_def hex_text_def hex_prefix_def hex_val_def)
  have "some_peer = s'" by (simp add: some_peer_def t)
  then show "server_run some_env some_peer" "state some_peer = common_state_authenticated"
    "allowed_mechs some_peer = Some [ascii ''EXTERNAL'']"
    using turns_server [OF run, of 3] t f by auto
qed

lemma server_vouches_for_socket_witness:
  "dbus_auth_get_identity some_peer = Some (authorized_identity some_peer) \<and>
   within (authorized_identity some_peer) (credentials some_peer) \<and>
   \<not> dbus_credentials_are_anonymous (authorized_identity some_peer)"
proof -
  have "mechanism_name DBUS_COOKIE_SHA1 \<notin> set [ascii ''EXTERNAL'']" "mechanism_name ANONYMOUS \<notin> set [ascii ''EXTERNAL'']"
    by (simp_all add: mechanism_name_def ascii_def)
  then show ?thesis using server_vouches_for_socket [OF some_peer_runs] by blast
qed


text \<open>A cookie conversation in which the keyring does not know the cookie.\<close>

definition some_keyring_env :: "unit auth_env" where
  "some_keyring_env = some_env\<lparr>hex_key := (\<lambda>_ _. [])\<rparr>"

definition some_cookie_server :: "unit auth" where
  "some_cookie_server = some_server\<lparr>allowed_mechs := None, mech := Some DBUS_COOKIE_SHA1, keyring := Some (), cookie_id := 7,
     challenge := ascii ''aa'', state := server_state_waiting_for_data, max_failures := 6\<rparr>"

lemma some_cookie_server_undecided: "undecided DBUS_COOKIE_SHA1 some_cookie_server"
proof -
  have "server_run some_env some_server"
    by (rule started_server_runs [OF some_server_started])
  then have "server_ok some_server" "max_failures some_server = 6" using server_run_ok by blast+
  moreover have "state some_server = server_state_waiting_for_auth"
    using started_server_fields [OF _ some_server_started] by (simp add: some_world_def expecting_def)
  ultimately show ?thesis
    by (auto simp: undecided_def core_def server_ok_def permits_def some_cookie_server_def)
qed

lemma cookie_response_correct_witness:
  "\<exists>a' w'. handle_server_data_cookie_sha1_mech some_keyring_env (ascii ''bb'' @ [0x20] @ ascii ''cc'') some_cookie_server some_world
       = Some (True, a', w') \<and> failures a' = failures some_cookie_server + 1 \<and> \<not> passed a'"
proof -
  let ?a = some_cookie_server
  have w: "mem some_world = []" by (simp add: some_world_def)
  have k: "keyring ?a = Some ()" "0 \<le> cookie_id ?a" by (simp_all add: some_cookie_server_def)
  have "side ?a = auth_side_server" using some_cookie_server_undecided by (simp add: undecided_def core_def)
  then obtain a' w' where r: "send_rejected ?a some_world = Some (True, a', w')"
    using w by (auto simp: send_rejected_def emit_free Let_def)
  have "handle_server_data_cookie_sha1_mech some_keyring_env (ascii ''bb'' @ [0x20] @ ascii ''cc'') ?a some_world = Some (True, a', w')"
    using r w k
    by (simp add: handle_server_data_cookie_sha1_mech_def sha1_handle_second_client_response_def ascii_def find_blank_def
        skip_blank_def is_ascii_blank_def is_ascii_white_def trying_free sha1_compute_hash_def attempts_free
        some_keyring_env_def)
  moreover from this have "failures a' = failures ?a + 1 \<and> \<not> passed a'"
    using cookie_response_correct [OF some_cookie_server_undecided k(2) k(1), of "ascii ''bb''" "ascii ''cc''" some_keyring_env some_world a' w']
    by (simp add: ascii_def is_ascii_blank_def is_ascii_white_def some_keyring_env_def)
  ultimately show ?thesis by blast
qed

lemma failed_command_is_kept_witness:
  "process_command some_env (some_server\<lparr>incoming := crlf\<rparr>) \<lparr>mem = [False], dice = []\<rparr>
     = Some (False, some_server\<lparr>incoming := crlf, needed_memory := True\<rparr>, \<lparr>mem = [], dice = []\<rparr>) \<and>
   outgoing (some_server\<lparr>incoming := crlf, needed_memory := True\<rparr>) = outgoing (some_server\<lparr>incoming := crlf\<rparr>)"
proof -
  have p: "process_command some_env (some_server\<lparr>incoming := crlf\<rparr>) \<lparr>mem = [False], dice = []\<rparr>
     = Some (False, some_server\<lparr>incoming := crlf, needed_memory := True\<rparr>, \<lparr>mem = [], dice = []\<rparr>)"
    by (simp add: process_command_def crlf_def numeral_3_eq_3 attempt_def)
  then show ?thesis using failed_command_is_kept [OF p] by blast
qed

section \<open>Errors\<close>

text \<open>C34: A line with a blank directly followed by a line feed, sent by anybody who can connect and before any
  authentication, fails the assertion of \<open>_dbus_string_skip_blank\<close>: the work on it does not return.\<close>

lemma stray_line_feed_aborts:
  assumes w: "mem w = []" and a: "\<not> in_end_state a" "incoming a = (cmd @ [0x20, 0x0A] @ rest) @ crlf"
      "length (incoming a) \<le> MAX_BUFFER" "length (outgoing a) \<le> MAX_BUFFER"
    and line: "plain cmd" "list_all is_ascii rest" "0x0D \<notin> set rest"
  shows "dbus_auth_do_work e a w = None"
proof -
  let ?line = "cmd @ 0x20 # 0x0A # rest"
  have "\<forall>c \<in> set ?line. c \<noteq> 0x0D" using plain_no_cr [OF line(1)] line(3) by auto
  from find_crlf_line [OF this] have "find_crlf (incoming a) = Some (length ?line)" using a(2) by simp
  moreover have "list_all is_ascii ?line" using plain_ascii [OF line(1)] line(2) by (simp add: is_ascii_def)
  moreover have "skip_blank ?line (length cmd) = None"
    by (simp add: skip_blank_def is_ascii_blank_def is_ascii_white_def nth_append)
  ultimately have "process_command e (a\<lparr>needed_memory := False\<rparr>) w = None"
    using a(2) by (simp add: process_command_def attempts_free [OF w] process_line_def find_blank_word [OF line(1)])
  then have "work_loop e (a\<lparr>needed_memory := False\<rparr>) w = None"
    using a by (subst work_loop.simps) (simp add: in_end_state_def)
  then show ?thesis by (simp add: dbus_auth_do_work_def)
qed

lemma stray_line_feed_aborts_witness:
  "dbus_auth_do_work some_env (some_server\<lparr>incoming := (ascii ''AUTH'' @ [0x20, 0x0A] @ []) @ crlf\<rparr>) some_world = None"
proof -
  have "expecting some_server" using started_server_fields [OF _ some_server_started] by (simp add: some_world_def)
  then show ?thesis
    by (intro stray_line_feed_aborts [where cmd = "ascii ''AUTH''" and rest = "[]"])
      (simp_all add: some_world_def expecting_def in_end_state_def ascii_def crlf_def MAX_BUFFER_def plain_def is_ascii_def
        is_ascii_white_def is_ascii_blank_def)
qed

text \<open>C35: A server that ran out of memory after it stored the claimed identity keeps the command for another attempt,
  but the attempt finds the identity taken and rejects the client, which is counted as a failure.\<close>

lemma retry_after_oom_rejects:
  assumes a: "side a = auth_side_server" "state a = server_state_waiting_for_auth" "permits a EXTERNAL"
      "incoming a = auth_line u @ crlf" "u \<noteq> []" "\<not> dbus_credentials_are_anonymous (credentials a)"
    and first: "process_command e a w = Some (False, a1, w1)" "identity a1 \<noteq> []" and w: "mem w2 = []"
  shows "\<exists>a2. process_command e a1 w2 = Some (True, a2, w2) \<and> failures a2 = failures a + 1 \<and> \<not> passed a2 \<and>
    (\<exists>xs. outgoing a2 = outgoing a @ ascii ''REJECTED '' @ xs)"
proof -
  have "find_crlf (incoming a) \<noteq> None" using find_crlf_line [of "auth_line u"] plain_auth_line a(4) by auto
  with first(1) have fr: "incoming a1 = incoming a \<and> outgoing a1 = outgoing a \<and> state a1 = state a \<and> failures a1 = failures a
      \<and> credentials a1 = credentials a \<and> side a1 = side a \<and> allowed_mechs a1 = allowed_mechs a"
  proof (cases rule: process_command_cases)
    case (line eol a' w')
    then have "frame a a' \<and> unsent a a'" using postD [OF process_line_kept] by (fastforce simp: kept_def)
    then show ?thesis using line by (simp add: frame_def unsent_def)
  qed simp_all
  let ?hex = "concat (map hex_of_byte u)" and ?a = "a1\<lparr>mech := Some EXTERNAL\<rparr>"
  have h: "plain ?hex" by (rule plain_hex) simp
  have p: "permits a1 EXTERNAL" using a(3) fr by (simp add: permits_def)
  obtain a2 where a2: "send_rejected ?a w2 = Some (True, a2, w2)" "failures a2 = failures a + 1" "\<not> passed a2"
    "\<exists>xs. outgoing a2 = outgoing a @ ascii ''REJECTED '' @ xs"
    using fr a(1) w
    by (auto simp: send_rejected_def emit_free Let_def passed_def goto_state_def all_mechanisms_def ascii_def)
  have "handle_server_data_external_mech e u ?a w2 = Some (True, a2, w2)"
    using a(5,6) fr first(2) a2(1) by (simp add: handle_server_data_external_mech_def)
  then have "handle_auth e (ascii ''EXTERNAL'' @ 0x20 # ?hex) a1 w2 = Some (True, a2, w2)"
    using h p by (simp add: handle_auth_def Let_def find_blank_word skip_blank_word plain_take trying_free [OF w]
        find_mech_external process_data_def hex_decoded_bytes server_data_func_def)
  moreover have digits: "list_all is_ascii (ascii ''EXTERNAL'' @ 0x20 # ?hex)"
    using plain_ascii [OF h] plain_ascii [of "ascii ''EXTERNAL''"] by (simp add: is_ascii_def)
  ultimately have l: "process_line e (auth_line u) a1 w2 = Some (True, a2, w2)"
    unfolding auth_line_words process_line_word [OF w plain_words(1) external_first digits] lookup_words using fr a(2)
    by (simp add: handle_def handle_server_state_waiting_for_auth_def)
  have "find_crlf (incoming a1) = Some (length (auth_line u))"
    using find_crlf_line [of "auth_line u"] plain_auth_line fr a(4) by auto
  then have "process_command e a1 w2 = Some (True, a2\<lparr>incoming := drop (length (auth_line u) + 2) (incoming a2),
      needed_memory := False\<rparr>, w2)"
    using l fr a(4) by (simp add: process_command_def attempts_free [OF w])
  then show ?thesis using a2(2-4) by (simp add: passed_def)
qed

text \<open>Memory for the first \<open>n\<close> steps only.\<close>

definition short_world :: "nat \<Rightarrow> world" where
  "short_world n = \<lparr>mem = replicate n True @ [False], dice = []\<rparr>"

lemma short_world_Suc: "attempt (short_world (Suc n)) = (True, short_world n)"
  by (simp add: attempt_def short_world_def)

lemma attempts_short: "attempts k (short_world (k + n)) = (True, short_world n)"
  by (induction k arbitrary: n) (simp_all add: short_world_Suc)

lemma attempts_over: "attempts (Suc k) (short_world 0) = (False, \<lparr>mem = [], dice = []\<rparr>)"
  by (simp add: attempt_def short_world_def)

lemma trying_short: "trying k a (short_world (k + n)) f = f (short_world n)"
  by (simp add: trying_def attempts_short)

definition asked_server :: "unit auth" where
  "asked_server = some_server\<lparr>incoming := auth_line (ascii ''1000'') @ crlf\<rparr>"

lemma asked_server_fields:
  "side asked_server = auth_side_server" "state asked_server = server_state_waiting_for_auth" "permits asked_server EXTERNAL"
  "allowed_mechs asked_server = Some [ascii ''EXTERNAL'']" "identity asked_server = []"
  "credentials asked_server = empty_credentials\<lparr>unix_uid := 1000\<rparr>" "authorized_identity asked_server = empty_credentials"
  "incoming asked_server = auth_line (ascii ''1000'') @ crlf" "desired_identity asked_server = empty_credentials"
proof -
  have w: "mem some_world = []" by (simp add: some_world_def)
  show "permits asked_server EXTERNAL" using some_server_permits by (simp add: asked_server_def permits_def)
  show "side asked_server = auth_side_server" "state asked_server = server_state_waiting_for_auth"
    "allowed_mechs asked_server = Some [ascii ''EXTERNAL'']" "identity asked_server = []"
    "credentials asked_server = empty_credentials\<lparr>unix_uid := 1000\<rparr>" "authorized_identity asked_server = empty_credentials"
    "incoming asked_server = auth_line (ascii ''1000'') @ crlf" "desired_identity asked_server = empty_credentials"
    using w by (simp_all add: asked_server_def some_server_def dbus_auth_server_new_def dbus_auth_new_def attempts_free attempt_free Let_def
        dbus_auth_set_mechanisms_def dbus_auth_set_credentials_def dbus_auth_set_unix_fd_possible_def
        add_credentials_succeeds empty_credentials_def dbus_credentials_clear_def merged_def DBUS_UID_UNSET_def DBUS_PID_UNSET_def)
qed

lemma asked_server_fails:
  "\<exists>a1 w1. process_command some_env asked_server (short_world 12) = Some (False, a1, w1) \<and> identity a1 = ascii ''1000''"
proof -
  let ?hex = "concat (map hex_of_byte (ascii ''1000''))"
  note f = asked_server_fields
  let ?a = "asked_server\<lparr>mech := Some EXTERNAL\<rparr>"
  let ?b = "?a\<lparr>identity := ascii ''1000'', desired_identity := empty_credentials\<lparr>unix_uid := 1000\<rparr>\<rparr>"
  have h: "plain ?hex" by (rule plain_hex) simp
  have steps: "trying 2 a (short_world 4) g = g (short_world 2)" "trying 1 a (short_world 5) g = g (short_world 4)"
    "trying 1 a (short_world 6) g = g (short_world 5)" "trying 2 a (short_world 8) g = g (short_world 6)"
    "trying 1 a (short_world 9) g = g (short_world 8)" for a :: "unit auth" and g
    using trying_short [of 2 a 2 g] trying_short [of 1 a 4 g] trying_short [of 1 a 5 g] trying_short [of 2 a 6 g]
      trying_short [of 1 a 8 g] by simp_all
  have "\<exists>a1 w1. external_decide ?b (short_world 0) = Some (False, a1, w1) \<and> identity a1 = ascii ''1000''"
    using f attempts_over [of 2]
    by (simp add: external_decide_def dbus_credentials_are_anonymous_def empty_credentials_def DBUS_UID_UNSET_def
        DBUS_PID_UNSET_def dbus_credentials_are_superset_def authorize_def authorize_one_def dbus_credentials_add_credentials_def
        add_credential_cases andthen_def send_ok_def emit_def numeral_3_eq_3 short_world_def)
  then obtain a1 w1 where d: "external_decide ?b (short_world 0) = Some (False, a1, w1)" "identity a1 = ascii ''1000''" by blast
  have two: "attempt (short_world 2) = (True, short_world 1)" "attempt (short_world 1) = (True, short_world 0)"
    using short_world_Suc [of 1] short_world_Suc [of 0] by (simp_all add: numeral_2_eq_2)
  have e: "handle_server_data_external_mech some_env (ascii ''1000'') ?a (short_world 2) = Some (False, a1, w1)"
    using f d(1) two
    by (simp add: handle_server_data_external_mech_def dbus_credentials_are_anonymous_def take_identity_def
        add_from_user_def Let_def some_env_def ascii_def empty_credentials_def DBUS_UID_UNSET_def dbus_credentials_clear_def
        DBUS_PID_UNSET_def)
  have p: "process_data (server_data_func some_env EXTERNAL) ?hex ?a (short_world 4) = Some (False, a1, w1)"
    using e steps by (simp add: process_data_def hex_decoded_bytes server_data_func_def)
  have "\<exists>a2. handle_auth some_env (ascii ''EXTERNAL'' @ 0x20 # ?hex) asked_server (short_world 8) = Some (False, a2, w1) \<and>
      identity a2 = ascii ''1000''"
    using p h f(3) d(2) steps
    by (simp add: handle_auth_def Let_def find_blank_word skip_blank_word plain_take find_mech_external forget_mech_def)
  then obtain a2 where a2: "handle some_env DBUS_AUTH_COMMAND_AUTH (ascii ''EXTERNAL'' @ 0x20 # ?hex) asked_server (short_world 8) =
      Some (False, a2, w1)" "identity a2 = ascii ''1000''"
    using f(2) by (auto simp: handle_def handle_server_state_waiting_for_auth_def)
  have "list_all is_ascii (ascii ''AUTH'' @ 0x20 # ascii ''EXTERNAL'' @ 0x20 # ?hex)"
    using plain_ascii [OF h] plain_ascii [OF plain_words(1)] plain_ascii [OF plain_words(2)] by (simp add: is_ascii_def)
  then have "process_line some_env (auth_line (ascii ''1000'')) asked_server (short_world 9) = Some (False, a2, w1)"
    unfolding auth_line_words using a2(1) skip_blank_word [OF external_first, of "ascii ''AUTH''"] steps
    by (simp add: process_line_def find_blank_word)
  moreover have "find_crlf (incoming asked_server) = Some (length (auth_line (ascii ''1000'')))"
    using find_crlf_line [of "auth_line (ascii ''1000'')"] plain_auth_line f(8) by auto
  ultimately have "process_command some_env asked_server (short_world 12) = Some (False, a2\<lparr>needed_memory := True\<rparr>, w1)"
    using attempts_short [of 3 9] f(8) by (simp add: process_command_def)
  then show ?thesis using a2(2) by auto
qed

lemma retry_after_oom_rejects_witness:
  "\<exists>a1 w1 a2. process_command some_env asked_server (short_world 12) = Some (False, a1, w1) \<and>
     process_command some_env a1 some_world = Some (True, a2, some_world) \<and> failures a2 = failures asked_server + 1"
proof -
  obtain a1 w1 where p: "process_command some_env asked_server (short_world 12) = Some (False, a1, w1)" "identity a1 = ascii ''1000''"
    using asked_server_fails by blast
  note f = asked_server_fields
  have c: "\<not> dbus_credentials_are_anonymous (credentials asked_server)" "ascii ''1000'' \<noteq> []" "identity a1 \<noteq> []" "mem some_world = []"
    using f(6) p(2) by (simp_all add: dbus_credentials_are_anonymous_def empty_credentials_def DBUS_UID_UNSET_def ascii_def some_world_def)
  from retry_after_oom_rejects [OF f(1-3) f(8) c(2,1) p(1) c(3,4)] show ?thesis using p(1) by blast
qed

end
