(* ===== verification/Spec2Isabelle.thy ===== *)
theory Spec2Isabelle
  imports Dbus_List Names Signature Ownership String_Codec Auth_Theorems
begin

text \<open>
  A verification library for the C code of D-Bus 1.4.16, which the repository keeps under
  \<open>src/Python/dbus-1.4.16\<close>: the reference library (\<open>dbus/\<close>) and the message bus daemon (\<open>bus/\<close>).
  File names below are relative to that directory.

  \<^bold>\<open>The program.\<close> A client connects to the bus over a socket, authenticates with the SASL profile of
  \<open>dbus-auth.c\<close>, and exchanges messages whose names, paths and type signatures every receiver
  validates (\<open>dbus-marshal-validate.c\<close>). The daemon keeps a registry of bus names: each name has a queue of owners,
  the first of which is the primary owner (\<open>bus/services.c\<close>). Each request is handled inside a
  transaction that queues the replies and signals and either sends all of them or undoes the request
  (\<open>bus/connection.c\<close>). All of it rests on the string class (\<open>dbus-string.c\<close>) and on circular doubly linked
  lists (\<open>dbus-list.c\<close>).

  \<^bold>\<open>Conventions of the model.\<close> Every allocation may fail: an operation takes a script of the allocator's
  answers and returns what is left of it, so that a theorem about all scripts is about every pattern of
  failures. A failure that the code reports is a FALSE in the result; a memory fault, a failed assertion, a
  signed overflow and a loop that does not end are \<open>None\<close>. Loops recurse on what they consume; a loop over
  pointers, which need not end, is a partial function into options, and its theorems say that it returns.
  Integers are natural numbers where the code asserts that they are not negative, with the additions that could
  overflow checked, and words where the code relies on their width. No theorem bounds its inputs by fuel.

  \<^bold>\<open>The theories.\<close>
  \<^item> \<open>Prelude\<close>: the allocator script and generic list lemmas.
  \<^item> \<open>Dbus_List\<close> (\<open>dbus/dbus-list.c\<close>): a store of links with next and previous pointers; a ring predicate
    relates it to a list. Each operation is specified by its effect on the list, for every allocation failure
    (append, prepend, insertion, removal, copying); a locale of first in first out queues is interpreted by append
    and pop.
  \<^item> \<open>Names\<close> (\<open>dbus/dbus-marshal-validate.c\<close>): the validators of paths, interfaces, members, error and bus names,
    proved to accept exactly the grammar of the specification, and where they deviate.
  \<^item> \<open>Signature\<close> (\<open>dbus/dbus-marshal-validate.c\<close>, \<open>dbus/dbus-signature.c\<close>, \<open>dbus/dbus-marshal-recursive.c\<close>): the signature
    validator with its element stack, and the iterators over signatures, against a datatype of complete types.
  \<^item> \<open>Dbus_String\<close> (\<open>dbus/dbus-string.c\<close>): the memory block of a string, its alignment, growth and
    editing. \<open>str_ok\<close> is the invariant, \<open>bytes_of\<close> the abstraction, \<open>contract\<close> what every editing
    operation promises; a session of arbitrary edits refines list editing.
  \<^item> \<open>String_Scan\<close> (\<open>dbus/dbus-string.c\<close>): searches, white space, lines, comparison, over the text.
  \<^item> \<open>String_Codec\<close> (\<open>dbus/dbus-string.c\<close>): hexadecimal and its round trip, UTF-8 against the encodings of
    scalar values, ASCII and case. The locale \<open>appender\<close> is the interface of operations that append a piece; it is
    interpreted by the appending of bytes, of hexadecimal digits and of segments.
  \<^item> \<open>Sha\<close> (\<open>dbus/dbus-sha.c\<close>): the streaming computation with its circular schedule and renamed variables, against
    the standard on the padded message, for machines of both byte orders.
  \<^item> \<open>Credentials\<close> (\<open>dbus/dbus-credentials.c\<close>): merging, copying and comparing what is known of a peer.
  \<^item> \<open>Auth\<close>, \<open>Auth_Steps\<close>, \<open>Auth_Server\<close>, \<open>Auth_Handshake\<close>, \<open>Auth_Theorems\<close> (\<open>dbus/dbus-auth.c\<close>): the conversations of
    client and server with the three mechanisms, line by line. \<open>Auth_Steps\<close> shows what every step keeps, through the
    locale \<open>conversation\<close> that is interpreted for the frame of all steps and for the safety of the server;
    \<open>Auth_Server\<close> has the invariant of a server's runs; \<open>Auth_Handshake\<close> that the handshake completes.
    The user database, the keyring of cookies and random bytes are parameters (\<open>auth_env\<close>, \<open>dice\<close>).
  \<^item> \<open>Transaction\<close> (\<open>bus/connection.c\<close>): the messages and cancel hooks of a transaction; all or nothing.
  \<^item> \<open>Services\<close>, \<open>Registry\<close>, \<open>Ownership\<close> (\<open>bus/services.c\<close>, the parts of \<open>bus/connection.c\<close>, \<open>bus/driver.c\<close>,
    \<open>bus/dispatch.c\<close> and \<open>bus/activation.c\<close> they call): a store of services and owners, RequestName, ReleaseName
    and disconnection, with the signals, replies and undo hooks they leave in the transaction. \<open>Registry\<close>
    holds the invariant \<open>reg_ok\<close> and the effect of each operation on the queues; \<open>Ownership\<close> the refinement of the
    written rules, the invariant of all reachable states, and the defects that modelling showed.

  \<^bold>\<open>Parameters.\<close> The matchmaker, the security policy and SELinux answer through an environment record in
  \<open>Services\<close>; the messages of \<open>Transaction\<close> are an opaque type.

  \<^bold>\<open>Not modelled.\<close> Code under \<open>DBUS_BUILD_TESTS\<close>; the operating system layer, sockets, threads and the main
  loop; messages and their typed readers and writers; the configuration parsers; activation of services; the
  programs under \<open>tools\<close> and \<open>test\<close>; the scripts in other languages that the repository holds beside D-Bus. The files
  whose names end in \<open>(1).c\<close> are older copies of their neighbours.
\<close>

end
